(* ===== verification/Az_Prelude.thy ===== *)
theory Az_Prelude
  imports Main "HOL-Library.Word"
begin

text \<open>
  Shared vocabulary of the development: the kernel's integer types
  (\<^verbatim>\<open>include/azami/types.h\<close>) as fixed-width words, the error numbers of
  \<^verbatim>\<open>include/azami/uapi/errno.h\<close> as a datatype, and the store of dynamically
  allocated objects the components with pointers use.

  A C function that returns a negative error number or a value is modelled with
  result type \<open>errno + 'a\<close>: \<open>Inl e\<close> stands for \<open>-e\<close>.

  A store is a list of slots: \<open>kmalloc\<close> appends a slot, \<open>kfree\<close> empties it and never
  makes its index available again, so that an access through a freed pointer is
  visible as \<open>None\<close>.
\<close>

unbundle bit_operations_syntax

section \<open>Types\<close>

type_synonym u8 = "8 word"
type_synonym u16 = "16 word"
type_synonym u32 = "32 word"
type_synonym u64 = "64 word"

type_synonym pid = nat
type_synonym tid = nat

datatype errno =
    EPERM | ENOENT | ESRCH | EINTR | EIO | ENXIO | E2BIG | ENOEXEC | EBADF | ECHILD
  | EAGAIN | ENOMEM | EACCES | EFAULT | EBUSY | EEXIST | ENODEV | ENOTDIR | EISDIR
  | EINVAL | ENFILE | EMFILE | ENOSPC | EPIPE | ERANGE | ENAMETOOLONG | EIDRM
  | ENOSYS | EOVERFLOW | EMSGSIZE | EOPNOTSUPP | ETIMEDOUT

primrec errno_code :: "errno \<Rightarrow> int" where
  "errno_code EPERM = 1"
| "errno_code ENOENT = 2"
| "errno_code ESRCH = 3"
| "errno_code EINTR = 4"
| "errno_code EIO = 5"
| "errno_code ENXIO = 6"
| "errno_code E2BIG = 7"
| "errno_code ENOEXEC = 8"
| "errno_code EBADF = 9"
| "errno_code ECHILD = 10"
| "errno_code EAGAIN = 11"
| "errno_code ENOMEM = 12"
| "errno_code EACCES = 13"
| "errno_code EFAULT = 14"
| "errno_code EBUSY = 16"
| "errno_code EEXIST = 17"
| "errno_code ENODEV = 19"
| "errno_code ENOTDIR = 20"
| "errno_code EISDIR = 21"
| "errno_code EINVAL = 22"
| "errno_code ENFILE = 23"
| "errno_code EMFILE = 24"
| "errno_code ENOSPC = 28"
| "errno_code EPIPE = 32"
| "errno_code ERANGE = 34"
| "errno_code ENAMETOOLONG = 36"
| "errno_code ENOSYS = 38"
| "errno_code EIDRM = 43"
| "errno_code EOVERFLOW = 75"
| "errno_code EMSGSIZE = 90"
| "errno_code EOPNOTSUPP = 95"
| "errno_code ETIMEDOUT = 110"

section \<open>The object store\<close>

type_synonym 'a store = "'a option list"

definition sget :: "'a store \<Rightarrow> nat \<Rightarrow> 'a option" where
  "sget h i = (if i < length h then h ! i else None)"

definition sput :: "'a store \<Rightarrow> nat \<Rightarrow> 'a \<Rightarrow> 'a store" where
  "sput h i v = h[i := Some v]"

definition sfree :: "'a store \<Rightarrow> nat \<Rightarrow> 'a store" where
  "sfree h i = h[i := None]"

definition snew :: "'a store \<Rightarrow> 'a \<Rightarrow> 'a store \<times> nat" where
  "snew h v = (h @ [Some v], length h)"

definition slive :: "'a store \<Rightarrow> nat set" where
  "slive h = {i. sget h i \<noteq> None}"

named_theorems store_simps \<open>reading a store after an update\<close>

lemma sget_sput [store_simps]:
  "sget (sput h i v) j = (if i = j \<and> i < length h then Some v else sget h j)"
  by (auto simp: sget_def sput_def nth_list_update)

lemma sget_sfree [store_simps]:
  "sget (sfree h i) j = (if i = j then None else sget h j)"
  by (auto simp: sget_def sfree_def nth_list_update)

lemma sget_append [store_simps]:
  "sget (h @ [Some v]) j = (if j = length h then Some v else sget h j)"
  by (auto simp: sget_def nth_append)

lemma sget_Some_less: "sget h i = Some v \<Longrightarrow> i < length h"
  by (auto simp: sget_def split: if_splits)

lemma sget_sput_same [simp]: "sget h i = Some w \<Longrightarrow> sget (sput h i v) i = Some v"
  by (simp add: sget_sput sget_Some_less)

lemma sget_sput_other [simp]: "i \<noteq> j \<Longrightarrow> sget (sput h i v) j = sget h j"
  by (simp add: sget_sput)

lemma length_sput [simp]: "length (sput h i v) = length h"
  by (simp add: sput_def)

lemma length_sfree [simp]: "length (sfree h i) = length h"
  by (simp add: sfree_def)

lemma slive_sput [simp]: "sget h i = Some w \<Longrightarrow> slive (sput h i v) = slive h"
  by (auto simp: slive_def sget_sput)

lemma slive_sfree [simp]: "slive (sfree h i) = slive h - {i}"
  by (auto simp: slive_def sget_sfree)

lemma slive_append [simp]: "slive (h @ [Some v]) = insert (length h) (slive h)"
  by (auto simp: slive_def sget_append)

lemma slive_less: "i \<in> slive h \<Longrightarrow> i < length h"
  by (auto simp: slive_def sget_def split: if_splits)

lemma finite_slive [simp]: "finite (slive h)"
  by (rule finite_subset [of _ "{..<length h}"]) (auto dest: slive_less)

lemma length_notin_slive [simp]: "length h \<notin> slive h"
  by (auto dest: slive_less)

lemma card_slive_sfree: "i \<in> slive h \<Longrightarrow> card (slive (sfree h i)) < card (slive h)"
  by (simp only: slive_sfree card_Diff1_less finite_slive)

lemma sget_in_slive: "sget h i = Some v \<Longrightarrow> i \<in> slive h"
  by (simp add: slive_def)

section \<open>Words\<close>

named_theorems bitset_simps \<open>set-like reasoning on words used as bit sets\<close>

definition subword :: "'a::len word \<Rightarrow> 'a word \<Rightarrow> bool" where
  "subword a b \<longleftrightarrow> a AND NOT b = 0"

lemma subword_bits: "subword a b \<longleftrightarrow> (\<forall>n. bit a n \<longrightarrow> bit b n)"
proof
  assume "subword a b"
  then have z: "a AND NOT b = 0" by (simp add: subword_def)
  show "\<forall>n. bit a n \<longrightarrow> bit b n"
  proof (intro allI impI)
    fix n assume an: "bit a n"
    have "\<not> bit (a AND NOT b) n" by (simp add: z)
    with an show "bit b n" by (auto simp: bit_simps dest: bit_imp_le_length)
  qed
next
  assume "\<forall>n. bit a n \<longrightarrow> bit b n"
  then show "subword a b" unfolding subword_def
    by (auto intro!: bit_eqI simp: bit_simps)
qed

lemma subword_refl [simp, intro]: "subword a a"
  by (simp add: subword_bits)

lemma subword_trans: "subword a b \<Longrightarrow> subword b c \<Longrightarrow> subword a c"
  by (simp add: subword_bits)

lemma subword_zero [simp, intro]: "subword 0 b"
  by (simp add: subword_def)

lemma subword_and_left [bitset_simps, intro]: "subword a c \<Longrightarrow> subword (a AND b) c"
  by (simp add: subword_bits bit_simps)

lemma subword_and_right [bitset_simps, intro]: "subword b c \<Longrightarrow> subword (a AND b) c"
  by (simp add: subword_bits bit_simps)

lemma subword_and [bitset_simps]: "subword c (a AND b) \<longleftrightarrow> subword c a \<and> subword c b"
  by (auto simp: subword_bits bit_simps)

lemma subword_or [bitset_simps]: "subword (a OR b) c \<longleftrightarrow> subword a c \<and> subword b c"
  by (auto simp: subword_bits bit_simps)

lemma subword_or_left [intro]: "subword a b \<Longrightarrow> subword a (b OR c)"
  by (simp add: subword_bits bit_simps)

lemma subword_or_right [intro]: "subword a c \<Longrightarrow> subword a (b OR c)"
  by (simp add: subword_bits bit_simps)

lemma subword_and_absorb: "subword a b \<Longrightarrow> a AND b = a"
  by (rule bit_eqI) (auto simp: subword_bits bit_simps)

lemma subword_antisym: "subword a b \<Longrightarrow> subword b a \<Longrightarrow> a = b"
  by (rule bit_eqI) (auto simp: subword_bits)

named_theorems unat_simps \<open>moving word expressions to natural numbers\<close>

lemma unat_ucast_up [unat_simps]:
  "LENGTH('a::len) \<le> LENGTH('b::len) \<Longrightarrow> unat (ucast (w :: 'a word) :: 'b word) = unat w"
  by (simp add: unsigned_ucast_eq take_bit_nat_eq_self_iff order.strict_trans2 [OF unsigned_less])

lemma unat_less: "unat (w :: 'a::len word) < 2 ^ LENGTH('a)"
  by (rule unsigned_less)

lemma unat_and_3 [unat_simps]: "unat (k AND 3 :: u32) = unat k mod 4"
proof -
  have "k AND 3 = take_bit 2 k" by (simp add: take_bit_eq_mask mask_eq_decr_exp)
  then show ?thesis by (simp add: unat_mod take_bit_eq_mod)
qed

end
