(* ===== verification/Capabilities.thy ===== *)
theory Capabilities
  imports Az_Prelude
begin

text \<open>
  Credentials and POSIX.1e capabilities: the capability engine and the pointer
  checks of \<^verbatim>\<open>kernel/security/security.c\<close>, and the system calls of
  \<^verbatim>\<open>kernel/syscall/sys_proc.c\<close> that change a process's credentials or
  capability sets (setuid, setreuid, setresuid, capget, capset, the capability and
  no_new_privs options of prctl, the attributes fork copies). The capability sets are 64-bit
  words used as bit sets. Pointers into user memory are the argument values the
  call receives; what \<^verbatim>\<open>copy_from_user\<close> reads through them is an argument of the
  model (\<open>None\<close> where the copy faults).
\<close>

section \<open>Process credentials\<close>

record process =
  p_pid :: u32
  p_uid :: u32
  p_euid :: u32
  p_suid :: u32
  cap_permitted :: u64
  cap_effective :: u64
  cap_inheritable :: u64
  cap_bounding :: u64
  dumpable :: bool
  no_new_privs :: bool
  seccomp_mode :: u32
  seccomp_filters :: "nat option"

definition CAP_LAST_CAP :: u32 where "CAP_LAST_CAP = 40"
definition CAP_SETUID :: u32 where "CAP_SETUID = 7"
definition CAP_SETPCAP :: u32 where "CAP_SETPCAP = 8"

definition CAP_FULL_SET :: u64 where "CAP_FULL_SET = push_bit 41 1 - 1"

definition CAP_TO_MASK :: "u32 \<Rightarrow> u64" where
  "CAP_TO_MASK c = push_bit (unat c) 1"

abbreviation (input) "SECCOMP_MODE_DISABLED \<equiv> (0 :: u32)"
abbreviation (input) "SECCOMP_MODE_STRICT \<equiv> (1 :: u32)"
abbreviation (input) "SECCOMP_MODE_FILTER \<equiv> (2 :: u32)"

section \<open>The capability engine\<close>

definition security_check_permission :: "process \<Rightarrow> u32 \<Rightarrow> bool" where
  "security_check_permission proc capability =
     (if capability > CAP_LAST_CAP then False
      else if p_pid proc = 0 then True
      else cap_effective proc AND CAP_TO_MASK capability \<noteq> 0)"

definition security_caps_init :: "process \<Rightarrow> bool \<Rightarrow> process" where
  "security_caps_init proc is_first =
     (let full = is_first \<or> p_euid proc = 0
      in proc\<lparr>cap_bounding := CAP_FULL_SET, cap_inheritable := 0,
              cap_permitted := (if full then CAP_FULL_SET else 0),
              cap_effective := (if full then CAP_FULL_SET else 0),
              no_new_privs := False, seccomp_mode := SECCOMP_MODE_DISABLED\<rparr>)"

definition security_caps_on_setuid :: "process \<Rightarrow> process" where
  "security_caps_on_setuid proc =
     (if p_euid proc = 0
      then (let prm = cap_permitted proc OR (CAP_FULL_SET AND cap_bounding proc)
            in proc\<lparr>cap_permitted := prm, cap_effective := prm\<rparr>)
      else (let prm = cap_permitted proc AND cap_bounding proc
            in proc\<lparr>cap_permitted := prm, cap_effective := cap_effective proc AND prm\<rparr>))"

definition security_caps_on_exec :: "process \<Rightarrow> process" where
  "security_caps_on_exec proc =
     (let prm = (if p_euid proc = 0 \<and> \<not> no_new_privs proc
                 then CAP_FULL_SET AND cap_bounding proc
                 else (cap_permitted proc AND (cap_inheritable proc OR cap_permitted proc))
                      AND cap_bounding proc)
      in proc\<lparr>cap_permitted := prm, cap_effective := prm\<rparr>)"

text \<open>The system call numbers a strict-mode process may still issue.\<close>

definition security_seccomp_check :: "process \<Rightarrow> u64 \<Rightarrow> bool" where
  "security_seccomp_check proc nr =
     (if seccomp_mode proc = SECCOMP_MODE_DISABLED then True
      else if seccomp_mode proc = SECCOMP_MODE_STRICT
      then nr = 0 \<or> nr = 1 \<or> nr = 60 \<or> nr = 231 \<or> nr = 15
      else True)"

section \<open>Pointer checks\<close>

definition TASK_SIZE_MAX :: u64 where "TASK_SIZE_MAX = 0x0000800000000000"

definition security_validate_user_ptr :: "u64 \<Rightarrow> u64 \<Rightarrow> u64 \<Rightarrow> bool" where
  "security_validate_user_ptr g_mmap_min_addr addr sz =
     (if addr = 0 then False
      else if addr < g_mmap_min_addr then False
      else if addr \<ge> TASK_SIZE_MAX then False
      else if addr + sz < addr \<or> addr + sz > TASK_SIZE_MAX then False
      else True)"

definition security_validate_kernel_ptr :: "u64 \<Rightarrow> u64 \<Rightarrow> bool" where
  "security_validate_kernel_ptr addr sz =
     (if addr < 0xFFFF800000000000 then False
      else if addr + sz < addr then False
      else True)"

section \<open>System calls on credentials\<close>

definition sys_setuid_impl :: "process \<Rightarrow> u32 \<Rightarrow> process \<times> (errno + unit)" where
  "sys_setuid_impl p new_uid =
     (if no_new_privs p \<and> p_euid p \<noteq> 0 \<and> new_uid = 0 then (p, Inl EPERM)
      else if \<not> security_check_permission p CAP_SETUID \<and> p_euid p \<noteq> 0 \<and>
              new_uid \<noteq> p_uid p \<and> new_uid \<noteq> p_euid p \<and> new_uid \<noteq> p_suid p
      then (p, Inl EPERM)
      else (let p1 = (if p_euid p \<noteq> new_uid then p\<lparr>dumpable := False\<rparr> else p)
            in (security_caps_on_setuid
                  (p1\<lparr>p_uid := new_uid, p_euid := new_uid, p_suid := new_uid\<rparr>), Inr ())))"

text \<open>Whether an unprivileged caller may use \<open>x\<close> as one of its ids: \<open>-1\<close> means unchanged.\<close>

definition id_allowed :: "process \<Rightarrow> u32 \<Rightarrow> bool" where
  "id_allowed p x \<longleftrightarrow> x = -1 \<or> x = p_uid p \<or> x = p_euid p \<or> x = p_suid p"

definition sys_setreuid_impl :: "process \<Rightarrow> u32 \<Rightarrow> u32 \<Rightarrow> process \<times> (errno + unit)" where
  "sys_setreuid_impl p ruid euid =
     (if no_new_privs p \<and> p_euid p \<noteq> 0 \<and> (ruid = 0 \<or> euid = 0) then (p, Inl EPERM)
      else if \<not> security_check_permission p CAP_SETUID \<and> p_euid p \<noteq> 0 \<and>
              \<not> (id_allowed p ruid \<and> id_allowed p euid)
      then (p, Inl EPERM)
      else (let p1 = (if ruid \<noteq> -1 then p\<lparr>p_uid := ruid\<rparr> else p);
                p2 = (if euid \<noteq> -1 \<and> euid \<noteq> p_euid p1 then p1\<lparr>dumpable := False\<rparr> else p1);
                p3 = (if euid \<noteq> -1 then p2\<lparr>p_euid := euid\<rparr> else p2)
            in (security_caps_on_setuid p3, Inr ())))"

definition sys_setresuid_impl ::
    "process \<Rightarrow> u32 \<Rightarrow> u32 \<Rightarrow> u32 \<Rightarrow> process \<times> (errno + unit)" where
  "sys_setresuid_impl p ruid euid suid =
     (if no_new_privs p \<and> p_euid p \<noteq> 0 \<and> (ruid = 0 \<or> euid = 0 \<or> suid = 0)
      then (p, Inl EPERM)
      else if \<not> security_check_permission p CAP_SETUID \<and> p_euid p \<noteq> 0 \<and>
              \<not> (id_allowed p ruid \<and> id_allowed p euid \<and> id_allowed p suid)
      then (p, Inl EPERM)
      else (let p1 = (if ruid \<noteq> -1 then p\<lparr>p_uid := ruid\<rparr> else p);
                p2 = (if euid \<noteq> -1 \<and> euid \<noteq> p_euid p1 then p1\<lparr>dumpable := False\<rparr> else p1);
                p3 = (if euid \<noteq> -1 then p2\<lparr>p_euid := euid\<rparr> else p2);
                p4 = (if suid \<noteq> -1 then p3\<lparr>p_suid := suid\<rparr> else p3)
            in (security_caps_on_setuid p4, Inr ())))"

text \<open>prctl(2): the options that read or change no_new_privs, the bounding set and the
  strict seccomp mode.\<close>

definition prctl_set_no_new_privs :: "process \<Rightarrow> u64 \<Rightarrow> process \<times> (errno + u64)" where
  "prctl_set_no_new_privs p arg2 =
     (if arg2 \<noteq> 1 then (p, Inl EINVAL) else (p\<lparr>no_new_privs := True\<rparr>, Inr 0))"

definition prctl_capbset_read :: "process \<Rightarrow> u64 \<Rightarrow> errno + u64" where
  "prctl_capbset_read p arg2 =
     (if arg2 > ucast CAP_LAST_CAP then Inl EINVAL
      else Inr (if cap_bounding p AND CAP_TO_MASK (ucast arg2) \<noteq> 0 then 1 else 0))"

definition prctl_capbset_drop :: "process \<Rightarrow> u64 \<Rightarrow> process \<times> (errno + u64)" where
  "prctl_capbset_drop p arg2 =
     (if arg2 > ucast CAP_LAST_CAP then (p, Inl EINVAL)
      else if \<not> security_check_permission p CAP_SETPCAP then (p, Inl EPERM)
      else (let b = CAP_TO_MASK (ucast arg2)
            in (p\<lparr>cap_bounding := cap_bounding p AND NOT b,
                  cap_permitted := cap_permitted p AND NOT b,
                  cap_effective := cap_effective p AND NOT b,
                  cap_inheritable := cap_inheritable p AND NOT b\<rparr>, Inr 0)))"

definition prctl_set_seccomp_strict :: "process \<Rightarrow> process \<times> (errno + u64)" where
  "prctl_set_seccomp_strict p =
     (if seccomp_mode p \<noteq> SECCOMP_MODE_DISABLED \<and> seccomp_mode p \<noteq> SECCOMP_MODE_STRICT
      then (p, Inl EINVAL)
      else (p\<lparr>no_new_privs := True, seccomp_mode := SECCOMP_MODE_STRICT\<rparr>, Inr 0))"

text \<open>capget(2) and capset(2). The user structures are the header (version, pid) and two
  words per set, low half first.\<close>

record cap_user_data =
  cu_effective :: u32
  cu_permitted :: u32
  cu_inheritable :: u32

definition LINUX_CAPABILITY_VERSION_3 :: u32 where
  "LINUX_CAPABILITY_VERSION_3 = 0x20080522"

definition join_halves :: "u32 \<Rightarrow> u32 \<Rightarrow> u64" where
  "join_halves hi lo = push_bit 32 (ucast hi) OR ucast lo"

definition cap_user_out :: "process \<Rightarrow> cap_user_data \<times> cap_user_data" where
  "cap_user_out target =
     (\<lparr>cu_effective = ucast (cap_effective target AND 0xFFFFFFFF),
       cu_permitted = ucast (cap_permitted target AND 0xFFFFFFFF),
       cu_inheritable = ucast (cap_inheritable target AND 0xFFFFFFFF)\<rparr>,
      \<lparr>cu_effective = ucast (drop_bit 32 (cap_effective target)),
       cu_permitted = ucast (drop_bit 32 (cap_permitted target)),
       cu_inheritable = ucast (drop_bit 32 (cap_inheritable target))\<rparr>)"

definition sys_capset_impl ::
    "process \<Rightarrow> u64 \<Rightarrow> u64 \<Rightarrow> (u32 \<times> u32) option \<Rightarrow> (cap_user_data \<times> cap_user_data) option
       \<Rightarrow> process \<times> (errno + unit)" where
  "sys_capset_impl proc uhdr udata hdr_in data_in =
     (if uhdr = 0 \<or> udata = 0 then (proc, Inl EFAULT)
      else if uhdr \<ge> TASK_SIZE_MAX \<or> udata \<ge> TASK_SIZE_MAX then (proc, Inl EFAULT)
      else case hdr_in of None \<Rightarrow> (proc, Inl EFAULT)
      | Some (version, hpid) \<Rightarrow>
          if version \<noteq> LINUX_CAPABILITY_VERSION_3 then (proc, Inl EINVAL)
          else if hpid \<noteq> 0 \<and> hpid \<noteq> p_pid proc then (proc, Inl EPERM)
          else (case data_in of None \<Rightarrow> (proc, Inl EFAULT)
            | Some (in0, in1) \<Rightarrow>
                let new_eff = join_halves (cu_effective in1) (cu_effective in0);
                    new_prm = join_halves (cu_permitted in1) (cu_permitted in0);
                    new_inh = join_halves (cu_inheritable in1) (cu_inheritable in0)
                in if (new_eff OR new_prm OR new_inh) AND NOT CAP_FULL_SET \<noteq> 0
                   then (proc, Inl EINVAL)
                   else if new_prm AND NOT (cap_permitted proc) \<noteq> 0 then (proc, Inl EPERM)
                   else if new_eff AND NOT new_prm \<noteq> 0 then (proc, Inl EPERM)
                   else if new_inh AND NOT (cap_bounding proc) \<noteq> 0 then (proc, Inl EPERM)
                   else (proc\<lparr>cap_permitted := new_prm, cap_effective := new_eff,
                              cap_inheritable := new_inh,
                              cap_bounding := cap_bounding proc AND (new_prm OR new_inh)\<rparr>,
                         Inr ())))"

text \<open>The security attributes a forked child receives; \<open>seccomp_filters\<close> is set by
  \<open>seccomp_filters_share\<close> in the theory of the filters.\<close>

definition clone_security_attrs :: "process \<Rightarrow> process \<Rightarrow> process" where
  "clone_security_attrs child parent =
     child\<lparr>cap_permitted := cap_permitted parent, cap_effective := cap_effective parent,
           cap_inheritable := cap_inheritable parent, cap_bounding := cap_bounding parent,
           dumpable := dumpable parent, no_new_privs := no_new_privs parent,
           seccomp_mode := seccomp_mode parent\<rparr>"

section \<open>The state machine of a process's credentials\<close>

text \<open>One step is one call that changes credentials or capability sets. The results of
  \<^verbatim>\<open>copy_from_user\<close> and the arguments are arbitrary.\<close>

inductive cap_step :: "process \<Rightarrow> process \<Rightarrow> bool" where
  step_setuid: "cap_step p (fst (sys_setuid_impl p u))"
| step_setreuid: "cap_step p (fst (sys_setreuid_impl p r e))"
| step_setresuid: "cap_step p (fst (sys_setresuid_impl p r e s))"
| step_capset: "cap_step p (fst (sys_capset_impl p uh ud h d))"
| step_capbset_drop: "cap_step p (fst (prctl_capbset_drop p c))"
| step_no_new_privs: "cap_step p (fst (prctl_set_no_new_privs p a))"
| step_seccomp_strict: "cap_step p (fst (prctl_set_seccomp_strict p))"
| step_exec: "cap_step p (security_caps_on_exec p)"

text \<open>A process starts from \<open>security_caps_init\<close>, or as a fork of another process.\<close>

inductive cap_reachable :: "process \<Rightarrow> bool" where
  reach_init: "cap_reachable (security_caps_init p first)"
| reach_fork: "cap_reachable parent \<Longrightarrow> cap_reachable (clone_security_attrs child parent)"
| reach_step: "cap_reachable p \<Longrightarrow> cap_step p q \<Longrightarrow> cap_reachable q"

definition caps_ok :: "process \<Rightarrow> bool" where
  "caps_ok p \<longleftrightarrow> subword (cap_effective p) (cap_permitted p) \<and>
     subword (cap_permitted p) (cap_bounding p) \<and>
     subword (cap_inheritable p) (cap_bounding p) \<and>
     subword (cap_bounding p) CAP_FULL_SET"

section \<open>Lemmas\<close>

lemmas cap_syscall_defs = sys_setuid_impl_def sys_setreuid_impl_def sys_setresuid_impl_def
  sys_capset_impl_def prctl_capbset_drop_def prctl_set_no_new_privs_def
  prctl_set_seccomp_strict_def

lemmas caps_transition_defs = security_caps_on_setuid_def security_caps_on_exec_def
  security_caps_init_def

lemma and_not_zero_subword: "(a AND NOT b = 0) = subword a b"
  by (simp add: subword_def)

lemma subword_andnot_mono: "subword a b \<Longrightarrow> subword (a AND NOT c) (b AND NOT c)"
  by (simp add: subword_bits bit_simps)

lemma caps_ok_cong:
  "cap_effective q = cap_effective p \<Longrightarrow> cap_permitted q = cap_permitted p \<Longrightarrow>
   cap_inheritable q = cap_inheritable p \<Longrightarrow> cap_bounding q = cap_bounding p \<Longrightarrow>
   caps_ok p \<Longrightarrow> caps_ok q"
  by (simp add: caps_ok_def)

lemma caps_ok_init: "caps_ok (security_caps_init p first)"
  by (simp add: security_caps_init_def caps_ok_def Let_def)

lemma caps_ok_on_setuid: "caps_ok p \<Longrightarrow> caps_ok (security_caps_on_setuid p)"
  by (auto simp: caps_ok_def security_caps_on_setuid_def Let_def bitset_simps
      intro: subword_trans)

lemma caps_ok_on_exec: "caps_ok p \<Longrightarrow> caps_ok (security_caps_on_exec p)"
  by (auto simp: caps_ok_def security_caps_on_exec_def Let_def bitset_simps)

lemma on_setuid_fields [simp]:
  "cap_bounding (security_caps_on_setuid p) = cap_bounding p"
  "cap_inheritable (security_caps_on_setuid p) = cap_inheritable p"
  "no_new_privs (security_caps_on_setuid p) = no_new_privs p"
  "seccomp_mode (security_caps_on_setuid p) = seccomp_mode p"
  "seccomp_filters (security_caps_on_setuid p) = seccomp_filters p"
  "p_euid (security_caps_on_setuid p) = p_euid p"
  by (simp_all add: security_caps_on_setuid_def Let_def)

lemma on_exec_fields [simp]:
  "cap_bounding (security_caps_on_exec p) = cap_bounding p"
  "cap_inheritable (security_caps_on_exec p) = cap_inheritable p"
  "no_new_privs (security_caps_on_exec p) = no_new_privs p"
  "seccomp_mode (security_caps_on_exec p) = seccomp_mode p"
  "p_euid (security_caps_on_exec p) = p_euid p"
  by (simp_all add: security_caps_on_exec_def Let_def)

lemma on_setuid_nonroot_permitted:
  "p_euid p \<noteq> 0 \<Longrightarrow> subword (cap_permitted (security_caps_on_setuid p)) (cap_permitted p)"
  by (auto simp: security_caps_on_setuid_def Let_def)

lemma on_exec_nnp_permitted:
  "no_new_privs p \<Longrightarrow> subword (cap_permitted (security_caps_on_exec p)) (cap_permitted p)"
  by (auto simp: security_caps_on_exec_def Let_def)

lemma caps_ok_setuid: "caps_ok p \<Longrightarrow> caps_ok (fst (sys_setuid_impl p u))"
  by (auto simp: sys_setuid_impl_def Let_def intro!: caps_ok_on_setuid elim: caps_ok_cong [rotated -1])

lemma caps_ok_setreuid: "caps_ok p \<Longrightarrow> caps_ok (fst (sys_setreuid_impl p r e))"
  by (auto simp: sys_setreuid_impl_def Let_def intro!: caps_ok_on_setuid elim: caps_ok_cong [rotated -1])

lemma caps_ok_setresuid: "caps_ok p \<Longrightarrow> caps_ok (fst (sys_setresuid_impl p r e s))"
  by (auto simp: sys_setresuid_impl_def Let_def intro!: caps_ok_on_setuid elim: caps_ok_cong [rotated -1])

lemma caps_ok_capset: "caps_ok p \<Longrightarrow> caps_ok (fst (sys_capset_impl p uh ud h d))"
  by (auto simp: sys_capset_impl_def Let_def caps_ok_def bitset_simps and_not_zero_subword
      split: option.splits intro: subword_trans)

lemma caps_ok_capbset_drop: "caps_ok p \<Longrightarrow> caps_ok (fst (prctl_capbset_drop p c))"
  by (auto simp: prctl_capbset_drop_def Let_def caps_ok_def subword_andnot_mono bitset_simps)

lemma caps_ok_step: "cap_step p q \<Longrightarrow> caps_ok p \<Longrightarrow> caps_ok q"
proof (induction rule: cap_step.induct)
  case (step_no_new_privs p a)
  then show ?case by (auto simp: prctl_set_no_new_privs_def caps_ok_def)
next
  case (step_seccomp_strict p)
  then show ?case by (auto simp: prctl_set_seccomp_strict_def caps_ok_def)
qed (simp_all add: caps_ok_setuid caps_ok_setreuid caps_ok_setresuid caps_ok_capset
      caps_ok_capbset_drop caps_ok_on_exec)

lemma step_bounding_antitone: "cap_step p q \<Longrightarrow> subword (cap_bounding q) (cap_bounding p)"
  by (induction rule: cap_step.induct)
    (auto simp: cap_syscall_defs Let_def split: option.splits)

lemma step_nnp_sticky: "cap_step p q \<Longrightarrow> no_new_privs p \<Longrightarrow> no_new_privs q"
  by (induction rule: cap_step.induct)
    (auto simp: cap_syscall_defs Let_def split: option.splits)

lemma step_confined:
  "cap_step p q \<Longrightarrow> no_new_privs p \<Longrightarrow> p_euid p \<noteq> 0 \<Longrightarrow>
   p_euid q \<noteq> 0 \<and> subword (cap_permitted q) (cap_permitted p)"
proof (induction rule: cap_step.induct)
  case (step_setuid p u)
  then show ?case
    by (auto simp: sys_setuid_impl_def Let_def security_caps_on_setuid_def)
next
  case (step_setreuid p r e)
  then show ?case
    by (auto simp: sys_setreuid_impl_def Let_def security_caps_on_setuid_def)
next
  case (step_setresuid p r e s)
  then show ?case
    by (auto simp: sys_setresuid_impl_def Let_def security_caps_on_setuid_def)
next
  case (step_capset p uh ud h d)
  then show ?case
    by (auto simp: sys_capset_impl_def Let_def and_not_zero_subword split: option.splits)
next
  case (step_exec p)
  then show ?case by (simp add: on_exec_nnp_permitted)
qed (auto simp: cap_syscall_defs Let_def)

lemma user_ptr_sum_nowrap:
  assumes "a \<le> a + (s :: u64)"
  shows "unat (a + s) = unat a + unat s"
  using assms unat_plus_simple by blast

lemma join_halves_split:
  "join_halves (ucast (drop_bit 32 w)) (ucast (w AND 0xFFFFFFFF)) = w"
proof (rule bit_eqI)
  fix n assume n: "possible_bit TYPE(64 word) n"
  have m: "(0xFFFFFFFF :: u64) = mask 32" by (simp add: mask_eq_decr_exp)
  show "bit (join_halves (ucast (drop_bit 32 w)) (ucast (w AND 0xFFFFFFFF))) n = bit w n"
    using n by (cases "n < 32") (auto simp: join_halves_def m bit_simps)
qed

section \<open>Properties\<close>

text \<open>C6: in every state a process can reach from its creation through fork, exec and
  the credential system calls, the effective set is within the permitted set, the
  permitted and inheritable sets are within the bounding set, and no undefined
  capability bit is set.\<close>

theorem caps_invariant: "cap_reachable p \<Longrightarrow> caps_ok p"
proof (induction rule: cap_reachable.induct)
  case (reach_init p first)
  show ?case by (rule caps_ok_init)
next
  case (reach_fork parent child)
  then show ?case by (simp add: caps_ok_def clone_security_attrs_def)
next
  case (reach_step p q)
  then show ?case by (blast intro: caps_ok_step)
qed

definition example_process :: process where
  "example_process = \<lparr>p_pid = 7, p_uid = 0, p_euid = 0, p_suid = 0, cap_permitted = 0,
     cap_effective = 0, cap_inheritable = 0, cap_bounding = 0, dumpable = True,
     no_new_privs = False, seccomp_mode = 0, seccomp_filters = None\<rparr>"

theorem caps_invariant_witness:
  "caps_ok (fst (prctl_capbset_drop (security_caps_init example_process False) 21))"
  by (rule caps_invariant [OF reach_step [OF reach_init step_capbset_drop]])

text \<open>C13: once no_new_privs is set on a process whose effective uid is not root, no
  sequence of credential calls and execs makes it root again or adds a single bit to
  its permitted set; the flag stays set and the bounding set never grows.\<close>

theorem no_new_privs_confines:
  assumes "cap_step\<^sup>*\<^sup>* p q" and "no_new_privs p" and "p_euid p \<noteq> 0"
  shows "no_new_privs q \<and> p_euid q \<noteq> 0 \<and> subword (cap_permitted q) (cap_permitted p) \<and>
         subword (cap_bounding q) (cap_bounding p)"
  using assms
proof (induction rule: rtranclp_induct)
  case base
  then show ?case by simp
next
  case (step q r)
  then show ?case
    by (meson step_bounding_antitone step_confined step_nnp_sticky subword_trans)
qed

definition confined_process :: process where
  "confined_process = example_process\<lparr>p_uid := 1000, p_euid := 1000, cap_permitted := 6,
     cap_effective := 2, cap_bounding := CAP_FULL_SET, no_new_privs := True\<rparr>"

theorem no_new_privs_confines_witness:
  "p_euid (security_caps_on_exec (fst (sys_setuid_impl confined_process 0))) \<noteq> 0 \<and>
   subword (cap_permitted (security_caps_on_exec (fst (sys_setuid_impl confined_process 0)))) 6"
proof -
  let ?q = "security_caps_on_exec (fst (sys_setuid_impl confined_process 0))"
  have "cap_step confined_process (fst (sys_setuid_impl confined_process 0))"
    by (rule step_setuid)
  moreover have "cap_step (fst (sys_setuid_impl confined_process 0)) ?q"
    by (rule step_exec)
  ultimately have r: "cap_step\<^sup>*\<^sup>* confined_process ?q"
    by (blast intro: rtranclp.rtrancl_into_rtrancl)
  show ?thesis
    using no_new_privs_confines [OF r]
    by (simp add: confined_process_def example_process_def)
qed

text \<open>C18: a root process that calls setuid with an ordinary uid keeps its whole
  permitted and effective sets, and a following exec makes the whole permitted set
  effective again: leaving uid 0 takes no capability away.\<close>

theorem setuid_from_root_keeps_capabilities:
  assumes "caps_ok p" and "p_euid p = 0" and "u \<noteq> 0"
  shows "snd (sys_setuid_impl p u) = Inr () \<and> p_euid (fst (sys_setuid_impl p u)) = u \<and>
         cap_permitted (fst (sys_setuid_impl p u)) = cap_permitted p \<and>
         cap_effective (fst (sys_setuid_impl p u)) = cap_effective p \<and>
         cap_effective (security_caps_on_exec (fst (sys_setuid_impl p u))) = cap_permitted p"
proof -
  have "cap_permitted p AND cap_bounding p = cap_permitted p"
    and "cap_effective p AND cap_permitted p = cap_effective p"
    using assms(1) by (auto simp: caps_ok_def subword_and_absorb)
  then show ?thesis
    using assms(2,3)
    by (simp add: sys_setuid_impl_def security_caps_on_setuid_def security_caps_on_exec_def
        Let_def)
qed

theorem setuid_from_root_keeps_capabilities_witness:
  "cap_effective (security_caps_on_exec
     (fst (sys_setuid_impl (security_caps_init example_process True) 1000))) = CAP_FULL_SET \<and>
   p_euid (fst (sys_setuid_impl (security_caps_init example_process True) 1000)) = 1000"
  using setuid_from_root_keeps_capabilities
    [of "security_caps_init example_process True" 1000, OF caps_ok_init]
  by (simp add: security_caps_init_def example_process_def Let_def)

text \<open>C19: a user pointer is accepted exactly when the byte range it names, read as
  natural numbers, starts at or above the mmap minimum, is not null and ends at or
  below the top of user space: the wrap-around of the addition never admits a range.\<close>

theorem validate_user_ptr_iff:
  "security_validate_user_ptr m a s \<longleftrightarrow>
     a \<noteq> 0 \<and> unat m \<le> unat a \<and> unat a < unat TASK_SIZE_MAX \<and>
     unat a + unat s \<le> unat TASK_SIZE_MAX"
proof (cases "a \<le> a + s")
  case True
  then have "unat (a + s) = unat a + unat s" by (rule user_ptr_sum_nowrap)
  with True show ?thesis
    by (auto simp: security_validate_user_ptr_def word_less_nat_alt word_le_nat_alt not_le not_less)
next
  case False
  then have "\<not> unat a + unat s < 2 ^ 64"
    by (simp add: no_olen_add_nat)
  then have "\<not> unat a + unat s \<le> unat TASK_SIZE_MAX"
    by (simp add: TASK_SIZE_MAX_def)
  with False show ?thesis
    by (simp add: security_validate_user_ptr_def not_le)
qed

text \<open>C20: passing what capget reports back to capset succeeds and leaves the
  permitted, effective and inheritable sets exactly as they were.\<close>

theorem capset_capget_roundtrip:
  assumes "caps_ok p" and "uhdr \<noteq> 0" and "udata \<noteq> 0" and "uhdr < TASK_SIZE_MAX"
    and "udata < TASK_SIZE_MAX"
  shows "\<exists>q. sys_capset_impl p uhdr udata (Some (LINUX_CAPABILITY_VERSION_3, 0))
               (Some (cap_user_out p)) = (q, Inr ()) \<and>
             cap_permitted q = cap_permitted p \<and> cap_effective q = cap_effective p \<and>
             cap_inheritable q = cap_inheritable p"
proof -
  have "subword (cap_effective p OR cap_permitted p OR cap_inheritable p) CAP_FULL_SET"
    and "subword (cap_permitted p) (cap_permitted p)"
    and "subword (cap_effective p) (cap_permitted p)"
    and "subword (cap_inheritable p) (cap_bounding p)"
    using assms(1) by (auto simp: caps_ok_def bitset_simps intro: subword_trans)
  then show ?thesis
    using assms(2-5)
    by (simp add: sys_capset_impl_def cap_user_out_def join_halves_split Let_def
        and_not_zero_subword not_le)
qed

theorem capset_capget_roundtrip_witness:
  "\<exists>q. sys_capset_impl (security_caps_init example_process True) 4096 8192
         (Some (LINUX_CAPABILITY_VERSION_3, 0))
         (Some (cap_user_out (security_caps_init example_process True))) = (q, Inr ()) \<and>
       cap_permitted q = CAP_FULL_SET"
  using capset_capget_roundtrip
    [of "security_caps_init example_process True" 4096 8192, OF caps_ok_init]
  by (auto simp: TASK_SIZE_MAX_def security_caps_init_def Let_def)

end
