(* ===== verification/Seccomp.thy ===== *)
theory Seccomp
  imports Capabilities "HOL-Library.Monad_Syntax"
begin

text \<open>
  Syscall filtering: the classic-BPF validator and interpreter, the
  reference-counted filter chains and the walk over a process's chain, from
  \<^verbatim>\<open>kernel/security/seccomp.c\<close>; the seccomp system call
  (\<^verbatim>\<open>kernel/syscall/sys_misc.c\<close>) and the gate in the system call dispatcher that
  acts on the verdict (\<^verbatim>\<open>kernel/syscall/syscall.c\<close>).

  The interpreter loop may run forever, so it is a partial function: \<open>None\<close> is
  "does not return". An access outside the program, the scratch memory or the data
  record is the result \<open>BpfOob\<close>. Filters live in a store; a chain is followed through
  the \<open>flt_prev\<close> links.
\<close>

section \<open>Programs and data\<close>

record sock_filter =
  sf_code :: u16
  sf_jt :: u8
  sf_jf :: u8
  sf_k :: u32

record seccomp_data =
  sd_nr :: u32
  sd_arch :: u32
  sd_ip :: u64
  sd_args :: "u64 list"

definition BPF_MAXINSNS :: nat where "BPF_MAXINSNS = 4096"
definition BPF_SCRATCH_MEMWORDS :: nat where "BPF_SCRATCH_MEMWORDS = 16"

definition BPF_CLASS :: "u16 \<Rightarrow> u16" where "BPF_CLASS code = code AND 0x07"
definition BPF_MODE :: "u16 \<Rightarrow> u16" where "BPF_MODE code = code AND 0xe0"
definition BPF_OP :: "u16 \<Rightarrow> u16" where "BPF_OP code = code AND 0xf0"
definition BPF_SRC :: "u16 \<Rightarrow> u16" where "BPF_SRC code = code AND 0x08"
definition BPF_RVAL :: "u16 \<Rightarrow> u16" where "BPF_RVAL code = code AND 0x18"
definition BPF_MISCOP :: "u16 \<Rightarrow> u16" where "BPF_MISCOP code = code AND 0xf8"

lemmas bpf_field_defs = BPF_CLASS_def BPF_MODE_def BPF_OP_def BPF_SRC_def BPF_RVAL_def
  BPF_MISCOP_def

abbreviation (input) "BPF_LD \<equiv> (0x00 :: u16)"
abbreviation (input) "BPF_LDX \<equiv> (0x01 :: u16)"
abbreviation (input) "BPF_ALU \<equiv> (0x04 :: u16)"
abbreviation (input) "BPF_JMP \<equiv> (0x05 :: u16)"
abbreviation (input) "BPF_RET \<equiv> (0x06 :: u16)"
abbreviation (input) "BPF_MISC \<equiv> (0x07 :: u16)"
abbreviation (input) "BPF_IMM \<equiv> (0x00 :: u16)"
abbreviation (input) "BPF_ABS \<equiv> (0x20 :: u16)"
abbreviation (input) "BPF_MEM \<equiv> (0x60 :: u16)"
abbreviation (input) "BPF_ADD \<equiv> (0x00 :: u16)"
abbreviation (input) "BPF_SUB \<equiv> (0x10 :: u16)"
abbreviation (input) "BPF_MUL \<equiv> (0x20 :: u16)"
abbreviation (input) "BPF_DIV \<equiv> (0x30 :: u16)"
abbreviation (input) "BPF_OR \<equiv> (0x40 :: u16)"
abbreviation (input) "BPF_AND \<equiv> (0x50 :: u16)"
abbreviation (input) "BPF_LSH \<equiv> (0x60 :: u16)"
abbreviation (input) "BPF_RSH \<equiv> (0x70 :: u16)"
abbreviation (input) "BPF_NEG \<equiv> (0x80 :: u16)"
abbreviation (input) "BPF_MOD \<equiv> (0x90 :: u16)"
abbreviation (input) "BPF_XOR \<equiv> (0xa0 :: u16)"
abbreviation (input) "BPF_JA \<equiv> (0x00 :: u16)"
abbreviation (input) "BPF_JEQ \<equiv> (0x10 :: u16)"
abbreviation (input) "BPF_JGT \<equiv> (0x20 :: u16)"
abbreviation (input) "BPF_JGE \<equiv> (0x30 :: u16)"
abbreviation (input) "BPF_JSET \<equiv> (0x40 :: u16)"
abbreviation (input) "BPF_K \<equiv> (0x00 :: u16)"
abbreviation (input) "BPF_X \<equiv> (0x08 :: u16)"
abbreviation (input) "BPF_A \<equiv> (0x10 :: u16)"
abbreviation (input) "BPF_TAX \<equiv> (0x00 :: u16)"
abbreviation (input) "BPF_TXA \<equiv> (0x80 :: u16)"

text \<open>The 64 bytes of \<^verbatim>\<open>struct seccomp_data\<close> in memory, little-endian.\<close>

definition le_bytes :: "nat \<Rightarrow> 'a::len word \<Rightarrow> u8 list" where
  "le_bytes n w = map (\<lambda>i. ucast (drop_bit (8 * i) w)) [0..<n]"

definition sd_bytes :: "seccomp_data \<Rightarrow> u8 list" where
  "sd_bytes sd = le_bytes 4 (sd_nr sd) @ le_bytes 4 (sd_arch sd) @ le_bytes 8 (sd_ip sd)
     @ concat (map (le_bytes 8) (sd_args sd))"

definition bpf_load_abs :: "seccomp_data \<Rightarrow> u32 \<Rightarrow> u32 option" where
  "bpf_load_abs sd k =
     (let b = sd_bytes sd; n = unat k
      in if n + 4 \<le> length b
         then Some (ucast (b ! n) OR push_bit 8 (ucast (b ! (n + 1)))
                    OR push_bit 16 (ucast (b ! (n + 2))) OR push_bit 24 (ucast (b ! (n + 3))))
         else None)"

definition bpf_offset_valid :: "u32 \<Rightarrow> bool" where
  "bpf_offset_valid k \<longleftrightarrow> k < 64 \<and> k AND 3 = 0"

section \<open>The validator\<close>

text \<open>The checks the validator's loop makes on the instruction at \<open>pc\<close>.\<close>

definition bpf_insn_ok :: "sock_filter list \<Rightarrow> u16 \<Rightarrow> nat \<Rightarrow> bool" where
  "bpf_insn_ok insns len pc =
     (let ins = insns ! pc; code = sf_code ins; cls = BPF_CLASS code; op = BPF_OP code
      in if cls = BPF_LD then
           (if BPF_MODE code = BPF_ABS then bpf_offset_valid (sf_k ins)
            else if BPF_MODE code = BPF_IMM then True
            else if BPF_MODE code = BPF_MEM then unat (sf_k ins) < BPF_SCRATCH_MEMWORDS
            else False)
         else if cls = BPF_LDX then
           (if BPF_MODE code = BPF_IMM then True
            else if BPF_MODE code = BPF_MEM then unat (sf_k ins) < BPF_SCRATCH_MEMWORDS
            else False)
         else if cls = BPF_ALU then
           op \<in> {BPF_ADD, BPF_SUB, BPF_MUL, BPF_DIV, BPF_OR, BPF_AND, BPF_LSH, BPF_RSH,
                  BPF_NEG, BPF_MOD, BPF_XOR}
         else if cls = BPF_JMP then
           (if op = BPF_JA then word_of_nat pc + 1 + sf_k ins < ucast len
            else if op = BPF_JEQ \<or> op = BPF_JGT \<or> op = BPF_JGE \<or> op = BPF_JSET
            then (word_of_nat pc + 1 + ucast (sf_jt ins) :: u32) < ucast len \<and>
                 (word_of_nat pc + 1 + ucast (sf_jf ins) :: u32) < ucast len
            else False)
         else if cls = BPF_RET then BPF_RVAL code = BPF_K \<or> BPF_RVAL code = BPF_A
         else if cls = BPF_MISC then BPF_MISCOP code = BPF_TAX \<or> BPF_MISCOP code = BPF_TXA
         else False)"

definition bpf_validate :: "sock_filter list \<Rightarrow> u16 \<Rightarrow> bool" where
  "bpf_validate insns len =
     (if len = 0 \<or> unat len > BPF_MAXINSNS then False
      else if \<not> list_all (bpf_insn_ok insns len) [0..<unat len] then False
      else BPF_CLASS (sf_code (insns ! (unat len - 1))) = BPF_RET)"

section \<open>The interpreter\<close>

record bpf_state =
  bpf_pc :: u32
  bpf_A :: u32
  bpf_X :: u32
  bpf_mem :: "u32 list"

datatype bpf_result = BpfRet u32 | BpfOob

datatype bpf_next = Go bpf_state | Stop bpf_result

abbreviation (input) "SECCOMP_RET_KILL_PROCESS \<equiv> (0x80000000 :: u32)"
abbreviation (input) "SECCOMP_RET_KILL_THREAD \<equiv> (0x00000000 :: u32)"
abbreviation (input) "SECCOMP_RET_TRAP \<equiv> (0x00030000 :: u32)"
abbreviation (input) "SECCOMP_RET_ERRNO \<equiv> (0x00050000 :: u32)"
abbreviation (input) "SECCOMP_RET_TRACE \<equiv> (0x7ff00000 :: u32)"
abbreviation (input) "SECCOMP_RET_LOG \<equiv> (0x7ffc0000 :: u32)"
abbreviation (input) "SECCOMP_RET_ALLOW \<equiv> (0x7fff0000 :: u32)"
abbreviation (input) "SECCOMP_RET_ACTION_FULL \<equiv> (0xffff0000 :: u32)"
abbreviation (input) "SECCOMP_RET_DATA \<equiv> (0x0000ffff :: u32)"

definition bpf_advance :: "bpf_state \<Rightarrow> bpf_next" where
  "bpf_advance st = Go (st\<lparr>bpf_pc := bpf_pc st + 1\<rparr>)"

definition bpf_mem_read :: "bpf_state \<Rightarrow> u32 \<Rightarrow> u32 option" where
  "bpf_mem_read st k = (if unat k < length (bpf_mem st) then Some (bpf_mem st ! unat k) else None)"

definition bpf_alu :: "u16 \<Rightarrow> u32 \<Rightarrow> u32 \<Rightarrow> u32" where
  "bpf_alu op a operand =
     (if op = BPF_ADD then a + operand
      else if op = BPF_SUB then a - operand
      else if op = BPF_MUL then a * operand
      else if op = BPF_DIV then (if operand \<noteq> 0 then a div operand else 0)
      else if op = BPF_MOD then (if operand \<noteq> 0 then a mod operand else 0)
      else if op = BPF_OR then a OR operand
      else if op = BPF_AND then a AND operand
      else if op = BPF_XOR then a XOR operand
      else if op = BPF_LSH then push_bit (unat (operand AND 31)) a
      else if op = BPF_RSH then drop_bit (unat (operand AND 31)) a
      else if op = BPF_NEG then - a
      else a)"

definition bpf_taken :: "u16 \<Rightarrow> u32 \<Rightarrow> u32 \<Rightarrow> bool" where
  "bpf_taken op a operand =
     (if op = BPF_JEQ then a = operand
      else if op = BPF_JGT then a > operand
      else if op = BPF_JGE then a \<ge> operand
      else if op = BPF_JSET then a AND operand \<noteq> 0
      else False)"

definition bpf_step :: "sock_filter \<Rightarrow> seccomp_data \<Rightarrow> bpf_state \<Rightarrow> bpf_next" where
  "bpf_step ins sd st =
     (let code = sf_code ins; cls = BPF_CLASS code; k = sf_k ins;
          operand = (if BPF_SRC code = BPF_X then bpf_X st else k)
      in if cls = BPF_LD then
           (if BPF_MODE code = BPF_ABS then
              (case bpf_load_abs sd k of None \<Rightarrow> Stop BpfOob
               | Some w \<Rightarrow> bpf_advance (st\<lparr>bpf_A := w\<rparr>))
            else if BPF_MODE code = BPF_IMM then bpf_advance (st\<lparr>bpf_A := k\<rparr>)
            else if BPF_MODE code = BPF_MEM then
              (case bpf_mem_read st k of None \<Rightarrow> Stop BpfOob
               | Some w \<Rightarrow> bpf_advance (st\<lparr>bpf_A := w\<rparr>))
            else bpf_advance st)
         else if cls = BPF_LDX then
           (if BPF_MODE code = BPF_IMM then bpf_advance (st\<lparr>bpf_X := k\<rparr>)
            else if BPF_MODE code = BPF_MEM then
              (case bpf_mem_read st k of None \<Rightarrow> Stop BpfOob
               | Some w \<Rightarrow> bpf_advance (st\<lparr>bpf_X := w\<rparr>))
            else bpf_advance st)
         else if cls = BPF_ALU then
           bpf_advance (st\<lparr>bpf_A := bpf_alu (BPF_OP code) (bpf_A st) operand\<rparr>)
         else if cls = BPF_JMP then
           (if BPF_OP code = BPF_JA then Go (st\<lparr>bpf_pc := bpf_pc st + (1 + k)\<rparr>)
            else Go (st\<lparr>bpf_pc := bpf_pc st +
                        (1 + (if bpf_taken (BPF_OP code) (bpf_A st) operand
                              then ucast (sf_jt ins) else ucast (sf_jf ins)))\<rparr>))
         else if cls = BPF_RET then
           Stop (BpfRet (if BPF_RVAL code = BPF_A then bpf_A st else k))
         else if cls = BPF_MISC then
           (if BPF_MISCOP code = BPF_TAX then bpf_advance (st\<lparr>bpf_X := bpf_A st\<rparr>)
            else bpf_advance (st\<lparr>bpf_A := bpf_X st\<rparr>))
         else Stop (BpfRet SECCOMP_RET_KILL_PROCESS))"

partial_function (option) bpf_loop ::
    "sock_filter list \<Rightarrow> u16 \<Rightarrow> seccomp_data \<Rightarrow> bpf_state \<Rightarrow> bpf_result option" where
  "bpf_loop insns len sd st =
     (if bpf_pc st < ucast len then
        (if unat (bpf_pc st) < length insns then
           (case bpf_step (insns ! unat (bpf_pc st)) sd st of
              Stop r \<Rightarrow> Some r
            | Go st' \<Rightarrow> bpf_loop insns len sd st')
         else Some BpfOob)
      else Some (BpfRet SECCOMP_RET_KILL_PROCESS))"

definition bpf_run :: "sock_filter list \<Rightarrow> u16 \<Rightarrow> seccomp_data \<Rightarrow> bpf_result option" where
  "bpf_run insns len sd =
     bpf_loop insns len sd
       \<lparr>bpf_pc = 0, bpf_A = 0, bpf_X = 0, bpf_mem = replicate BPF_SCRATCH_MEMWORDS 0\<rparr>"

section \<open>Filter chains\<close>

record seccomp_filter =
  flt_prev :: "nat option"
  flt_refcount :: u32
  flt_len :: u16
  flt_insns :: "sock_filter list"

record seccomp_world =
  sw_filters :: "seccomp_filter store"
  sw_procs :: "process store"

text \<open>
  Attaching a filter. \<open>ufprog\<close> is the user pointer, \<open>prog_in\<close> the header
  \<^verbatim>\<open>copy_from_user\<close> reads through it (length and pointer to the instructions),
  \<open>uinsns\<close> the user memory the instructions are read from and \<open>kmalloc_ok\<close> whether the
  allocation succeeds.
\<close>

definition seccomp_attach_filter ::
    "seccomp_world \<Rightarrow> nat \<Rightarrow> u64 \<Rightarrow> (u16 \<times> u64) option \<Rightarrow> bool \<Rightarrow> (nat \<Rightarrow> sock_filter option)
       \<Rightarrow> seccomp_world \<times> (errno + unit)" where
  "seccomp_attach_filter w pi ufprog prog_in kmalloc_ok uinsns =
     (case sget (sw_procs w) pi of None \<Rightarrow> (w, Inl EFAULT)
      | Some proc \<Rightarrow>
        if ufprog = 0 then (w, Inl EFAULT)
        else (case prog_in of None \<Rightarrow> (w, Inl EFAULT)
          | Some (plen, pfilter) \<Rightarrow>
            if plen = 0 \<or> unat plen > BPF_MAXINSNS \<or> pfilter = 0 then (w, Inl EINVAL)
            else if \<not> kmalloc_ok then (w, Inl ENOMEM)
            else (case those (map uinsns [0..<unat plen]) of None \<Rightarrow> (w, Inl EFAULT)
              | Some insns \<Rightarrow>
                if \<not> bpf_validate insns plen then (w, Inl EINVAL)
                else (let (h, n) = snew (sw_filters w)
                            \<lparr>flt_prev = seccomp_filters proc, flt_refcount = 1,
                             flt_len = plen, flt_insns = insns\<rparr>;
                          proc' = proc\<lparr>seccomp_filters := Some n, no_new_privs := True,
                                       seccomp_mode := SECCOMP_MODE_FILTER\<rparr>
                      in (w\<lparr>sw_filters := h, sw_procs := sput (sw_procs w) pi proc'\<rparr>,
                          Inr ())))))"

text \<open>seccomp(2): strict mode, attaching a filter, and the query whether an action is
  available, whose argument \<open>act_in\<close> is read from user memory.\<close>

definition sys_seccomp_impl ::
    "seccomp_world \<Rightarrow> nat \<Rightarrow> u32 \<Rightarrow> u32 \<Rightarrow> u64 \<Rightarrow> (u16 \<times> u64) option \<Rightarrow> bool
       \<Rightarrow> (nat \<Rightarrow> sock_filter option) \<Rightarrow> u32 option \<Rightarrow> seccomp_world \<times> (errno + unit)" where
  "sys_seccomp_impl w pi op fl rdx prog_in kmalloc_ok uinsns act_in =
     (case sget (sw_procs w) pi of None \<Rightarrow> (w, Inl EPERM)
      | Some p \<Rightarrow>
        if op = 0 then
          (if fl \<noteq> 0 \<or> rdx \<noteq> 0 then (w, Inl EINVAL)
           else if seccomp_mode p \<noteq> SECCOMP_MODE_DISABLED \<and>
                   seccomp_mode p \<noteq> SECCOMP_MODE_STRICT then (w, Inl EINVAL)
           else (w\<lparr>sw_procs := sput (sw_procs w) pi
                     (p\<lparr>no_new_privs := True, seccomp_mode := SECCOMP_MODE_STRICT\<rparr>)\<rparr>, Inr ()))
        else if op = 1 then
          (if fl \<noteq> 0 then (w, Inl EINVAL)
           else if seccomp_mode p \<noteq> SECCOMP_MODE_DISABLED \<and>
                   seccomp_mode p \<noteq> SECCOMP_MODE_FILTER then (w, Inl EINVAL)
           else seccomp_attach_filter w pi rdx prog_in kmalloc_ok uinsns)
        else if op = 2 then
          (if fl \<noteq> 0 then (w, Inl EINVAL)
           else (case act_in of None \<Rightarrow> (w, Inl EFAULT)
             | Some act \<Rightarrow>
                 if act \<in> {SECCOMP_RET_KILL_THREAD, SECCOMP_RET_KILL_PROCESS, SECCOMP_RET_TRAP,
                           SECCOMP_RET_ERRNO, SECCOMP_RET_LOG, SECCOMP_RET_ALLOW}
                 then (w, Inr ()) else (w, Inl EOPNOTSUPP)))
        else (w, Inl EINVAL))"

text \<open>fork: the child points at the parent's chain. \<open>None\<close> is a dereference of a filter
  that has been freed.\<close>

definition seccomp_filters_share ::
    "seccomp_world \<Rightarrow> nat \<Rightarrow> nat \<Rightarrow> seccomp_world option" where
  "seccomp_filters_share w child parent =
     (case (sget (sw_procs w) child, sget (sw_procs w) parent) of
        (Some c, Some p) \<Rightarrow>
          (let procs' = sput (sw_procs w) child (c\<lparr>seccomp_filters := seccomp_filters p\<rparr>)
           in case seccomp_filters p of
                None \<Rightarrow> Some (w\<lparr>sw_procs := procs'\<rparr>)
              | Some n \<Rightarrow>
                  (case sget (sw_filters w) n of None \<Rightarrow> None
                   | Some f \<Rightarrow> Some (w\<lparr>sw_procs := procs',
                       sw_filters := sput (sw_filters w) n
                         (f\<lparr>flt_refcount := flt_refcount f + 1\<rparr>)\<rparr>)))
      | _ \<Rightarrow> Some w)"

function seccomp_put_loop ::
    "seccomp_filter store \<Rightarrow> nat option \<Rightarrow> seccomp_filter store option" where
  "seccomp_put_loop h None = Some h"
| "seccomp_put_loop h (Some n) =
     (case sget h n of None \<Rightarrow> None
      | Some f \<Rightarrow>
          if flt_refcount f - 1 \<noteq> 0 then Some (sput h n (f\<lparr>flt_refcount := flt_refcount f - 1\<rparr>))
          else seccomp_put_loop (sfree h n) (flt_prev f))"
  by pat_completeness auto
termination
  by (relation "measure (\<lambda>(h, n). card (slive h))")
    (auto simp only: in_measure prod.case intro!: card_slive_sfree sget_in_slive wf_measure)

definition seccomp_filters_put :: "seccomp_world \<Rightarrow> nat \<Rightarrow> seccomp_world option" where
  "seccomp_filters_put w pi =
     (case sget (sw_procs w) pi of None \<Rightarrow> Some w
      | Some p \<Rightarrow>
          (case seccomp_put_loop (sw_filters w) (seccomp_filters p) of None \<Rightarrow> None
           | Some h \<Rightarrow> Some (w\<lparr>sw_filters := h,
               sw_procs := sput (sw_procs w) pi (p\<lparr>seccomp_filters := None\<rparr>)\<rparr>)))"

section \<open>Running the chain\<close>

definition seccomp_action_rank :: "u32 \<Rightarrow> nat" where
  "seccomp_action_rank action =
     (let a = action AND SECCOMP_RET_ACTION_FULL
      in if a = SECCOMP_RET_KILL_PROCESS then 0
         else if a = SECCOMP_RET_KILL_THREAD then 1
         else if a = SECCOMP_RET_TRAP then 2
         else if a = SECCOMP_RET_ERRNO then 3
         else if a = SECCOMP_RET_TRACE then 4
         else if a = SECCOMP_RET_LOG then 5
         else if a = SECCOMP_RET_ALLOW then 6
         else 0)"

record pt_regs =
  r_rip :: u64
  r_rdi :: u64
  r_rsi :: u64
  r_rdx :: u64
  r_r10 :: u64
  r_r8 :: u64
  r_r9 :: u64

definition seccomp_data_of :: "u64 \<Rightarrow> pt_regs \<Rightarrow> seccomp_data" where
  "seccomp_data_of nr regs =
     \<lparr>sd_nr = ucast nr, sd_arch = 0xC000003E, sd_ip = r_rip regs,
      sd_args = [r_rdi regs, r_rsi regs, r_rdx regs, r_r10 regs, r_r8 regs, r_r9 regs]\<rparr>"

partial_function (option) seccomp_walk ::
    "seccomp_filter store \<Rightarrow> seccomp_data \<Rightarrow> nat option \<Rightarrow> u32 \<Rightarrow> nat \<Rightarrow> bpf_result option" where
  "seccomp_walk h sd f best best_rank =
     (case f of None \<Rightarrow> Some (BpfRet best)
      | Some n \<Rightarrow>
          (case sget h n of None \<Rightarrow> Some BpfOob
           | Some flt \<Rightarrow>
               Option.bind (bpf_run (flt_insns flt) (flt_len flt) sd)
                 (\<lambda>r. case r of BpfOob \<Rightarrow> Some BpfOob
                    | BpfRet action \<Rightarrow>
                        if seccomp_action_rank action < best_rank
                        then seccomp_walk h sd (flt_prev flt) action (seccomp_action_rank action)
                        else seccomp_walk h sd (flt_prev flt) best best_rank)))"

definition seccomp_filter_run ::
    "seccomp_filter store \<Rightarrow> process \<Rightarrow> u64 \<Rightarrow> pt_regs \<Rightarrow> bpf_result option" where
  "seccomp_filter_run h proc nr regs =
     (if seccomp_filters proc = None then Some (BpfRet SECCOMP_RET_ALLOW)
      else seccomp_walk h (seccomp_data_of nr regs) (seccomp_filters proc)
             SECCOMP_RET_ALLOW (seccomp_action_rank SECCOMP_RET_ALLOW))"

section \<open>The gate in the system call dispatcher\<close>

text \<open>What happens to the call: the handler runs; the process is killed with a signal
  and the handler does not run; the handler is skipped and the call returns the given
  value, after a \<^verbatim>\<open>SIGSYS\<close> for a trap.\<close>

datatype seccomp_verdict =
    RunHandler
  | Killed nat
  | Trapped
  | ReturnErr int

definition seccomp_dispatch_action :: "u32 \<Rightarrow> bool \<Rightarrow> seccomp_verdict" where
  "seccomp_dispatch_action action has_sigsys_handler =
     (let a = action AND SECCOMP_RET_ACTION_FULL
      in if a = SECCOMP_RET_KILL_PROCESS \<or> a = SECCOMP_RET_KILL_THREAD then Killed 31
         else if a = SECCOMP_RET_TRAP then (if has_sigsys_handler then Trapped else Killed 31)
         else if a = SECCOMP_RET_ERRNO then ReturnErr (- uint (action AND SECCOMP_RET_DATA))
         else if a = SECCOMP_RET_TRACE then ReturnErr (- errno_code ENOSYS)
         else if a = SECCOMP_RET_LOG then RunHandler
         else RunHandler)"

definition seccomp_gate ::
    "seccomp_filter store \<Rightarrow> process \<Rightarrow> u64 \<Rightarrow> pt_regs \<Rightarrow> bool \<Rightarrow> seccomp_verdict option" where
  "seccomp_gate h sp nr regs has_sigsys_handler =
     (if seccomp_mode sp \<noteq> SECCOMP_MODE_DISABLED then
        (if seccomp_mode sp = SECCOMP_MODE_STRICT then
           (if \<not> security_seccomp_check sp nr then Some (Killed 9) else Some RunHandler)
         else (case seccomp_filter_run h sp nr regs of
                 Some (BpfRet action) \<Rightarrow> Some (seccomp_dispatch_action action has_sigsys_handler)
               | _ \<Rightarrow> None))
      else Some RunHandler)"

section \<open>A validated program stays in bounds and returns\<close>

lemma length_le_bytes [simp]: "length (le_bytes n w) = n"
  by (simp add: le_bytes_def)

lemma length_sd_bytes: "length (sd_args sd) = 6 \<Longrightarrow> length (sd_bytes sd) = 64"
  by (simp add: sd_bytes_def length_concat o_def sum_list_triv)

lemma bpf_load_abs_defined:
  assumes "bpf_offset_valid k" and "length (sd_args sd) = 6"
  shows "\<exists>w. bpf_load_abs sd k = Some w"
proof -
  have "unat k < 64" and "unat (k AND 3) = 0"
    using assms(1) by (simp_all add: bpf_offset_valid_def word_less_nat_alt)
  then have "unat k + 4 \<le> 64" unfolding unat_and_3 by presburger
  then show ?thesis by (simp add: bpf_load_abs_def length_sd_bytes [OF assms(2)] Let_def)
qed

definition bpf_st_ok :: "u16 \<Rightarrow> bpf_state \<Rightarrow> bool" where
  "bpf_st_ok len st \<longleftrightarrow> unat (bpf_pc st) < unat len \<and> length (bpf_mem st) = BPF_SCRATCH_MEMWORDS"

lemma bpf_validate_insn:
  "bpf_validate insns len \<Longrightarrow> pc < unat len \<Longrightarrow> bpf_insn_ok insns len pc"
  by (auto simp: bpf_validate_def list_all_iff split: if_splits)

lemma bpf_validate_last:
  assumes "bpf_validate insns len" and "pc < unat len"
    and "BPF_CLASS (sf_code (insns ! pc)) \<noteq> BPF_RET"
  shows "Suc pc < unat len"
proof (rule ccontr)
  assume "\<not> Suc pc < unat len"
  with assms(2) have "pc = unat len - 1" by simp
  with assms(1,3) show False by (simp add: bpf_validate_def split: if_splits)
qed

lemma bpf_validate_len: "bpf_validate insns len \<Longrightarrow> 0 < unat len \<and> unat len \<le> 4096"
  by (auto simp: bpf_validate_def BPF_MAXINSNS_def unat_gt_0 split: if_splits)

lemma pc_less_len: "(pc :: u32) < ucast (len :: u16) \<longleftrightarrow> unat pc < unat len"
  by (simp add: word_less_nat_alt unat_simps)

lemma unat_pc_Suc: "unat pc < 4096 \<Longrightarrow> unat (pc + 1 :: u32) = Suc (unat pc)"
  by (simp add: unat_word_ariths)

lemma unat_pc_jump:
  assumes "unat pc < 4096"
  shows "unat (pc + (1 + ucast (j :: u8)) :: u32) = Suc (unat pc + unat j)"
  using assms unat_less [of j] by (simp add: unat_word_ariths unat_simps)

text \<open>A jump displacement is forward when it does not wrap around the 32-bit counter.\<close>

definition bpf_forward :: "sock_filter list \<Rightarrow> u16 \<Rightarrow> bool" where
  "bpf_forward insns len \<longleftrightarrow>
     list_all (\<lambda>ins. BPF_CLASS (sf_code ins) = BPF_JMP \<longrightarrow> BPF_OP (sf_code ins) = BPF_JA \<longrightarrow>
       unat (sf_k ins) < unat len) insns"

lemma bpf_step_validated:
  assumes val: "bpf_validate insns len" and len: "length insns = unat len"
    and args: "length (sd_args sd) = 6" and ok: "bpf_st_ok len st"
  shows "(\<exists>v. bpf_step (insns ! unat (bpf_pc st)) sd st = Stop (BpfRet v)) \<or>
         (\<exists>st'. bpf_step (insns ! unat (bpf_pc st)) sd st = Go st' \<and> bpf_st_ok len st' \<and>
            (bpf_forward insns len \<longrightarrow> unat (bpf_pc st) < unat (bpf_pc st')))"
proof -
  let ?pc = "unat (bpf_pc st)"
  let ?ins = "insns ! ?pc"
  have pc: "?pc < unat len" and mem: "length (bpf_mem st) = BPF_SCRATCH_MEMWORDS"
    using ok by (auto simp: bpf_st_ok_def)
  have pc4: "?pc < 4096" using pc bpf_validate_len [OF val] by linarith
  have insok: "bpf_insn_ok insns len ?pc" by (rule bpf_validate_insn [OF val pc])
  have nxt: "BPF_CLASS (sf_code ?ins) \<noteq> BPF_RET \<Longrightarrow> Suc ?pc < unat len"
    by (rule bpf_validate_last [OF val pc])
  have adv: "\<And>s. BPF_CLASS (sf_code ?ins) \<noteq> BPF_RET \<Longrightarrow> bpf_pc s = bpf_pc st \<Longrightarrow>
      bpf_mem s = bpf_mem st \<Longrightarrow>
      \<exists>st'. bpf_advance s = Go st' \<and> bpf_st_ok len st' \<and>
        (bpf_forward insns len \<longrightarrow> ?pc < unat (bpf_pc st'))"
    using nxt mem by (simp add: bpf_advance_def bpf_st_ok_def unat_pc_Suc [OF pc4])
  consider (ld) "BPF_CLASS (sf_code ?ins) = BPF_LD" | (ldx) "BPF_CLASS (sf_code ?ins) = BPF_LDX"
    | (alu) "BPF_CLASS (sf_code ?ins) = BPF_ALU" | (jmp) "BPF_CLASS (sf_code ?ins) = BPF_JMP"
    | (ret) "BPF_CLASS (sf_code ?ins) = BPF_RET" | (misc) "BPF_CLASS (sf_code ?ins) = BPF_MISC"
    using insok by (auto simp: bpf_insn_ok_def Let_def split: if_splits)
  then show ?thesis
  proof cases
    case ld
    then show ?thesis
      using insok adv bpf_load_abs_defined [of "sf_k ?ins", OF _ args] mem
      by (auto simp: bpf_insn_ok_def bpf_step_def Let_def bpf_mem_read_def split: if_splits)
  next
    case ldx
    then show ?thesis
      using insok adv mem
      by (auto simp: bpf_insn_ok_def bpf_step_def Let_def bpf_mem_read_def split: if_splits)
  next
    case alu
    then show ?thesis using adv by (auto simp: bpf_step_def Let_def)
  next
    case misc
    then show ?thesis using adv by (auto simp: bpf_step_def Let_def)
  next
    case ret
    then show ?thesis by (auto simp: bpf_step_def Let_def)
  next
    case jmp
    show ?thesis
    proof (cases "BPF_OP (sf_code ?ins) = BPF_JA")
      case True
      let ?t = "bpf_pc st + (1 + sf_k ?ins)"
      have "?t < ucast len"
        using insok jmp True by (simp add: bpf_insn_ok_def Let_def add.assoc)
      then have t: "unat ?t < unat len" by (simp add: pc_less_len)
      have "bpf_forward insns len \<Longrightarrow> ?pc < unat ?t"
      proof -
        assume "bpf_forward insns len"
        then have "unat (sf_k ?ins) < unat len"
          using jmp True pc len by (auto simp: bpf_forward_def list_all_iff)
        then have "unat (sf_k ?ins) < 4096" using bpf_validate_len [OF val] by linarith
        then have "unat ?t = Suc (?pc + unat (sf_k ?ins))"
          using pc4 by (simp add: unat_word_ariths)
        then show ?thesis by simp
      qed
      with t jmp True mem show ?thesis
        by (simp add: bpf_step_def Let_def bpf_st_ok_def)
    next
      case False
      have "(bpf_pc st + (1 + ucast (sf_jt ?ins))) < ucast len"
        and "(bpf_pc st + (1 + ucast (sf_jf ?ins))) < ucast len"
        using insok jmp False by (auto simp: bpf_insn_ok_def Let_def add.assoc split: if_splits)
      then have "Suc (?pc + unat (sf_jt ?ins)) < unat len" "Suc (?pc + unat (sf_jf ?ins)) < unat len"
        by (simp_all add: pc_less_len unat_pc_jump [OF pc4])
      with jmp False mem show ?thesis
        by (simp add: bpf_step_def Let_def bpf_st_ok_def unat_pc_jump [OF pc4])
    qed
  qed
qed

lemma bpf_loop_no_oob:
  assumes ret: "bpf_loop insns len sd st = Some r"
    and "bpf_validate insns len" and "length insns = unat len"
    and "length (sd_args sd) = 6" and "bpf_st_ok len st"
  shows "r \<noteq> BpfOob"
proof -
  let ?P = "\<lambda>insns len sd st r. bpf_validate insns len \<longrightarrow> length insns = unat len \<longrightarrow>
    length (sd_args sd) = 6 \<longrightarrow> bpf_st_ok len st \<longrightarrow> r \<noteq> BpfOob"
  have "?P insns len sd st r"
  proof (rule bpf_loop.raw_induct [where P = ?P, OF _ ret], intro impI)
    fix f insns len sd st r
    assume IH: "\<And>insns len sd st r. f insns len sd st = Some r \<Longrightarrow> ?P insns len sd st r"
      and eq: "(if bpf_pc st < ucast len
         then if unat (bpf_pc st) < length insns
              then case bpf_step (insns ! unat (bpf_pc st)) sd st of
                     Go st' \<Rightarrow> f insns len sd st' | Stop r \<Rightarrow> Some r
              else Some BpfOob
         else Some (BpfRet 0x80000000)) = Some r"
      and val: "bpf_validate insns len" and len: "length insns = unat len"
      and args: "length (sd_args sd) = 6" and ok: "bpf_st_ok len st"
    have "bpf_pc st < ucast len" and "unat (bpf_pc st) < length insns"
      using ok len by (auto simp: bpf_st_ok_def pc_less_len)
    with eq bpf_step_validated [OF val len args ok] show "r \<noteq> BpfOob"
      using IH val len args by (auto split: bpf_next.splits)
  qed
  with assms(2-5) show ?thesis by blast
qed

lemma bpf_loop_terminates:
  assumes val: "bpf_validate insns len" and len: "length insns = unat len"
    and args: "length (sd_args sd) = 6" and fwd: "bpf_forward insns len"
  shows "bpf_st_ok len st \<Longrightarrow> \<exists>v. bpf_loop insns len sd st = Some (BpfRet v)"
proof (induction "unat len - unat (bpf_pc st)" arbitrary: st rule: less_induct)
  case less
  have pc: "bpf_pc st < ucast len" "unat (bpf_pc st) < length insns"
    using less.prems len by (auto simp: bpf_st_ok_def pc_less_len)
  from bpf_step_validated [OF val len args less.prems] show ?case
  proof (elim disjE exE conjE)
    fix v assume "bpf_step (insns ! unat (bpf_pc st)) sd st = Stop (BpfRet v)"
    with pc show ?thesis by (subst bpf_loop.simps) simp
  next
    fix st' assume st': "bpf_step (insns ! unat (bpf_pc st)) sd st = Go st'" "bpf_st_ok len st'"
      "bpf_forward insns len \<longrightarrow> unat (bpf_pc st) < unat (bpf_pc st')"
    then have "\<exists>v. bpf_loop insns len sd st' = Some (BpfRet v)"
      using fwd by (intro less.hyps) (auto simp: bpf_st_ok_def)
    with st' pc show ?thesis by (subst bpf_loop.simps) simp
  qed
qed

lemma bpf_init_ok:
  "bpf_validate insns len \<Longrightarrow>
   bpf_st_ok len \<lparr>bpf_pc = 0, bpf_A = 0, bpf_X = 0, bpf_mem = replicate BPF_SCRATCH_MEMWORDS 0\<rparr>"
  using bpf_validate_len by (simp add: bpf_st_ok_def)

text \<open>C14: On a program the validator accepts, the interpreter never reads outside the
  program, the scratch memory or the data record; and when no unconditional jump wraps
  around the 32-bit counter, it returns a value.\<close>

theorem bpf_validate_sound:
  assumes "bpf_validate insns len" and "length insns = unat len" and "length (sd_args sd) = 6"
  shows "bpf_run insns len sd \<noteq> Some BpfOob \<and>
         (bpf_forward insns len \<longrightarrow> (\<exists>v. bpf_run insns len sd = Some (BpfRet v)))"
  using bpf_loop_no_oob [OF _ assms bpf_init_ok [OF assms(1)]]
    bpf_loop_terminates [OF assms _ bpf_init_ok [OF assms(1)]]
  by (auto simp: bpf_run_def)

definition allow_read_prog :: "sock_filter list" where
  "allow_read_prog =
     [\<lparr>sf_code = 0x20, sf_jt = 0, sf_jf = 0, sf_k = 0\<rparr>,
      \<lparr>sf_code = 0x15, sf_jt = 0, sf_jf = 1, sf_k = 0\<rparr>,
      \<lparr>sf_code = 0x06, sf_jt = 0, sf_jf = 0, sf_k = 0x7fff0000\<rparr>,
      \<lparr>sf_code = 0x06, sf_jt = 0, sf_jf = 0, sf_k = 0x80000000\<rparr>]"

definition example_regs :: pt_regs where
  "example_regs = \<lparr>r_rip = 0, r_rdi = 1, r_rsi = 2, r_rdx = 3, r_r10 = 4, r_r8 = 5, r_r9 = 6\<rparr>"

lemma upt_4 [simp]: "[0..<4] = [0, 1, 2, 3 :: nat]" and upt_2 [simp]: "[0..<2] = [0, 1 :: nat]"
  by (simp_all add: upt_rec numeral_eq_Suc)

lemma allow_read_validates: "bpf_validate allow_read_prog 4"
  by (simp add: bpf_validate_def allow_read_prog_def bpf_insn_ok_def bpf_field_defs
        bpf_offset_valid_def BPF_MAXINSNS_def Let_def)

theorem bpf_validate_sound_witness:
  "\<exists>v. bpf_run allow_read_prog 4 (seccomp_data_of 1 example_regs) = Some (BpfRet v)"
proof -
  have "bpf_forward allow_read_prog 4"
    by (simp add: bpf_forward_def allow_read_prog_def bpf_field_defs)
  then show ?thesis
    using bpf_validate_sound [of allow_read_prog 4 "seccomp_data_of 1 example_regs"]
      allow_read_validates
    by (simp add: allow_read_prog_def seccomp_data_of_def)
qed

definition self_jump_prog :: "sock_filter list" where
  "self_jump_prog =
     [\<lparr>sf_code = 0x05, sf_jt = 0, sf_jf = 0, sf_k = 0xFFFFFFFF\<rparr>,
      \<lparr>sf_code = 0x06, sf_jt = 0, sf_jf = 0, sf_k = 0x7fff0000\<rparr>]"

lemma self_jump_validates: "bpf_validate self_jump_prog 2"
  by (simp add: bpf_validate_def self_jump_prog_def bpf_insn_ok_def bpf_field_defs
      BPF_MAXINSNS_def Let_def)

lemma self_jump_loops: "bpf_pc st = 0 \<Longrightarrow> bpf_loop self_jump_prog 2 sd st \<noteq> Some r"
proof
  assume pc: "bpf_pc st = 0" and ret: "bpf_loop self_jump_prog 2 sd st = Some r"
  let ?P = "\<lambda>insns len sd st r. insns = self_jump_prog \<longrightarrow> len = (2 :: u16) \<longrightarrow> bpf_pc st \<noteq> 0"
  have "?P self_jump_prog 2 sd st r"
  proof (rule bpf_loop.raw_induct [where P = ?P, OF _ ret], intro impI notI)
    fix f insns len sd st r
    assume IH: "\<And>insns len sd st r. f insns len sd st = Some r \<Longrightarrow> ?P insns len sd st r"
      and eq: "(if bpf_pc st < ucast len
         then if unat (bpf_pc st) < length insns
              then case bpf_step (insns ! unat (bpf_pc st)) sd st of
                     Go st' \<Rightarrow> f insns len sd st' | Stop r \<Rightarrow> Some r
              else Some BpfOob
         else Some (BpfRet 0x80000000)) = Some r"
      and i: "insns = self_jump_prog" and l: "len = 2" and p: "bpf_pc st = 0"
    have wrap: "(4294967296 :: u32) = 0" by simp
    from eq i l p have "f insns len sd (st\<lparr>bpf_pc := 0\<rparr>) = Some r"
      by (simp add: self_jump_prog_def bpf_step_def bpf_field_defs wrap)
    from IH [OF this] i l show False by simp
  qed
  with pc show False by simp
qed

text \<open>C22: The validator computes a jump target in 32 bits, so an unconditional
  jump by \<^verbatim>\<open>0xFFFFFFFF\<close> is accepted as a jump to the instruction itself. The program
  below passes validation and the interpreter never returns from it.\<close>

theorem self_jump_accepted_and_never_returns:
  "bpf_validate self_jump_prog 2 \<and> bpf_run self_jump_prog 2 sd = None"
proof -
  have "\<And>r. bpf_run self_jump_prog 2 sd \<noteq> Some r"
    unfolding bpf_run_def by (rule self_jump_loops) simp
  then show ?thesis using self_jump_validates by auto
qed

section \<open>The verdict of a chain\<close>

fun flt_chain :: "seccomp_filter store \<Rightarrow> nat option \<Rightarrow> seccomp_filter list \<Rightarrow> bool" where
  "flt_chain h None [] = True"
| "flt_chain h (Some n) (f # fs) = (sget h n = Some f \<and> flt_chain h (flt_prev f) fs)"
| "flt_chain h _ _ = False"

definition flt_runs :: "seccomp_data \<Rightarrow> seccomp_filter list \<Rightarrow> u32 list \<Rightarrow> bool" where
  "flt_runs sd fs acts =
     list_all2 (\<lambda>f a. bpf_run (flt_insns f) (flt_len f) sd = Some (BpfRet a)) fs acts"

lemma seccomp_walk_chain:
  assumes "flt_chain h f fs" and "flt_runs sd fs acts"
  shows "\<exists>a. seccomp_walk h sd f best (seccomp_action_rank best) = Some (BpfRet a) \<and>
     find (\<lambda>b. seccomp_action_rank b = seccomp_action_rank a) (best # acts) = Some a \<and>
     (\<forall>b \<in> set (best # acts). seccomp_action_rank a \<le> seccomp_action_rank b)"
  using assms
proof (induction h f fs arbitrary: acts best rule: flt_chain.induct)
  case (1 h)
  then show ?case by (subst seccomp_walk.simps) (simp add: flt_runs_def)
next
  case (2 h n f fs)
  from 2(3) obtain a acts' where acts: "acts = a # acts'"
    and run: "bpf_run (flt_insns f) (flt_len f) sd = Some (BpfRet a)"
    and rest: "flt_runs sd fs acts'"
    by (auto simp: flt_runs_def list_all2_Cons1)
  let ?b = "if seccomp_action_rank a < seccomp_action_rank best then a else best"
  have "seccomp_walk h sd (Some n) best (seccomp_action_rank best) =
        seccomp_walk h sd (flt_prev f) ?b (seccomp_action_rank ?b)"
    using 2(2) run by (subst seccomp_walk.simps) (simp split: if_splits)
  moreover obtain c where c:
    "seccomp_walk h sd (flt_prev f) ?b (seccomp_action_rank ?b) = Some (BpfRet c)"
    "find (\<lambda>b. seccomp_action_rank b = seccomp_action_rank c) (?b # acts') = Some c"
    "\<forall>b \<in> set (?b # acts'). seccomp_action_rank c \<le> seccomp_action_rank b"
    using 2(1) [OF _ rest, of ?b] 2(2) by auto
  moreover have "find (\<lambda>b. seccomp_action_rank b = seccomp_action_rank c) (best # a # acts') = Some c"
    using c(2,3) by (cases "seccomp_action_rank a < seccomp_action_rank best") (auto split: if_splits)
  ultimately show ?case using acts by (auto split: if_splits)
qed simp_all

text \<open>The actions from the most to the least restrictive.\<close>

abbreviation (input) seccomp_actions :: "u32 list" where
  "seccomp_actions \<equiv> [SECCOMP_RET_KILL_PROCESS, SECCOMP_RET_KILL_THREAD, SECCOMP_RET_TRAP, SECCOMP_RET_ERRNO,
     SECCOMP_RET_TRACE, SECCOMP_RET_LOG, SECCOMP_RET_ALLOW]"

lemma seccomp_rank_nth:
  assumes "j < 7" "a AND SECCOMP_RET_ACTION_FULL = seccomp_actions ! j"
  shows "seccomp_action_rank a = j"
proof -
  have "j \<in> {0, 1, 2, 3, 4, 5, 6}" using assms(1) by auto
  then show ?thesis using assms(2) unfolding seccomp_action_rank_def Let_def by auto
qed

lemma find_in: "find P xs = Some a \<Longrightarrow> a \<in> set xs"
  by (induction xs) (auto split: if_splits)

lemma find_least: "j < length xs \<Longrightarrow> P (xs ! j) \<Longrightarrow> (\<And>i. i < j \<Longrightarrow> \<not> P (xs ! i)) \<Longrightarrow> find P xs = Some (xs ! j)"
  by (auto simp: find_Some_iff)

text \<open>C21: When every filter of the process's chain returns an action that the kernel knows, the
  chain's verdict is of the most restrictive kind that one of them, or the default \<^verbatim>\<open>ALLOW\<close>,
  is of: \<^verbatim>\<open>KILL_PROCESS\<close> before \<^verbatim>\<open>KILL_THREAD\<close>, \<^verbatim>\<open>TRAP\<close>, \<^verbatim>\<open>ERRNO\<close>, \<^verbatim>\<open>TRACE\<close>, \<^verbatim>\<open>LOG\<close> and
  \<^verbatim>\<open>ALLOW\<close>. Of several results of that kind it is the one of the filter attached last.\<close>

theorem filter_run_most_restrictive:
  assumes "flt_chain h (seccomp_filters p) fs" and "flt_runs (seccomp_data_of nr regs) fs acts"
    and "\<forall>b \<in> set acts. b AND SECCOMP_RET_ACTION_FULL \<in> {SECCOMP_RET_KILL_PROCESS, SECCOMP_RET_KILL_THREAD,
      SECCOMP_RET_TRAP, SECCOMP_RET_ERRNO, SECCOMP_RET_TRACE, SECCOMP_RET_LOG, SECCOMP_RET_ALLOW}"
  shows "\<exists>kind a. find (\<lambda>k. \<exists>b \<in> set (SECCOMP_RET_ALLOW # acts). b AND SECCOMP_RET_ACTION_FULL = k)
       [SECCOMP_RET_KILL_PROCESS, SECCOMP_RET_KILL_THREAD, SECCOMP_RET_TRAP, SECCOMP_RET_ERRNO,
        SECCOMP_RET_TRACE, SECCOMP_RET_LOG, SECCOMP_RET_ALLOW] = Some kind \<and>
     find (\<lambda>b. b AND SECCOMP_RET_ACTION_FULL = kind) (SECCOMP_RET_ALLOW # acts) = Some a \<and>
     seccomp_filter_run h p nr regs = Some (BpfRet a)"
proof -
  let ?all = "SECCOMP_RET_ALLOW # acts" and ?k = "\<lambda>b :: u32. b AND SECCOMP_RET_ACTION_FULL"
  obtain a where a: "seccomp_filter_run h p nr regs = Some (BpfRet a)"
      "find (\<lambda>b. seccomp_action_rank b = seccomp_action_rank a) ?all = Some a"
      "\<forall>b \<in> set ?all. seccomp_action_rank a \<le> seccomp_action_rank b"
  proof (cases "seccomp_filters p")
    case None
    then have "acts = []" using assms(1,2) by (cases fs) (auto simp: flt_runs_def)
    then show ?thesis using None that [of SECCOMP_RET_ALLOW] by (simp add: seccomp_filter_run_def)
  next
    case Some
    then show ?thesis
      using seccomp_walk_chain [OF assms(1,2), of SECCOMP_RET_ALLOW] that by (auto simp: seccomp_filter_run_def)
  qed
  have known: "\<exists>j < 7. ?k b = seccomp_actions ! j" if "b \<in> set ?all" for b
  proof -
    have "?k b \<in> set seccomp_actions" using that assms(3) by auto
    then obtain i where "i < length seccomp_actions" "seccomp_actions ! i = ?k b" unfolding in_set_conv_nth by blast
    then show ?thesis by (intro exI [of _ i]) simp
  qed
  have "a \<in> set ?all" using find_in [OF a(2)] .
  then obtain j where j: "j < 7" "?k a = seccomp_actions ! j" using known by blast
  have ra: "seccomp_action_rank a = j" using seccomp_rank_nth [OF j] .
  have eq: "seccomp_action_rank b = j \<longleftrightarrow> ?k b = ?k a" if b: "b \<in> set ?all" for b
  proof -
    obtain i where "i < 7" "?k b = seccomp_actions ! i" using known [OF b] by blast
    then show ?thesis using seccomp_rank_nth [of i b] seccomp_rank_nth [of j b] j by metis
  qed
  have "find (\<lambda>k. \<exists>b \<in> set ?all. ?k b = k) seccomp_actions = Some (seccomp_actions ! j)"
  proof (rule find_least)
    show "\<exists>b \<in> set ?all. ?k b = seccomp_actions ! j" using \<open>a \<in> set ?all\<close> j(2) by blast
    fix i assume "i < j"
    then show "\<not> (\<exists>b \<in> set ?all. ?k b = seccomp_actions ! i)"
      using a(3) ra j(1) seccomp_rank_nth [of i] by fastforce
  qed (use j in simp)
  moreover have "find (\<lambda>b. ?k b = seccomp_actions ! j) ?all = Some a"
  proof -
    have "find (\<lambda>b. ?k b = ?k a) ?all = find (\<lambda>b. seccomp_action_rank b = j) ?all"
      by (rule find_cong) (use eq in auto)
    then show ?thesis using a(2) ra j(2) by metis
  qed
  ultimately show ?thesis using a(1) by blast
qed

definition ret_prog :: "u32 \<Rightarrow> sock_filter list" where
  "ret_prog k = [\<lparr>sf_code = 0x06, sf_jt = 0, sf_jf = 0, sf_k = k\<rparr>]"

definition ret_filter :: "nat option \<Rightarrow> u32 \<Rightarrow> seccomp_filter" where
  "ret_filter prev k = \<lparr>flt_prev = prev, flt_refcount = 1, flt_len = 1, flt_insns = ret_prog k\<rparr>"

lemma ret_prog_run: "bpf_run (ret_prog k) 1 sd = Some (BpfRet k)"
  by (simp add: bpf_run_def ret_prog_def bpf_step_def bpf_field_defs
      bpf_loop.simps [of "[\<lparr>sf_code = 6, sf_jt = 0, sf_jf = 0, sf_k = k\<rparr>]" 1])

definition two_filters :: "u32 \<Rightarrow> u32 \<Rightarrow> seccomp_filter store" where
  "two_filters old new = [Some (ret_filter None old), Some (ret_filter (Some 0) new)]"

definition filtered_process :: process where
  "filtered_process = example_process\<lparr>seccomp_mode := SECCOMP_MODE_FILTER, seccomp_filters := Some 1\<rparr>"

theorem filter_run_most_restrictive_witness:
  "seccomp_filter_run (two_filters SECCOMP_RET_TRAP SECCOMP_RET_LOG) filtered_process 0 example_regs
     = Some (BpfRet SECCOMP_RET_TRAP)"
  using filter_run_most_restrictive [of "two_filters SECCOMP_RET_TRAP SECCOMP_RET_LOG" filtered_process
      "[ret_filter (Some 0) SECCOMP_RET_LOG, ret_filter None SECCOMP_RET_TRAP]" 0 example_regs
      "[SECCOMP_RET_LOG, SECCOMP_RET_TRAP]"]
  by (auto simp: two_filters_def filtered_process_def ret_filter_def sget_def flt_runs_def
      ret_prog_run)

text \<open>C23: An action the kernel does not know is ranked as the most restrictive one,
  so it replaces the KILL of an older filter as the verdict of the chain; but the
  dispatcher's default case then runs the system call.\<close>

theorem unknown_action_overrides_kill:
  "seccomp_gate (two_filters SECCOMP_RET_KILL_THREAD 0x00010000) filtered_process nr regs b = Some RunHandler \<and>
   seccomp_gate [Some (ret_filter None SECCOMP_RET_KILL_THREAD)]
     (filtered_process\<lparr>seccomp_filters := Some 0\<rparr>) nr regs b = Some (Killed 31)"
proof -
  have "seccomp_filter_run (two_filters SECCOMP_RET_KILL_THREAD 0x00010000) filtered_process nr regs
        = Some (BpfRet 0x00010000)"
    by (simp add: seccomp_filter_run_def filtered_process_def seccomp_walk.simps
      two_filters_def ret_filter_def sget_def ret_prog_run seccomp_action_rank_def)
  moreover have "seccomp_filter_run [Some (ret_filter None SECCOMP_RET_KILL_THREAD)]
     (filtered_process\<lparr>seccomp_filters := Some 0\<rparr>) nr regs = Some (BpfRet SECCOMP_RET_KILL_THREAD)"
    by (simp add: seccomp_filter_run_def filtered_process_def seccomp_walk.simps
      two_filters_def ret_filter_def sget_def ret_prog_run seccomp_action_rank_def)
  ultimately show ?thesis
    by (simp add: seccomp_gate_def filtered_process_def seccomp_dispatch_action_def)
qed

section \<open>Reference counts\<close>

text \<open>\<open>flt_preds h n\<close> are the live filters whose \<open>prev\<close> is \<open>n\<close>, \<open>flt_owners ps n\<close> the
  processes whose chain starts at \<open>n\<close>. In \<open>rc_ok h ext\<close>, \<open>ext n\<close> is the number of
  references to \<open>n\<close> held outside the store.\<close>

definition flt_preds :: "seccomp_filter store \<Rightarrow> nat \<Rightarrow> nat set" where
  "flt_preds h n = {m. \<exists>f. sget h m = Some f \<and> flt_prev f = Some n}"

definition flt_owners :: "process store \<Rightarrow> nat \<Rightarrow> nat set" where
  "flt_owners ps n = {i. \<exists>p. sget ps i = Some p \<and> seccomp_filters p = Some n}"

definition flt_ok :: "seccomp_filter store \<Rightarrow> nat \<Rightarrow> seccomp_filter \<Rightarrow> bool" where
  "flt_ok h n f \<longleftrightarrow> length (flt_insns f) = unat (flt_len f) \<and> bpf_validate (flt_insns f) (flt_len f) \<and>
     (\<forall>k. flt_prev f = Some k \<longrightarrow> k < n \<and> k \<in> slive h)"

definition rc_ok :: "seccomp_filter store \<Rightarrow> (nat \<Rightarrow> nat) \<Rightarrow> bool" where
  "rc_ok h ext \<longleftrightarrow>
     (\<forall>n f. sget h n = Some f \<longrightarrow>
        unat (flt_refcount f) = ext n + card (flt_preds h n) \<and> flt_refcount f \<noteq> 0 \<and> flt_ok h n f) \<and>
     (\<forall>n. 0 < ext n \<longrightarrow> n \<in> slive h)"

definition seccomp_world_ok :: "seccomp_world \<Rightarrow> bool" where
  "seccomp_world_ok w \<longleftrightarrow> rc_ok (sw_filters w) (\<lambda>n. card (flt_owners (sw_procs w) n))"

definition bump :: "nat option \<Rightarrow> (nat \<Rightarrow> nat) \<Rightarrow> nat \<Rightarrow> nat" where
  "bump x ext n = ext n + (if x = Some n then 1 else 0)"

lemma finite_flt_preds [simp]: "finite (flt_preds h n)"
  by (rule finite_subset [OF _ finite_slive [of h]]) (auto simp: flt_preds_def slive_def)

lemma finite_flt_owners [simp]: "finite (flt_owners ps n)"
  by (rule finite_subset [OF _ finite_slive [of ps]]) (auto simp: flt_owners_def slive_def)

lemma flt_preds_sput_count [simp]:
  "sget h n = Some f \<Longrightarrow> flt_preds (sput h n (f\<lparr>flt_refcount := c\<rparr>)) m = flt_preds h m"
  by (auto simp: flt_preds_def sget_sput split: if_splits)

lemma flt_ok_sput_count:
  "sget h n = Some f \<Longrightarrow> flt_ok (sput h n g) m k = flt_ok h m k"
  by (simp add: flt_ok_def)

lemma flt_ok_count [simp]: "flt_ok h n (f\<lparr>flt_refcount := c\<rparr>) = flt_ok h n f"
  by (simp add: flt_ok_def)

lemma flt_preds_sfree [simp]: "flt_preds (sfree h n) m = flt_preds h m - {n}"
  by (auto simp: flt_preds_def sget_sfree split: if_splits)

lemma unat_pred: "(c :: u32) \<noteq> 0 \<Longrightarrow> unat (c - 1) = unat c - 1"
  by (simp add: unat_minus_one)

lemma rc_ok_drop:
  assumes ok: "rc_ok h (bump (Some n) ext)" and f: "sget h n = Some f"
    and c: "flt_refcount f - 1 \<noteq> 0"
  shows "rc_ok (sput h n (f\<lparr>flt_refcount := flt_refcount f - 1\<rparr>)) ext"
proof -
  have "unat (flt_refcount f) = Suc (ext n) + card (flt_preds h n)" "flt_refcount f \<noteq> 0"
    using ok f by (auto simp: rc_ok_def bump_def)
  then have "unat (flt_refcount f - 1) = ext n + card (flt_preds h n)"
    by (simp add: unat_pred)
  with ok f c show ?thesis
    unfolding rc_ok_def
    by (auto simp: sget_sput flt_ok_sput_count bump_def dest: sget_Some_less split: if_splits)
qed

lemma rc_ok_free:
  assumes ok: "rc_ok h (bump (Some n) ext)" and f: "sget h n = Some f"
    and c: "flt_refcount f - 1 = 0"
  shows "rc_ok (sfree h n) (bump (flt_prev f) ext)"
proof -
  have "unat (flt_refcount f) = Suc (ext n) + card (flt_preds h n)"
    using ok f by (auto simp: rc_ok_def bump_def)
  moreover have "unat (flt_refcount f) = 1" using c by simp
  ultimately have e: "ext n = 0" "card (flt_preds h n) = 0" by linarith+
  then have p: "flt_preds h n = {}" by simp
  have prev: "\<And>k. flt_prev f = Some k \<Longrightarrow> k < n \<and> k \<in> slive h"
    using ok f by (auto simp: rc_ok_def flt_ok_def)
  have cnt: "\<And>m. card (flt_preds h m) = card (flt_preds h m - {n}) + (if flt_prev f = Some m then 1 else 0)"
  proof -
    fix m
    have "n \<in> flt_preds h m \<longleftrightarrow> flt_prev f = Some m" using f by (simp add: flt_preds_def)
    then show "card (flt_preds h m) = card (flt_preds h m - {n}) + (if flt_prev f = Some m then 1 else 0)"
      using card_Suc_Diff1 [OF finite_flt_preds, of n h m] by auto
  qed
  show ?thesis
    unfolding rc_ok_def
  proof (intro conjI allI impI)
    fix m g assume g: "sget (sfree h n) m = Some g"
    then have m: "m \<noteq> n" "sget h m = Some g" by (auto simp: sget_sfree split: if_splits)
    then have old: "unat (flt_refcount g) = ext m + card (flt_preds h m)" "flt_refcount g \<noteq> 0" "flt_ok h m g"
      using ok by (auto simp: rc_ok_def bump_def)
    from old(1) cnt [of m] show "unat (flt_refcount g) = bump (flt_prev f) ext m + card (flt_preds (sfree h n) m)"
      by (simp add: bump_def)
    show "flt_refcount g \<noteq> 0" by (rule old)
    have "flt_prev g \<noteq> Some n" using p m by (auto simp: flt_preds_def)
    with old(3) show "flt_ok (sfree h n) m g" by (auto simp: flt_ok_def)
  next
    fix m assume "0 < bump (flt_prev f) ext m"
    then show "m \<in> slive (sfree h n)"
      using ok e prev by (auto simp: bump_def rc_ok_def split: if_splits)
  qed
qed

lemma seccomp_put_loop_ok:
  "rc_ok h (bump x ext) \<Longrightarrow> \<exists>h'. seccomp_put_loop h x = Some h' \<and> rc_ok h' ext"
proof (induction h x rule: seccomp_put_loop.induct)
  case (1 h)
  moreover have "bump None ext = ext" by (auto simp: bump_def)
  ultimately show ?case by simp
next
  case (2 h n)
  have "n \<in> slive h" using 2(2) by (simp add: rc_ok_def bump_def)
  then obtain f where f: "sget h n = Some f" by (auto simp: slive_def)
  show ?case
  proof (cases "flt_refcount f - 1 = 0")
    case True
    from 2(1) [OF f _ rc_ok_free [OF 2(2) f True]] True f show ?thesis by simp
  next
    case False
    with rc_ok_drop [OF 2(2) f False] f show ?thesis by simp
  qed
qed

lemma seccomp_put_ok:
  assumes ok: "seccomp_world_ok w"
  shows "\<exists>w'. seccomp_filters_put w pi = Some w' \<and> seccomp_world_ok w'"
proof (cases "sget (sw_procs w) pi")
  case None
  with ok show ?thesis by (simp add: seccomp_filters_put_def)
next
  case (Some p)
  let ?ps = "sput (sw_procs w) pi (p\<lparr>seccomp_filters := None\<rparr>)"
  have "(\<lambda>n. card (flt_owners (sw_procs w) n)) =
        bump (seccomp_filters p) (\<lambda>n. card (flt_owners ?ps n))"
  proof
    fix n
    have "flt_owners ?ps n = flt_owners (sw_procs w) n - {pi}"
      using Some by (auto simp: flt_owners_def sget_sput dest: sget_Some_less split: if_splits)
    moreover have "pi \<in> flt_owners (sw_procs w) n \<longleftrightarrow> seccomp_filters p = Some n"
      using Some by (simp add: flt_owners_def)
    ultimately show "card (flt_owners (sw_procs w) n) =
        bump (seccomp_filters p) (\<lambda>n. card (flt_owners ?ps n)) n"
      using card_Suc_Diff1 [OF finite_flt_owners, of pi "sw_procs w" n] by (auto simp: bump_def)
  qed
  with ok have "rc_ok (sw_filters w) (bump (seccomp_filters p) (\<lambda>n. card (flt_owners ?ps n)))"
    by (simp add: seccomp_world_ok_def)
  from seccomp_put_loop_ok [OF this] Some show ?thesis
    by (auto simp: seccomp_filters_put_def seccomp_world_ok_def)
qed

lemma those_SomeD: "those xs = Some ys \<Longrightarrow> length ys = length xs"
  by (induction xs arbitrary: ys) (auto split: option.splits)

lemma rc_ok_fresh: "rc_ok h ext \<Longrightarrow> ext (length h) = 0"
  using length_notin_slive [of h] by (force simp: rc_ok_def)

lemma rc_ok_new:
  assumes ok: "rc_ok h ext" and x: "\<And>n. x = Some n \<Longrightarrow> 0 < ext n"
    and f: "length (flt_insns f) = unat (flt_len f)" "bpf_validate (flt_insns f) (flt_len f)"
      "flt_prev f = x" "flt_refcount f = 1"
    and ext': "ext = bump x ext0" and z: "ext0 (length h) = 0"
  shows "rc_ok (h @ [Some f]) (bump (Some (length h)) ext0)"
proof -
  have xs: "\<And>n. x = Some n \<Longrightarrow> n \<in> slive h" using ok x by (auto simp: rc_ok_def)
  have pr: "\<And>n. flt_preds (h @ [Some f]) n =
      (if x = Some n then insert (length h) (flt_preds h n) else flt_preds h n)"
    using f(3) by (auto simp: flt_preds_def sget_append dest: sget_Some_less split: if_splits)
  have fresh: "\<And>n. length h \<notin> flt_preds h n"
    by (auto simp: flt_preds_def sget_def)
  have none: "flt_preds h (length h) = {}"
    using ok by (auto simp: flt_preds_def rc_ok_def flt_ok_def dest: slive_less)
  have live: "\<And>n. 0 < ext n \<Longrightarrow> n \<in> slive h" using ok by (auto simp: rc_ok_def)
  have "x \<noteq> Some (length h)" using xs by auto
  then have new: "flt_preds (h @ [Some f]) (length h) = {}" by (simp add: pr none)
  show ?thesis
    unfolding rc_ok_def
  proof (intro conjI allI impI)
    fix n g assume "sget (h @ [Some f]) n = Some g"
    then consider "n = length h" "g = f" | "n \<noteq> length h" "sget h n = Some g"
      by (auto simp: sget_append split: if_splits)
    then have "unat (flt_refcount g) = bump (Some (length h)) ext0 n + card (flt_preds (h @ [Some f]) n) \<and>
       flt_refcount g \<noteq> 0 \<and> flt_ok (h @ [Some f]) n g"
    proof cases
      case 1
      then show ?thesis using f xs new z by (auto simp: bump_def flt_ok_def dest: slive_less)
    next
      case 2
      with ok have "unat (flt_refcount g) = ext n + card (flt_preds h n)" "flt_refcount g \<noteq> 0" "flt_ok h n g"
        by (auto simp: rc_ok_def)
      with 2 show ?thesis by (auto simp: ext' bump_def pr fresh flt_ok_def)
    qed
    then show "unat (flt_refcount g) = bump (Some (length h)) ext0 n + card (flt_preds (h @ [Some f]) n)"
      "flt_refcount g \<noteq> 0" "flt_ok (h @ [Some f]) n g" by blast+
  next
    fix n assume "0 < bump (Some (length h)) ext0 n"
    then show "n \<in> slive (h @ [Some f])" using live [of n] by (auto simp: bump_def ext' split: if_splits)
  qed
qed

lemma owners_set_head:
  assumes "sget ps i = Some p"
  shows "(\<lambda>n. card (flt_owners (sput ps i (p\<lparr>seccomp_filters := x, no_new_privs := a, seccomp_mode := b\<rparr>)) n)) =
     bump x (\<lambda>n. card (flt_owners ps n - {i}))"
    "(\<lambda>n. card (flt_owners ps n)) = bump (seccomp_filters p) (\<lambda>n. card (flt_owners ps n - {i}))"
proof -
  have o: "\<And>n. flt_owners (sput ps i (p\<lparr>seccomp_filters := x, no_new_privs := a, seccomp_mode := b\<rparr>)) n =
      (if x = Some n then insert i (flt_owners ps n - {i}) else flt_owners ps n - {i})"
    using assms by (auto simp: flt_owners_def sget_sput dest: sget_Some_less split: if_splits)
  show "(\<lambda>n. card (flt_owners (sput ps i (p\<lparr>seccomp_filters := x, no_new_privs := a, seccomp_mode := b\<rparr>)) n)) =
     bump x (\<lambda>n. card (flt_owners ps n - {i}))"
    by (auto simp: fun_eq_iff bump_def o card.insert_remove)
  have "\<And>n. i \<in> flt_owners ps n \<longleftrightarrow> seccomp_filters p = Some n"
    using assms by (simp add: flt_owners_def)
  then show "(\<lambda>n. card (flt_owners ps n)) = bump (seccomp_filters p) (\<lambda>n. card (flt_owners ps n - {i}))"
    using card_Suc_Diff1 [OF finite_flt_owners, of i ps] by (auto simp: fun_eq_iff bump_def)
qed

lemma seccomp_attach_ok:
  assumes ok: "seccomp_world_ok w"
  shows "seccomp_world_ok (fst (seccomp_attach_filter w pi uf pin kok ui))"
proof -
  have main: "seccomp_world_ok (w\<lparr>sw_filters := sw_filters w @ [Some \<lparr>flt_prev = seccomp_filters p,
        flt_refcount = 1, flt_len = plen, flt_insns = insns\<rparr>],
      sw_procs := sput (sw_procs w) pi (p\<lparr>seccomp_filters := Some (length (sw_filters w)),
        no_new_privs := True, seccomp_mode := SECCOMP_MODE_FILTER\<rparr>)\<rparr>)"
    if p: "sget (sw_procs w) pi = Some p" and len: "length insns = unat plen" and val: "bpf_validate insns plen"
    for p plen insns
  proof -
    let ?ext = "\<lambda>n. card (flt_owners (sw_procs w) n - {pi})"
    have rc: "rc_ok (sw_filters w) (\<lambda>n. card (flt_owners (sw_procs w) n))"
      using ok by (simp add: seccomp_world_ok_def)
    have z: "card (flt_owners (sw_procs w) (length (sw_filters w))) = 0"
      by (rule rc_ok_fresh [OF rc])
    have "rc_ok (sw_filters w @ [Some \<lparr>flt_prev = seccomp_filters p, flt_refcount = 1, flt_len = plen,
        flt_insns = insns\<rparr>]) (bump (Some (length (sw_filters w))) ?ext)"
    proof (rule rc_ok_new [OF rc])
      fix n assume "seccomp_filters p = Some n"
      then show "0 < card (flt_owners (sw_procs w) n)"
        using p finite_flt_owners [of "sw_procs w" n] by (auto simp: card_gt_0_iff flt_owners_def)
    next
      show "(\<lambda>n. card (flt_owners (sw_procs w) n)) = bump (seccomp_filters p) ?ext"
        by (rule owners_set_head(2) [OF p])
      show "?ext (length (sw_filters w)) = 0" using z by simp
    qed (use len val in simp_all)
    then show ?thesis
      by (simp add: seccomp_world_ok_def owners_set_head(1) [OF p])
  qed
  show ?thesis
    using ok main
    by (auto simp: seccomp_attach_filter_def snew_def Let_def dest!: those_SomeD split: option.splits)
qed

lemma rc_ok_live: "rc_ok h ext \<Longrightarrow> 0 < ext n \<Longrightarrow> n \<in> slive h"
  by (simp add: rc_ok_def)

lemma rc_ok_flt: "rc_ok h ext \<Longrightarrow> sget h n = Some f \<Longrightarrow> flt_ok h n f"
  by (simp add: rc_ok_def)

lemma owners_new:
  "seccomp_filters c = None \<Longrightarrow> flt_owners (ps @ [Some c]) n = flt_owners ps n"
  by (auto simp: flt_owners_def sget_append dest: sget_Some_less split: if_splits)

text \<open>The life of the world: seccomp(2), fork (a new process entry that then shares its
  parent's chain) and exit. A chain is shared by fewer than \<open>2 ^ 32\<close> referrers.\<close>

definition count_room :: "seccomp_world \<Rightarrow> nat \<Rightarrow> bool" where
  "count_room w parent \<longleftrightarrow>
     (case sget (sw_procs w) parent of None \<Rightarrow> True
      | Some p \<Rightarrow> (case seccomp_filters p of None \<Rightarrow> True
          | Some n \<Rightarrow> (case sget (sw_filters w) n of None \<Rightarrow> True
              | Some f \<Rightarrow> flt_refcount f + 1 \<noteq> 0)))"

inductive seccomp_wstep :: "seccomp_world \<Rightarrow> seccomp_world \<Rightarrow> bool" where
  ws_seccomp: "seccomp_wstep w (fst (sys_seccomp_impl w pi op fl rdx pin kok ui act))"
| ws_fork: "seccomp_filters c = None \<Longrightarrow> count_room w parent \<Longrightarrow> parent < length (sw_procs w) \<Longrightarrow>
     seccomp_filters_share (w\<lparr>sw_procs := sw_procs w @ [Some c]\<rparr>) (length (sw_procs w)) parent = Some w' \<Longrightarrow>
     seccomp_wstep w w'"
| ws_exit: "seccomp_filters_put w pi = Some w' \<Longrightarrow> seccomp_wstep w w'"

lemma owners_same_head:
  assumes "sget ps i = Some p" and "seccomp_filters p' = seccomp_filters p"
  shows "flt_owners (sput ps i p') n = flt_owners ps n"
  using assms by (auto simp: flt_owners_def sget_sput dest: sget_Some_less split: if_splits)

lemma seccomp_set_mode_ok:
  "seccomp_world_ok w \<Longrightarrow> seccomp_world_ok (fst (sys_seccomp_impl w pi op fl rdx pin kok ui act))"
  by (auto simp: sys_seccomp_impl_def seccomp_attach_ok split: option.splits)
    (auto simp: seccomp_world_ok_def owners_same_head)

lemma rc_ok_share:
  assumes ok: "rc_ok h ext" and f: "sget h n = Some f" and room: "flt_refcount f + 1 \<noteq> 0"
  shows "rc_ok (sput h n (f\<lparr>flt_refcount := flt_refcount f + 1\<rparr>)) (bump (Some n) ext)"
proof -
  have "unat (flt_refcount f + 1) = Suc (ext n + card (flt_preds h n))"
    using ok f room unatSuc [of "flt_refcount f"] by (auto simp: rc_ok_def add.commute)
  with ok f room show ?thesis
    unfolding rc_ok_def
    by (auto simp: sget_sput flt_ok_sput_count bump_def dest: sget_Some_less sget_in_slive split: if_splits)
qed

lemma seccomp_share_ok:
  assumes ok: "seccomp_world_ok w" and c: "seccomp_filters c = None"
    and room: "count_room w parent" and par: "parent < length (sw_procs w)"
  shows "\<exists>w'. seccomp_filters_share (w\<lparr>sw_procs := sw_procs w @ [Some c]\<rparr>) (length (sw_procs w)) parent
     = Some w' \<and> seccomp_world_ok w'"
proof (cases "sget (sw_procs w) parent")
  case None
  with ok c par show ?thesis
    by (simp add: seccomp_filters_share_def sget_append seccomp_world_ok_def owners_new)
next
  case (Some p)
  let ?ps = "sw_procs w @ [Some c]" let ?c = "length (sw_procs w)"
  have cs: "sget ?ps ?c = Some c" and ps: "sget ?ps parent = Some p"
    using par Some by (simp_all add: sget_append)
  have "flt_owners (sput ?ps ?c (c\<lparr>seccomp_filters := x\<rparr>)) n =
      (if x = Some n then insert ?c (flt_owners (sw_procs w) n) else flt_owners (sw_procs w) n)" for x n
    by (auto simp: flt_owners_def sget_sput sget_append dest: sget_Some_less split: if_splits)
  moreover have "?c \<notin> flt_owners (sw_procs w) n" for n
    by (auto simp: flt_owners_def dest: sget_Some_less)
  ultimately have ow: "(\<lambda>n. card (flt_owners (sput ?ps ?c (c\<lparr>seccomp_filters := x\<rparr>)) n)) =
      bump x (\<lambda>n. card (flt_owners (sw_procs w) n))" for x
    by (auto simp: fun_eq_iff bump_def)
  show ?thesis
  proof (cases "seccomp_filters p")
    case None
    have "bump None e = e" for e by (auto simp: bump_def)
    with None cs ps ok show ?thesis
      by (simp add: seccomp_filters_share_def seccomp_world_ok_def ow)
  next
    case (Some n)
    have rc: "rc_ok (sw_filters w) (\<lambda>n. card (flt_owners (sw_procs w) n))"
      using ok by (simp add: seccomp_world_ok_def)
    have "parent \<in> flt_owners (sw_procs w) n"
      using Some \<open>sget (sw_procs w) parent = Some p\<close> by (simp add: flt_owners_def)
    then have "0 < card (flt_owners (sw_procs w) n)" by (auto simp: card_gt_0_iff)
    then have "n \<in> slive (sw_filters w)" by (rule rc_ok_live [OF rc])
    then obtain f where f: "sget (sw_filters w) n = Some f" by (auto simp: slive_def)
    then have "flt_refcount f + 1 \<noteq> 0"
      using room Some \<open>sget (sw_procs w) parent = Some p\<close> by (simp add: count_room_def)
    from rc_ok_share [OF rc f this] Some cs ps f show ?thesis
      by (simp add: seccomp_filters_share_def seccomp_world_ok_def ow)
  qed
qed

lemma seccomp_wstep_ok: "seccomp_wstep w w' \<Longrightarrow> seccomp_world_ok w \<Longrightarrow> seccomp_world_ok w'"
proof (induction rule: seccomp_wstep.induct)
  case ws_seccomp
  then show ?case by (rule seccomp_set_mode_ok)
next
  case (ws_fork c w parent w')
  then show ?case using seccomp_share_ok [of w c parent] by auto
next
  case (ws_exit w pi w')
  then show ?case using seccomp_put_ok [of w pi] by auto
qed

lemma seccomp_wsteps_ok: "seccomp_wstep\<^sup>*\<^sup>* w w' \<Longrightarrow> seccomp_world_ok w \<Longrightarrow> seccomp_world_ok w'"
  by (induction rule: rtranclp_induct) (auto intro: seccomp_wstep_ok)

lemma seccomp_init_ok:
  "(\<And>i p. sget ps i = Some p \<Longrightarrow> seccomp_filters p = None) \<Longrightarrow>
   seccomp_world_ok \<lparr>sw_filters = [], sw_procs = ps\<rparr>"
proof -
  assume "\<And>i p. sget ps i = Some p \<Longrightarrow> seccomp_filters p = None"
  then have "flt_owners ps n = {}" for n by (force simp: flt_owners_def)
  then show ?thesis by (simp add: seccomp_world_ok_def rc_ok_def sget_def)
qed

lemma bpf_run_no_oob:
  "bpf_validate insns len \<Longrightarrow> length insns = unat len \<Longrightarrow> length (sd_args sd) = 6 \<Longrightarrow>
   bpf_run insns len sd \<noteq> Some BpfOob"
  using bpf_loop_no_oob [where r = BpfOob] bpf_init_ok unfolding bpf_run_def by blast

lemma seccomp_walk_in_bounds:
  assumes ret: "seccomp_walk h sd x best rank = Some r"
    and "rc_ok h ext" and "length (sd_args sd) = 6" and "\<And>n. x = Some n \<Longrightarrow> n \<in> slive h"
  shows "r \<noteq> BpfOob"
proof -
  let ?P = "\<lambda>h sd x best (rank :: nat) r. rc_ok h ext \<longrightarrow> length (sd_args sd) = 6 \<longrightarrow>
    (\<forall>n. x = Some n \<longrightarrow> n \<in> slive h) \<longrightarrow> r \<noteq> BpfOob"
  have "?P h sd x best rank r"
  proof (rule seccomp_walk.raw_induct [where P = ?P, OF _ ret], intro impI)
    fix walk h sd x best and rank :: nat and r
    assume IH: "\<And>h sd x best rank r. walk h sd x best rank = Some r \<Longrightarrow> ?P h sd x best rank r"
      and eq: "(case x of None \<Rightarrow> Some (BpfRet best)
        | Some n \<Rightarrow> (case sget h n of None \<Rightarrow> Some BpfOob
           | Some flt \<Rightarrow> Option.bind (bpf_run (flt_insns flt) (flt_len flt) sd)
                 (\<lambda>r. case r of BpfRet action \<Rightarrow>
                        if seccomp_action_rank action < rank
                        then walk h sd (flt_prev flt) action (seccomp_action_rank action)
                        else walk h sd (flt_prev flt) best rank
                    | BpfOob \<Rightarrow> Some BpfOob))) = Some r"
      and rc: "rc_ok h ext" and args: "length (sd_args sd) = 6"
      and live: "\<forall>n. x = Some n \<longrightarrow> n \<in> slive h"
    show "r \<noteq> BpfOob"
    proof (cases x)
      case None with eq show ?thesis by auto
    next
      case (Some n)
      with live obtain f where f: "sget h n = Some f" by (auto simp: slive_def)
      then have fo: "flt_ok h n f" by (rule rc_ok_flt [OF rc])
      then have nob: "bpf_run (flt_insns f) (flt_len f) sd \<noteq> Some BpfOob"
        using bpf_run_no_oob [OF _ _ args] by (simp add: flt_ok_def)
      have "\<forall>k. flt_prev f = Some k \<longrightarrow> k \<in> slive h" using fo by (auto simp: flt_ok_def)
      then have next_ok: "walk h sd (flt_prev f) b k \<noteq> Some BpfOob" for b k
        using IH rc args by blast
      from eq Some f obtain y where y: "bpf_run (flt_insns f) (flt_len f) sd = Some y"
        by (auto simp: bind_eq_Some_conv)
      with Some f eq nob next_ok show ?thesis
        by (cases y) (auto split: if_splits)
    qed
  qed
  with assms show ?thesis by blast
qed

text \<open>C5: Start from any set of processes without filters and let processes install
  filters, fork and exit in any order: no operation ever follows a pointer to a freed
  filter, every filter's count is the number of chains and processes that refer to it,
  and running a process's chain never reads out of bounds.\<close>

theorem seccomp_chains_safe:
  assumes init: "\<And>i p. sget ps i = Some p \<Longrightarrow> seccomp_filters p = None"
    and steps: "seccomp_wstep\<^sup>*\<^sup>* \<lparr>sw_filters = [], sw_procs = ps\<rparr> w"
  shows "(\<forall>pi. seccomp_filters_put w pi \<noteq> None) \<and>
     (\<forall>n f. sget (sw_filters w) n = Some f \<longrightarrow>
        unat (flt_refcount f) = card (flt_owners (sw_procs w) n) + card (flt_preds (sw_filters w) n) \<and>
        flt_refcount f \<noteq> 0) \<and>
     (\<forall>pi p nr regs. sget (sw_procs w) pi = Some p \<longrightarrow>
        seccomp_filter_run (sw_filters w) p nr regs \<noteq> Some BpfOob)"
proof -
  have ok: "seccomp_world_ok w"
    by (rule seccomp_wsteps_ok [OF steps seccomp_init_ok]) (rule init)
  then have rc: "rc_ok (sw_filters w) (\<lambda>n. card (flt_owners (sw_procs w) n))"
    by (simp add: seccomp_world_ok_def)
  have "seccomp_filter_run (sw_filters w) p nr regs \<noteq> Some BpfOob"
    if p: "sget (sw_procs w) pi = Some p" for pi p nr regs
  proof -
    have "n \<in> slive (sw_filters w)" if "seccomp_filters p = Some n" for n
    proof -
      have "pi \<in> flt_owners (sw_procs w) n" using p that by (simp add: flt_owners_def)
      then show ?thesis by (intro rc_ok_live [OF rc]) (auto simp: card_gt_0_iff)
    qed
    moreover have "length (sd_args (seccomp_data_of nr regs)) = 6" by (simp add: seccomp_data_of_def)
    ultimately show ?thesis
      using seccomp_walk_in_bounds [OF _ rc, where r = BpfOob]
      by (simp add: seccomp_filter_run_def) blast
  qed
  moreover have "\<forall>pi. seccomp_filters_put w pi \<noteq> None"
    using seccomp_put_ok [OF ok] by (metis option.distinct(1))
  ultimately show ?thesis using rc by (auto simp: rc_ok_def)
qed

definition attach_world :: seccomp_world where
  "attach_world = fst (sys_seccomp_impl \<lparr>sw_filters = [], sw_procs = [Some example_process]\<rparr> 0 1 0 1
      (Some (4, 1)) True (\<lambda>i. Some (allow_read_prog ! i)) None)"

theorem seccomp_chains_safe_witness:
  "(\<exists>f. sget (sw_filters attach_world) 0 = Some f \<and> unat (flt_refcount f) =
       card (flt_owners (sw_procs attach_world) 0) + card (flt_preds (sw_filters attach_world) 0)) \<and>
   seccomp_filters_put attach_world 0 \<noteq> None"
proof -
  have init: "sget [Some example_process] i = Some p \<Longrightarrow> seccomp_filters p = None" for i p
    by (auto simp: sget_def example_process_def split: if_splits)
  have "seccomp_wstep\<^sup>*\<^sup>* \<lparr>sw_filters = [], sw_procs = [Some example_process]\<rparr> attach_world"
    unfolding attach_world_def by (intro r_into_rtranclp ws_seccomp)
  from seccomp_chains_safe [OF init this]
  have safe: "\<forall>n f. sget (sw_filters attach_world) n = Some f \<longrightarrow> unat (flt_refcount f) =
       card (flt_owners (sw_procs attach_world) n) + card (flt_preds (sw_filters attach_world) n)"
    "seccomp_filters_put attach_world 0 \<noteq> None"
    by auto
  have "\<exists>f. sget (sw_filters attach_world) 0 = Some f"
    using allow_read_validates
    by (simp add: attach_world_def sys_seccomp_impl_def seccomp_attach_filter_def sget_def
        BPF_MAXINSNS_def snew_def Let_def example_process_def)
      (simp add: allow_read_prog_def)
  with safe show ?thesis by blast
qed

end
