(* ===== verification/Kv_Table.thy ===== *)
theory Kv_Table
  imports Az_Prelude
begin

text \<open>
  The interface of a keyed table: the contract that the ACL cache and the other
  tables looked up by key offer to their clients, and what a client may conclude
  about a sequence of insertions and deletions.
\<close>

locale kv_table =
  fixes inv :: "'t \<Rightarrow> bool"
    and lookup :: "'t \<Rightarrow> 'k \<Rightarrow> 'v option"
    and put :: "'t \<Rightarrow> 'k \<Rightarrow> 'v \<Rightarrow> 't"
    and del :: "'t \<Rightarrow> 'k \<Rightarrow> 't"
    and valid :: "'v \<Rightarrow> bool"
  assumes inv_put: "inv t \<Longrightarrow> valid v \<Longrightarrow> inv (put t k v)"
    and inv_del: "inv t \<Longrightarrow> inv (del t k)"
    and lookup_put: "inv t \<Longrightarrow> valid v \<Longrightarrow> lookup (put t k v) k' = (if k' = k then Some v else lookup t k')"
    and lookup_del: "inv t \<Longrightarrow> lookup (del t k) k' = (if k' = k then None else lookup t k')"
begin

text \<open>A client's requests: a pair of a key and the new value, \<open>None\<close> to delete. A value
  that is stored has to be one the table accepts.\<close>

abbreviation (input) valid_req :: "'k \<times> 'v option \<Rightarrow> bool" where
  "valid_req r \<equiv> (\<forall>v. snd r = Some v \<longrightarrow> valid v)"

abbreviation (input) apply_req :: "'t \<Rightarrow> 'k \<times> 'v option \<Rightarrow> 't" where
  "apply_req t r \<equiv> (case snd r of None \<Rightarrow> del t (fst r) | Some v \<Rightarrow> put t (fst r) v)"

lemma inv_apply: "inv t \<Longrightarrow> valid_req r \<Longrightarrow> inv (apply_req t r)"
  by (simp add: inv_put inv_del split: option.splits)

lemma lookup_apply:
  "inv t \<Longrightarrow> valid_req r \<Longrightarrow> lookup (apply_req t r) k = (if k = fst r then snd r else lookup t k)"
  by (simp add: lookup_put lookup_del split: option.splits)

lemma inv_run: "inv t \<Longrightarrow> list_all valid_req rs \<Longrightarrow> inv (foldl apply_req t rs)"
proof (induction rs arbitrary: t)
  case (Cons r rs)
  from Cons.prems(2) have r: "valid_req r" and rs: "list_all valid_req rs" by simp_all
  from Cons.IH [OF inv_apply [OF Cons.prems(1) r] rs] show ?case by simp
qed simp

lemma lookup_run:
  "inv t \<Longrightarrow> list_all valid_req rs \<Longrightarrow> lookup (foldl apply_req t rs) k =
     (case map_of (rev rs) k of None \<Rightarrow> lookup t k | Some ov \<Rightarrow> ov)"
proof (induction rs arbitrary: t rule: rev_induct)
  case Nil
  then show ?case by simp
next
  case (snoc r rs)
  from snoc.prems(2) have r: "valid_req r" and rs: "list_all valid_req rs" by simp_all
  from lookup_apply [OF inv_run [OF snoc.prems(1) rs] r, of k] snoc.IH [OF snoc.prems(1) rs]
  show ?case by simp
qed

lemma lookup_run_last:
  assumes "inv t" and "list_all valid_req rs" and "valid_req (k, ov)"
    and "k \<notin> fst ` set rs"
  shows "lookup (foldl apply_req t ((k, ov) # rs)) k = ov"
proof -
  from assms(4) have "map_of (rev rs) k = None" by (simp add: map_of_eq_None_iff)
  then have "map_of (rev rs @ [(k, ov)]) k = Some ov" by (simp add: map_add_def)
  moreover have "lookup (foldl apply_req t ((k, ov) # rs)) k =
      (case map_of (rev ((k, ov) # rs)) k of None \<Rightarrow> lookup t k | Some ov \<Rightarrow> ov)"
    by (rule lookup_run [OF assms(1)]) (use assms(2,3) in simp)
  ultimately show ?thesis by simp
qed

end

end
