(* ===== verification/Acl.thy ===== *)
theory Acl
  imports Kv_Table Capabilities
begin

text \<open>
  The POSIX access control lists of \<^verbatim>\<open>kernel/security/acl.c\<close>: the hash table of
  extended ACLs keyed by inode number and superblock, and the permission check.
  A bucket is the list of the nodes on its chain, newest first; a table's array is the
  list of its \<open>count\<close> valid entries. The spinlock makes every operation one step.
\<close>

section \<open>Data\<close>

record inode =
  i_ino :: u64
  i_sb :: u64
  i_mode :: u32
  i_uid :: u32
  i_gid :: u32

abbreviation (input) "ACL_USER_OBJ \<equiv> (1 :: u32)"
abbreviation (input) "ACL_USER \<equiv> (2 :: u32)"
abbreviation (input) "ACL_GROUP_OBJ \<equiv> (3 :: u32)"
abbreviation (input) "ACL_GROUP \<equiv> (4 :: u32)"
abbreviation (input) "ACL_MASK \<equiv> (5 :: u32)"
abbreviation (input) "ACL_OTHER \<equiv> (6 :: u32)"

definition ACL_MAX_ENTRIES :: int where "ACL_MAX_ENTRIES = 32"
definition ACL_NODE_MAP_SIZE :: nat where "ACL_NODE_MAP_SIZE = 256"

record acl_entry =
  ae_tag :: u32
  ae_id :: u32
  ae_perms :: u32

record acl_node_entry =
  an_ino :: u64
  an_sb :: u64
  an_acl :: "acl_entry list"

type_synonym acl_table = "acl_node_entry list list"

section \<open>The table\<close>

definition acl_hash :: "u64 \<Rightarrow> u64 \<Rightarrow> nat" where
  "acl_hash ino sb = unat (drop_bit 4 (ino XOR sb)) mod ACL_NODE_MAP_SIZE"

definition acl_init :: acl_table where
  "acl_init = replicate ACL_NODE_MAP_SIZE []"

definition acl_node_is :: "u64 \<Rightarrow> u64 \<Rightarrow> acl_node_entry \<Rightarrow> bool" where
  "acl_node_is ino sb cur \<longleftrightarrow> an_ino cur = ino \<and> an_sb cur = sb"

text \<open>The walk along a bucket, which stops at the first node of the key.\<close>

fun acl_walk :: "u64 \<Rightarrow> u64 \<Rightarrow> acl_node_entry list \<Rightarrow> acl_node_entry option" where
  "acl_walk ino sb [] = None"
| "acl_walk ino sb (cur # rest) =
     (if acl_node_is ino sb cur then Some cur else acl_walk ino sb rest)"

definition acl_base_entries :: "inode \<Rightarrow> acl_entry list" where
  "acl_base_entries ino =
     [\<lparr>ae_tag = ACL_USER_OBJ, ae_id = i_uid ino, ae_perms = drop_bit 6 (i_mode ino) AND 7\<rparr>,
      \<lparr>ae_tag = ACL_GROUP_OBJ, ae_id = i_gid ino, ae_perms = drop_bit 3 (i_mode ino) AND 7\<rparr>,
      \<lparr>ae_tag = ACL_OTHER, ae_id = 0, ae_perms = i_mode ino AND 7\<rparr>]"

text \<open>The entries written to the caller's buffer; the C function returns their number.\<close>

definition acl_get_for_inode ::
    "acl_table \<Rightarrow> inode option \<Rightarrow> bool \<Rightarrow> int \<Rightarrow> errno + acl_entry list" where
  "acl_get_for_inode tbl inode out_entries max_entries =
     (case inode of None \<Rightarrow> Inl EINVAL
      | Some ino \<Rightarrow>
          if \<not> out_entries \<or> max_entries \<le> 0 then Inl EINVAL
          else (case acl_walk (i_ino ino) (i_sb ino) (tbl ! acl_hash (i_ino ino) (i_sb ino)) of
                  Some cur \<Rightarrow>
                    (let count = int (length (an_acl cur));
                         count' = (if count > max_entries then max_entries else count)
                     in Inr (take (nat count') (an_acl cur)))
                | None \<Rightarrow>
                    if max_entries < 3 then Inl ERANGE else Inr (acl_base_entries ino)))"

text \<open>
  The loop of \<^verbatim>\<open>acl_set_for_inode\<close> over a bucket: \<open>None\<close> when no node has the key,
  otherwise the new chain, without the node when \<open>new\<close> is \<open>None\<close>.
\<close>

fun acl_bucket_replace ::
    "u64 \<Rightarrow> u64 \<Rightarrow> acl_entry list option \<Rightarrow> acl_node_entry list \<Rightarrow> acl_node_entry list option" where
  "acl_bucket_replace ino sb new [] = None"
| "acl_bucket_replace ino sb new (cur # rest) =
     (if acl_node_is ino sb cur then
        (case new of None \<Rightarrow> Some rest
         | Some es \<Rightarrow> Some (cur\<lparr>an_acl := es\<rparr> # rest))
      else map_option ((#) cur) (acl_bucket_replace ino sb new rest))"

text \<open>
  Setting an ACL. \<open>entries\<close> is the caller's array, \<open>None\<close> the null pointer, and
  \<open>kmalloc_ok\<close> whether an allocation succeeds. Copying from the null pointer is the
  outer \<open>None\<close>.
\<close>

definition acl_set_for_inode ::
    "acl_table \<Rightarrow> inode option \<Rightarrow> acl_entry list option \<Rightarrow> int \<Rightarrow> bool
       \<Rightarrow> (acl_table \<times> (errno + unit)) option" where
  "acl_set_for_inode tbl inode entries count kmalloc_ok =
     (case inode of None \<Rightarrow> Some (tbl, Inl EINVAL)
      | Some ino \<Rightarrow>
          if count < 0 \<or> count > ACL_MAX_ENTRIES then Some (tbl, Inl EINVAL)
          else (let h = acl_hash (i_ino ino) (i_sb ino);
                    src = map_option (take (nat count)) entries;
                    new = (if count = 0 then None else src)
                in case acl_walk (i_ino ino) (i_sb ino) (tbl ! h) of
                     Some cur \<Rightarrow>
                       (if count \<noteq> 0 \<and> entries = None then None
                        else (case acl_bucket_replace (i_ino ino) (i_sb ino) new (tbl ! h) of
                                None \<Rightarrow> Some (tbl, Inr ())
                              | Some b \<Rightarrow> Some (tbl[h := b], Inr ())))
                   | None \<Rightarrow>
                       (case entries of None \<Rightarrow> Some (tbl, Inr ())
                        | Some es \<Rightarrow>
                            if count > 0 then
                              (if \<not> kmalloc_ok then Some (tbl, Inl ENOMEM)
                               else Some (tbl[h := \<lparr>an_ino = i_ino ino, an_sb = i_sb ino,
                                                   an_acl = take (nat count) es\<rparr> # tbl ! h], Inr ()))
                            else Some (tbl, Inr ()))))"

section \<open>The permission check\<close>

definition acl_grants :: "u32 \<Rightarrow> u32 \<Rightarrow> bool" where
  "acl_grants perms requested_mode \<longleftrightarrow> perms AND requested_mode = requested_mode"

definition acl_mode_check :: "inode \<Rightarrow> u32 \<Rightarrow> u32 \<Rightarrow> u32 \<Rightarrow> bool" where
  "acl_mode_check ino uid gid requested_mode =
     (if uid = i_uid ino then acl_grants (drop_bit 6 (i_mode ino) AND 7) requested_mode
      else if gid = i_gid ino then acl_grants (drop_bit 3 (i_mode ino) AND 7) requested_mode
      else acl_grants (i_mode ino AND 7) requested_mode)"

text \<open>The first loop: the mask entry, if there is one.\<close>

fun acl_find_mask :: "acl_entry list \<Rightarrow> u32 option" where
  "acl_find_mask [] = None"
| "acl_find_mask (e # es) = (if ae_tag e = ACL_MASK then Some (ae_perms e) else acl_find_mask es)"

definition acl_effective :: "u32 option \<Rightarrow> acl_entry \<Rightarrow> u32" where
  "acl_effective msk e = (case msk of None \<Rightarrow> ae_perms e | Some mk \<Rightarrow> ae_perms e AND mk)"

text \<open>The second and third loops: the decision of the first owner or named-user entry.\<close>

fun acl_owner_loop :: "inode \<Rightarrow> u32 \<Rightarrow> u32 \<Rightarrow> acl_entry list \<Rightarrow> bool option" where
  "acl_owner_loop ino uid req [] = None"
| "acl_owner_loop ino uid req (e # es) =
     (if ae_tag e = ACL_USER_OBJ \<and> uid = i_uid ino then Some (acl_grants (ae_perms e) req)
      else acl_owner_loop ino uid req es)"

fun acl_user_loop :: "u32 option \<Rightarrow> u32 \<Rightarrow> u32 \<Rightarrow> acl_entry list \<Rightarrow> bool option" where
  "acl_user_loop msk uid req [] = None"
| "acl_user_loop msk uid req (e # es) =
     (if ae_tag e = ACL_USER \<and> ae_id e = uid then Some (acl_grants (acl_effective msk e) req)
      else acl_user_loop msk uid req es)"

text \<open>The group loop: some matching entry must grant the request; \<open>matched\<close> is the
  flag the loop carries.\<close>

definition acl_group_match :: "inode \<Rightarrow> u32 \<Rightarrow> acl_entry \<Rightarrow> bool" where
  "acl_group_match ino gid e \<longleftrightarrow>
     ae_tag e = ACL_GROUP_OBJ \<and> gid = i_gid ino \<or> ae_tag e = ACL_GROUP \<and> ae_id e = gid"

fun acl_group_loop ::
    "u32 option \<Rightarrow> inode \<Rightarrow> u32 \<Rightarrow> u32 \<Rightarrow> bool \<Rightarrow> acl_entry list \<Rightarrow> bool option" where
  "acl_group_loop msk ino gid req matched [] = (if matched then Some False else None)"
| "acl_group_loop msk ino gid req matched (e # es) =
     (if acl_group_match ino gid e then
        (if acl_grants (acl_effective msk e) req then Some True
         else acl_group_loop msk ino gid req True es)
      else acl_group_loop msk ino gid req matched es)"

fun acl_other_loop :: "u32 \<Rightarrow> acl_entry list \<Rightarrow> bool" where
  "acl_other_loop req [] = False"
| "acl_other_loop req (e # es) =
     (if ae_tag e = ACL_OTHER then acl_grants (ae_perms e) req else acl_other_loop req es)"

definition acl_decide :: "acl_entry list \<Rightarrow> inode \<Rightarrow> u32 \<Rightarrow> u32 \<Rightarrow> u32 \<Rightarrow> bool" where
  "acl_decide entries ino uid gid req =
     (let msk = acl_find_mask entries
      in case acl_owner_loop ino uid req entries of Some b \<Rightarrow> b
         | None \<Rightarrow> (case acl_user_loop msk uid req entries of Some b \<Rightarrow> b
             | None \<Rightarrow> (case acl_group_loop msk ino gid req False entries of Some b \<Rightarrow> b
                 | None \<Rightarrow> acl_other_loop req entries)))"

definition acl_check_permission ::
    "acl_table \<Rightarrow> inode option \<Rightarrow> u32 \<Rightarrow> u32 \<Rightarrow> u32 \<Rightarrow> bool" where
  "acl_check_permission tbl inode uid gid requested_mode =
     (case inode of None \<Rightarrow> False
      | Some ino \<Rightarrow>
          if uid = 0 then True
          else (case acl_get_for_inode tbl inode True ACL_MAX_ENTRIES of
                  Inl e \<Rightarrow> acl_mode_check ino uid gid requested_mode
                | Inr entries \<Rightarrow>
                    if entries = [] then acl_mode_check ino uid gid requested_mode
                    else acl_decide entries ino uid gid requested_mode))"

section \<open>The system calls\<close>

text \<open>
  getfacl and setfacl. \<open>resolved\<close> is the outcome of copying the path from user memory and
  looking it up, \<open>out_ok\<close> whether the copy to user memory succeeds and \<open>entries_in\<close> the
  user's array as \<^verbatim>\<open>copy_from_user\<close> reads it.
\<close>

definition sys_getfacl_impl ::
    "acl_table \<Rightarrow> u64 \<Rightarrow> u64 \<Rightarrow> int \<Rightarrow> errno + inode \<Rightarrow> bool \<Rightarrow> errno + acl_entry list" where
  "sys_getfacl_impl tbl user_path user_entries max_entries resolved out_ok =
     (if user_path = 0 \<or> user_entries = 0 \<or> max_entries \<le> 0 then Inl EINVAL
      else if user_path \<ge> TASK_SIZE_MAX then Inl EFAULT
      else if user_entries \<ge> TASK_SIZE_MAX then Inl EFAULT
      else (case resolved of Inl e \<Rightarrow> Inl e
        | Inr ino \<Rightarrow>
            (case acl_get_for_inode tbl (Some ino) True
                    (if max_entries > ACL_MAX_ENTRIES then ACL_MAX_ENTRIES else max_entries) of
               Inl e \<Rightarrow> Inl e
             | Inr es \<Rightarrow> if out_ok then Inr es else Inl EFAULT)))"

definition sys_setfacl_impl ::
    "acl_table \<Rightarrow> u64 \<Rightarrow> u64 \<Rightarrow> int \<Rightarrow> errno + inode \<Rightarrow> acl_entry list option \<Rightarrow> bool
       \<Rightarrow> (acl_table \<times> (errno + unit)) option" where
  "sys_setfacl_impl tbl user_path user_entries count resolved entries_in kmalloc_ok =
     (if user_path = 0 \<or> count < 0 \<or> count > ACL_MAX_ENTRIES then Some (tbl, Inl EINVAL)
      else if user_path \<ge> TASK_SIZE_MAX then Some (tbl, Inl EFAULT)
      else if count > 0 \<and> (user_entries = 0 \<or> user_entries \<ge> TASK_SIZE_MAX)
      then Some (tbl, Inl EFAULT)
      else (case resolved of Inl e \<Rightarrow> Some (tbl, Inl e)
        | Inr ino \<Rightarrow>
            if count > 0 \<and> entries_in = None then Some (tbl, Inl EFAULT)
            else acl_set_for_inode tbl (Some ino) (if count > 0 then entries_in else None)
                   count kmalloc_ok))"

section \<open>The table refines a map\<close>

definition acl_bucket_ok :: "nat \<Rightarrow> acl_node_entry list \<Rightarrow> bool" where
  "acl_bucket_ok h b \<longleftrightarrow> distinct (map (\<lambda>e. (an_ino e, an_sb e)) b) \<and>
     (\<forall>e \<in> set b. acl_hash (an_ino e) (an_sb e) = h \<and> an_acl e \<noteq> [] \<and>
        length (an_acl e) \<le> nat ACL_MAX_ENTRIES)"

definition acl_wf :: "acl_table \<Rightarrow> bool" where
  "acl_wf tbl \<longleftrightarrow> length tbl = ACL_NODE_MAP_SIZE \<and>
     (\<forall>h < ACL_NODE_MAP_SIZE. acl_bucket_ok h (tbl ! h))"

definition acl_lookup :: "acl_table \<Rightarrow> u64 \<times> u64 \<Rightarrow> acl_entry list option" where
  "acl_lookup tbl k =
     map_option an_acl (acl_walk (fst k) (snd k) (tbl ! acl_hash (fst k) (snd k)))"

lemma acl_hash_less [simp]: "acl_hash a b < ACL_NODE_MAP_SIZE"
  by (simp add: acl_hash_def ACL_NODE_MAP_SIZE_def)

lemma acl_walk_None: "acl_walk i s es = None \<longleftrightarrow> (i, s) \<notin> (\<lambda>e. (an_ino e, an_sb e)) ` set es"
  by (induction es) (auto simp: acl_node_is_def)

lemma acl_walk_SomeD: "acl_walk i s es = Some e \<Longrightarrow> e \<in> set es \<and> an_ino e = i \<and> an_sb e = s"
  by (induction es) (auto simp: acl_node_is_def split: if_splits)

lemma acl_replace_walk:
  "acl_walk i s es = Some cur \<Longrightarrow> distinct (map (\<lambda>e. (an_ino e, an_sb e)) es) \<Longrightarrow>
   \<exists>b. acl_bucket_replace i s new es = Some b \<and>
     (\<forall>i' s'. map_option an_acl (acl_walk i' s' b) =
        (if i' = i \<and> s' = s then new else map_option an_acl (acl_walk i' s' es))) \<and>
     distinct (map (\<lambda>e. (an_ino e, an_sb e)) b) \<and>
     (\<forall>e \<in> set b. e \<in> set es \<or> (\<exists>l. new = Some l \<and> e = cur\<lparr>an_acl := l\<rparr>))"
proof (induction es)
  case (Cons e es)
  show ?case
  proof (cases "acl_node_is i s e")
    case True
    have "acl_walk i s es = None"
      using True Cons.prems(2) by (auto simp: acl_walk_None acl_node_is_def)
    with True Cons.prems show ?thesis
      by (auto simp: acl_node_is_def split: option.splits if_splits)
  next
    case False
    with Cons obtain b where b: "acl_bucket_replace i s new es = Some b"
      "\<forall>i' s'. map_option an_acl (acl_walk i' s' b) =
        (if i' = i \<and> s' = s then new else map_option an_acl (acl_walk i' s' es))"
      "distinct (map (\<lambda>e. (an_ino e, an_sb e)) b)"
      "\<forall>e \<in> set b. e \<in> set es \<or> (\<exists>l. new = Some l \<and> e = cur\<lparr>an_acl := l\<rparr>)"
      by auto
    have cur: "cur \<in> set es" "an_ino cur = i" "an_sb cur = s"
      using Cons.prems(1) False acl_walk_SomeD [of i s es cur] by auto
    have "(an_ino e, an_sb e) \<notin> (\<lambda>e. (an_ino e, an_sb e)) ` set b"
      using b(4) Cons.prems(2) cur by force
    with False b Cons.prems(2) show ?thesis by (auto simp: acl_node_is_def)
  qed
qed simp

abbreviation (input) inode_key :: "inode \<Rightarrow> u64 \<times> u64" where
  "inode_key ino \<equiv> (i_ino ino, i_sb ino)"

lemma acl_lookup_upd:
  assumes "length tbl = ACL_NODE_MAP_SIZE"
    and "\<And>i s. acl_hash i s = h \<Longrightarrow> map_option an_acl (acl_walk i s b) =
       (if (i, s) = k then v else map_option an_acl (acl_walk i s (tbl ! h)))"
    and "acl_hash (fst k) (snd k) = h"
  shows "acl_lookup (tbl[h := b]) k' = (if k' = k then v else acl_lookup tbl k')"
proof -
  have "h < length tbl" using assms(1,3) acl_hash_less by metis
  with assms(2) [of "fst k'" "snd k'"] assms(3) show ?thesis
    by (cases k'; cases k) (auto simp: acl_lookup_def nth_list_update)
qed

lemma acl_wf_upd:
  assumes "acl_wf tbl" "acl_bucket_ok h b"
  shows "acl_wf (tbl[h := b])"
  unfolding acl_wf_def
proof (intro conjI allI impI)
  fix h' assume "h' < ACL_NODE_MAP_SIZE"
  with assms show "acl_bucket_ok h' (tbl[h := b] ! h')"
    by (cases "h = h'") (simp_all add: acl_wf_def)
qed (use assms in \<open>simp add: acl_wf_def\<close>)

text \<open>What \<^verbatim>\<open>acl_set_for_inode\<close> does, as an update of the map.\<close>

lemma acl_set_refines:
  assumes wf: "acl_wf tbl" and cnt: "0 \<le> count" "count \<le> ACL_MAX_ENTRIES"
    and src: "0 < count \<Longrightarrow> \<exists>es. entries = Some es \<and> nat count \<le> length es"
    and mem: "kmalloc_ok \<or> acl_lookup tbl (inode_key ino) \<noteq> None"
  shows "\<exists>tbl'. acl_set_for_inode tbl (Some ino) entries count kmalloc_ok = Some (tbl', Inr ()) \<and>
     acl_wf tbl' \<and>
     acl_lookup tbl' = (acl_lookup tbl)(inode_key ino :=
        (if count = 0 then None else map_option (take (nat count)) entries))"
proof -
  let ?h = "acl_hash (i_ino ino) (i_sb ino)"
  let ?new = "if count = 0 then None else map_option (take (nat count)) entries"
  have bk: "distinct (map (\<lambda>e. (an_ino e, an_sb e)) (tbl ! ?h))"
    "\<forall>e \<in> set (tbl ! ?h). acl_hash (an_ino e) (an_sb e) = ?h \<and> an_acl e \<noteq> [] \<and>
       length (an_acl e) \<le> nat ACL_MAX_ENTRIES"
    using wf acl_hash_less unfolding acl_wf_def acl_bucket_ok_def by blast+
  have len: "length tbl = ACL_NODE_MAP_SIZE" using wf by (simp add: acl_wf_def)
  have newok: "\<And>l. ?new = Some l \<Longrightarrow> l \<noteq> [] \<and> length l \<le> nat ACL_MAX_ENTRIES"
    using cnt src by (auto simp: min_def split: if_splits)
  have nn: "\<not> (count \<noteq> 0 \<and> entries = None)"
  proof
    assume a: "count \<noteq> 0 \<and> entries = None"
    with cnt(1) have "0 < count" by simp
    from src [OF this] a show False by simp
  qed
  show ?thesis
  proof (cases "acl_walk (i_ino ino) (i_sb ino) (tbl ! ?h)")
    case (Some cur)
    from acl_replace_walk [OF Some bk(1), of ?new] obtain b
      where b: "acl_bucket_replace (i_ino ino) (i_sb ino) ?new (tbl ! ?h) = Some b"
        "\<And>i' s'. map_option an_acl (acl_walk i' s' b) = (if i' = i_ino ino \<and> s' = i_sb ino then ?new
            else map_option an_acl (acl_walk i' s' (tbl ! ?h)))"
        "distinct (map (\<lambda>e. (an_ino e, an_sb e)) b)"
        "\<And>e. e \<in> set b \<Longrightarrow> e \<in> set (tbl ! ?h) \<or> (\<exists>l. ?new = Some l \<and> e = cur\<lparr>an_acl := l\<rparr>)"
      by blast
    have "acl_wf (tbl[?h := b])"
    proof (rule acl_wf_upd [OF wf], unfold acl_bucket_ok_def, intro conjI b(3) ballI)
      fix e assume "e \<in> set b"
      from b(4) [OF this] show "acl_hash (an_ino e) (an_sb e) = ?h" "an_acl e \<noteq> []"
        "length (an_acl e) \<le> nat ACL_MAX_ENTRIES"
        using bk(2) newok acl_walk_SomeD [OF Some] by auto
    qed
    moreover have "acl_lookup (tbl[?h := b]) = (acl_lookup tbl)(inode_key ino := ?new)"
      by (rule ext, subst acl_lookup_upd [OF len, where k = "inode_key ino" and v = ?new])
        (auto simp: b(2))
    moreover have "acl_set_for_inode tbl (Some ino) entries count kmalloc_ok = Some (tbl[?h := b], Inr ())"
      using cnt(2) cnt(1) nn Some b(1) by (simp add: acl_set_for_inode_def Let_def)
    ultimately show ?thesis by blast
  next
    case None
    then have absent: "acl_lookup tbl (inode_key ino) = None" by (simp add: acl_lookup_def)
    show ?thesis
    proof (cases "count = 0")
      case True
      with None have "acl_set_for_inode tbl (Some ino) entries count kmalloc_ok = Some (tbl, Inr ())"
        by (cases entries) (simp_all add: acl_set_for_inode_def Let_def ACL_MAX_ENTRIES_def)
      moreover have "acl_lookup tbl = (acl_lookup tbl)(inode_key ino := None)"
        using absent by (simp add: fun_upd_idem)
      ultimately show ?thesis using wf True by simp
    next
      case False
      with cnt src obtain es where es: "entries = Some es" "nat count \<le> length es" by auto
      let ?n = "\<lparr>an_ino = i_ino ino, an_sb = i_sb ino, an_acl = take (nat count) es\<rparr>"
      have "acl_wf (tbl[?h := ?n # tbl ! ?h])"
        by (rule acl_wf_upd [OF wf])
          (use bk None newok es False in \<open>auto simp: acl_bucket_ok_def acl_walk_None image_iff\<close>)
      moreover have "acl_lookup (tbl[?h := ?n # tbl ! ?h]) k' =
          (if k' = inode_key ino then ?new else acl_lookup tbl k')" for k'
      proof (rule acl_lookup_upd [OF len])
        fix i s
        show "map_option an_acl (acl_walk i s (?n # tbl ! ?h)) =
            (if (i, s) = inode_key ino then ?new else map_option an_acl (acl_walk i s (tbl ! ?h)))"
          using False by (auto simp: acl_node_is_def es(1))
      qed simp
      then have "acl_lookup (tbl[?h := ?n # tbl ! ?h]) = (acl_lookup tbl)(inode_key ino := ?new)"
        by (simp add: fun_eq_iff)
      moreover have "acl_set_for_inode tbl (Some ino) entries count kmalloc_ok =
          Some (tbl[?h := ?n # tbl ! ?h], Inr ())"
        using cnt False None es mem absent by (auto simp: acl_set_for_inode_def Let_def)
      ultimately show ?thesis by blast
    qed
  qed
qed

lemma acl_init_wf: "acl_wf acl_init" "acl_lookup acl_init k = None"
  by (simp_all add: acl_wf_def acl_bucket_ok_def acl_init_def acl_lookup_def)

text \<open>The table as its clients use it, with memory available: storing the entries under a
  key, removing them, and the lists the table accepts.\<close>

definition acl_valid :: "acl_entry list \<Rightarrow> bool" where
  "acl_valid es \<longleftrightarrow> es \<noteq> [] \<and> int (length es) \<le> ACL_MAX_ENTRIES"

definition acl_update :: "acl_table \<Rightarrow> inode \<Rightarrow> acl_entry list \<Rightarrow> acl_table" where
  "acl_update tbl ino es =
     (case acl_set_for_inode tbl (Some ino) (if es = [] then None else Some es) (int (length es)) True of
        None \<Rightarrow> tbl | Some (tbl', r) \<Rightarrow> tbl')"

definition key_inode :: "u64 \<times> u64 \<Rightarrow> inode" where
  "key_inode k = \<lparr>i_ino = fst k, i_sb = snd k, i_mode = 0, i_uid = 0, i_gid = 0\<rparr>"

lemma acl_update_refines:
  assumes "acl_wf tbl" and "es = [] \<or> acl_valid es"
  shows "acl_wf (acl_update tbl ino es) \<and>
    acl_lookup (acl_update tbl ino es) =
      (acl_lookup tbl)(inode_key ino := (if es = [] then None else Some es))"
proof -
  have "\<exists>tbl'. acl_set_for_inode tbl (Some ino) (if es = [] then None else Some es) (int (length es)) True
       = Some (tbl', Inr ()) \<and> acl_wf tbl' \<and>
     acl_lookup tbl' = (acl_lookup tbl)(inode_key ino :=
        (if int (length es) = 0 then None
         else map_option (take (nat (int (length es)))) (if es = [] then None else Some es)))"
    by (rule acl_set_refines) (use assms in \<open>auto simp: acl_valid_def ACL_MAX_ENTRIES_def\<close>)
  then show ?thesis by (auto simp: acl_update_def)
qed

interpretation acl: kv_table acl_wf acl_lookup "\<lambda>t k es. acl_update t (key_inode k) es"
    "\<lambda>t k. acl_update t (key_inode k) []" acl_valid
  by unfold_locales (use acl_update_refines in \<open>auto simp: key_inode_def acl_valid_def\<close>)

lemma acl_get_lookup:
  assumes "acl_wf tbl"
  shows "acl_get_for_inode tbl (Some ino) True ACL_MAX_ENTRIES =
    Inr (case acl_lookup tbl (inode_key ino) of Some es \<Rightarrow> es | None \<Rightarrow> acl_base_entries ino)"
proof (cases "acl_walk (i_ino ino) (i_sb ino) (tbl ! acl_hash (i_ino ino) (i_sb ino))")
  case None
  then show ?thesis by (simp add: acl_get_for_inode_def acl_lookup_def ACL_MAX_ENTRIES_def)
next
  case (Some cur)
  have "acl_bucket_ok (acl_hash (i_ino ino) (i_sb ino)) (tbl ! acl_hash (i_ino ino) (i_sb ino))"
    using assms by (simp add: acl_wf_def)
  with acl_walk_SomeD [OF Some] have "length (an_acl cur) \<le> nat ACL_MAX_ENTRIES"
    by (auto simp: acl_bucket_ok_def)
  with Some show ?thesis
    by (auto simp: acl_get_for_inode_def acl_lookup_def Let_def ACL_MAX_ENTRIES_def)
qed

text \<open>A history of requests: the key, and the entries to store or \<open>None\<close> to remove.\<close>

definition acl_history :: "((u64 \<times> u64) \<times> acl_entry list option) list \<Rightarrow> acl_table" where
  "acl_history rs =
     foldl (\<lambda>t r. case snd r of None \<Rightarrow> acl_update t (key_inode (fst r)) []
                   | Some es \<Rightarrow> acl_update t (key_inode (fst r)) es) acl_init rs"

text \<open>C10: After any history of stores and removals, reading the ACL of an inode gives
  the entries of the last request for its key, or the base ACL of its mode bits when that
  request was a removal or there was none; inodes that share a bucket do not interfere.\<close>

theorem acl_get_after_history:
  assumes "\<And>k es. (k, Some es) \<in> set rs \<Longrightarrow> acl_valid es"
  shows "acl_get_for_inode (acl_history rs) (Some ino) True ACL_MAX_ENTRIES =
    Inr (case map_of (rev rs) (i_ino ino, i_sb ino) of
           Some (Some es) \<Rightarrow> es | _ \<Rightarrow> acl_base_entries ino)"
proof -
  have v: "list_all (\<lambda>r. \<forall>es. snd r = Some es \<longrightarrow> acl_valid es) rs"
    using assms by (auto simp: list_all_iff)
  have "acl_wf (acl_history rs)"
    unfolding acl_history_def by (rule acl.inv_run [OF acl_init_wf(1) v])
  moreover have "acl_lookup (acl_history rs) k =
      (case map_of (rev rs) k of None \<Rightarrow> acl_lookup acl_init k | Some ov \<Rightarrow> ov)" for k
    unfolding acl_history_def by (rule acl.lookup_run [OF acl_init_wf(1) v])
  ultimately show ?thesis
    by (simp add: acl_get_lookup acl_init_wf split: option.splits)
qed

definition example_inode :: inode where
  "example_inode = \<lparr>i_ino = 0x10, i_sb = 0, i_mode = 0x1EC, i_uid = 1000, i_gid = 100\<rparr>"

definition example_history :: "((u64 \<times> u64) \<times> acl_entry list option) list" where
  "example_history = [((0x10, 0), Some [\<lparr>ae_tag = 6, ae_id = 0, ae_perms = 7\<rparr>]),
     ((0x1010, 0), Some [\<lparr>ae_tag = 6, ae_id = 0, ae_perms = 4\<rparr>]), ((0x10, 0), None)]"

theorem acl_get_after_history_witness:
  "acl_get_for_inode (acl_history example_history) (Some example_inode) True ACL_MAX_ENTRIES
     = Inr (acl_base_entries example_inode)"
proof (rule trans [OF acl_get_after_history])
  show "acl_valid es" if "(k, Some es) \<in> set example_history" for k es
    using that by (auto simp: example_history_def acl_valid_def ACL_MAX_ENTRIES_def)
qed (simp add: example_history_def example_inode_def)

section \<open>The decision\<close>

text \<open>The access check algorithm of POSIX.1e: the owner's entry decides alone for the
  owner; otherwise the named entry of the user, limited by the mask; otherwise some entry
  of a matching group has to grant the request, limited by the mask; otherwise the entry
  for others.\<close>

definition posix_acl_check :: "acl_entry list \<Rightarrow> inode \<Rightarrow> u32 \<Rightarrow> u32 \<Rightarrow> u32 \<Rightarrow> bool" where
  "posix_acl_check entries ino uid gid req =
     (let owner = filter (\<lambda>e. ae_tag e = ACL_USER_OBJ \<and> uid = i_uid ino) entries;
          users = filter (\<lambda>e. ae_tag e = ACL_USER \<and> ae_id e = uid) entries;
          groups = filter (acl_group_match ino gid) entries;
          others = filter (\<lambda>e. ae_tag e = ACL_OTHER) entries;
          masks = filter (\<lambda>e. ae_tag e = ACL_MASK) entries;
          limit = (\<lambda>p. if masks = [] then p else p AND ae_perms (hd masks))
      in if owner \<noteq> [] then acl_grants (ae_perms (hd owner)) req
         else if users \<noteq> [] then acl_grants (limit (ae_perms (hd users))) req
         else if groups \<noteq> [] then list_ex (\<lambda>e. acl_grants (limit (ae_perms e)) req) groups
         else others \<noteq> [] \<and> acl_grants (ae_perms (hd others)) req)"

lemma acl_find_mask_filter:
  "acl_find_mask es = (case filter (\<lambda>e. ae_tag e = ACL_MASK) es of [] \<Rightarrow> None | e # _ \<Rightarrow> Some (ae_perms e))"
  by (induction es) auto

lemma acl_owner_filter:
  "acl_owner_loop ino uid req es =
     (case filter (\<lambda>e. ae_tag e = ACL_USER_OBJ \<and> uid = i_uid ino) es of [] \<Rightarrow> None
      | e # _ \<Rightarrow> Some (acl_grants (ae_perms e) req))"
  by (induction es) auto

lemma acl_user_filter:
  "acl_user_loop msk uid req es =
     (case filter (\<lambda>e. ae_tag e = ACL_USER \<and> ae_id e = uid) es of [] \<Rightarrow> None
      | e # _ \<Rightarrow> Some (acl_grants (acl_effective msk e) req))"
  by (induction es) auto

lemma acl_group_filter:
  "acl_group_loop msk ino gid req matched es =
     (if matched \<or> filter (acl_group_match ino gid) es \<noteq> []
      then Some (list_ex (\<lambda>e. acl_grants (acl_effective msk e) req) (filter (acl_group_match ino gid) es))
      else None)"
  by (induction es arbitrary: matched) auto

lemma acl_other_filter:
  "acl_other_loop req es =
     (case filter (\<lambda>e. ae_tag e = ACL_OTHER) es of [] \<Rightarrow> False | e # _ \<Rightarrow> acl_grants (ae_perms e) req)"
  by (induction es) auto

lemma acl_decide_posix: "acl_decide entries ino uid gid req = posix_acl_check entries ino uid gid req"
proof -
  have "acl_effective (acl_find_mask entries) e =
      (if filter (\<lambda>e. ae_tag e = ACL_MASK) entries = [] then ae_perms e
       else ae_perms e AND ae_perms (hd (filter (\<lambda>e. ae_tag e = ACL_MASK) entries)))" for e
    by (simp add: acl_effective_def acl_find_mask_filter split: list.splits)
  then show ?thesis
    by (simp add: acl_decide_def posix_acl_check_def Let_def acl_owner_filter acl_user_filter
        acl_group_filter acl_other_filter split: list.splits)
qed

lemma posix_base_is_mode_check:
  "posix_acl_check (acl_base_entries ino) ino uid gid req = acl_mode_check ino uid gid req"
  by (simp add: posix_acl_check_def acl_base_entries_def acl_mode_check_def acl_group_match_def)

text \<open>C24: For a well-formed table, \<^verbatim>\<open>acl_check_permission\<close> lets root through, decides as
  POSIX.1e prescribes on the stored entries of an inode that has an extended ACL, and is
  the classic check of the mode bits for an inode that has none.\<close>

theorem acl_check_permission_spec:
  assumes "acl_wf tbl"
  shows "acl_check_permission tbl (Some ino) uid gid req =
    (uid = 0 \<or>
     (case acl_lookup tbl (i_ino ino, i_sb ino) of
        Some entries \<Rightarrow> posix_acl_check entries ino uid gid req
      | None \<Rightarrow> acl_mode_check ino uid gid req))"
proof -
  have ne: "acl_lookup tbl (i_ino ino, i_sb ino) \<noteq> Some []"
  proof
    assume "acl_lookup tbl (i_ino ino, i_sb ino) = Some []"
    then obtain e where "acl_walk (i_ino ino) (i_sb ino) (tbl ! acl_hash (i_ino ino) (i_sb ino)) = Some e"
      and e: "an_acl e = []" by (auto simp: acl_lookup_def)
    then have "e \<in> set (tbl ! acl_hash (i_ino ino) (i_sb ino))" by (auto dest: acl_walk_SomeD)
    moreover have "acl_bucket_ok (acl_hash (i_ino ino) (i_sb ino)) (tbl ! acl_hash (i_ino ino) (i_sb ino))"
      using assms by (simp add: acl_wf_def)
    ultimately show False using e by (auto simp: acl_bucket_ok_def)
  qed
  have "acl_base_entries ino \<noteq> []" by (simp add: acl_base_entries_def)
  with ne show ?thesis
    by (cases "acl_lookup tbl (i_ino ino, i_sb ino)")
      (auto simp: acl_check_permission_def acl_get_lookup [OF assms] acl_decide_posix
        posix_base_is_mode_check)
qed

theorem acl_check_permission_spec_witness:
  "\<not> acl_check_permission acl_init (Some example_inode) 7 8 2 \<and>
   acl_check_permission acl_init (Some example_inode) 1000 8 6"
  using acl_check_permission_spec [OF acl_init_wf(1), of example_inode 7 8 2]
    acl_check_permission_spec [OF acl_init_wf(1), of example_inode 1000 8 6]
  by (simp add: acl_init_wf(2) acl_mode_check_def acl_grants_def example_inode_def)

text \<open>C25: When an ACL has a mask, a user who is not the owner and who is admitted through
  a named-user or a group entry gets no permission outside the mask.\<close>

theorem acl_mask_limits:
  assumes "acl_find_mask entries = Some mk" and "uid \<noteq> i_uid ino"
    and "\<exists>e \<in> set entries. ae_tag e = ACL_USER \<and> ae_id e = uid \<or> acl_group_match ino gid e"
    and "acl_decide entries ino uid gid req"
  shows "subword req mk"
proof -
  have sub: "subword req mk" if "acl_grants (p AND mk) req" for p
  proof -
    have "subword ((p AND mk) AND req) mk" by (intro subword_and_left subword_and_right subword_refl)
    with that show ?thesis unfolding acl_grants_def by (simp only:)
  qed
  have "filter (\<lambda>e. ae_tag e = ACL_USER_OBJ \<and> uid = i_uid ino) entries = []" using assms(2) by simp
  moreover have "filter (\<lambda>e. ae_tag e = ACL_USER \<and> ae_id e = uid) entries \<noteq> [] \<or>
      filter (acl_group_match ino gid) entries \<noteq> []"
    using assms(3) by (auto simp: filter_empty_conv)
  moreover obtain m ms where "filter (\<lambda>e. ae_tag e = ACL_MASK) entries = m # ms" "ae_perms m = mk"
    using assms(1) by (auto simp: acl_find_mask_filter split: list.splits)
  ultimately have "\<exists>p. acl_grants (p AND mk) req"
    using assms(4) by (auto simp: acl_decide_posix posix_acl_check_def Let_def list_ex_iff
        split: if_splits)
  then show ?thesis using sub by blast
qed

theorem acl_mask_limits_witness:
  "subword (4 :: u32) 4 \<and>
   acl_decide [\<lparr>ae_tag = 2, ae_id = 7, ae_perms = 7\<rparr>, \<lparr>ae_tag = 5, ae_id = 0, ae_perms = 4\<rparr>] example_inode 7 8 4"
proof -
  have d: "acl_decide [\<lparr>ae_tag = 2, ae_id = 7, ae_perms = 7\<rparr>, \<lparr>ae_tag = 5, ae_id = 0, ae_perms = 4\<rparr>] example_inode 7 8 4"
    by (simp add: acl_decide_def acl_effective_def acl_grants_def example_inode_def)
  from acl_mask_limits [OF _ _ _ this, of 4] d show ?thesis
    by (simp add: example_inode_def)
qed

end
