(* ===== verification/Ring.thy ===== *)
theory Ring
  imports Az_Prelude
begin

text \<open>
  Byte rings: the two-part copies in and out of a circular buffer that the kernel's
  stream objects perform, and the interface of a byte stream that they implement.
\<close>

section \<open>Copies\<close>

text \<open>\<^verbatim>\<open>memcpy(&buf[pos], xs, len)\<close> inside an array.\<close>

definition memcpy_at :: "'a list \<Rightarrow> nat \<Rightarrow> 'a list \<Rightarrow> 'a list" where
  "memcpy_at buf pos xs = take pos buf @ xs @ drop (pos + length xs) buf"

lemma length_memcpy_at [simp]:
  "pos + length xs \<le> length buf \<Longrightarrow> length (memcpy_at buf pos xs) = length buf"
  by (simp add: memcpy_at_def)

lemma nth_memcpy_at:
  "pos + length xs \<le> length buf \<Longrightarrow> i < length buf \<Longrightarrow>
   memcpy_at buf pos xs ! i = (if pos \<le> i \<and> i < pos + length xs then xs ! (i - pos) else buf ! i)"
  by (auto simp: memcpy_at_def nth_append min_def)

text \<open>Copying \<open>n\<close> bytes out of, and \<open>xs\<close> into, a ring of the length of \<open>buf\<close>.\<close>

definition ring_out :: "'a list \<Rightarrow> nat \<Rightarrow> nat \<Rightarrow> 'a list" where
  "ring_out buf pos n =
     (let first = min (length buf - pos) n
      in take first (drop pos buf) @ take (n - first) buf)"

definition ring_in :: "'a list \<Rightarrow> nat \<Rightarrow> 'a list \<Rightarrow> 'a list" where
  "ring_in buf pos xs =
     (let first = min (length buf - pos) (length xs)
      in memcpy_at (memcpy_at buf pos (take first xs)) 0 (drop first xs))"

definition ring_view :: "'a list \<Rightarrow> nat \<Rightarrow> nat \<Rightarrow> 'a list" where
  "ring_view buf pos n = map (\<lambda>i. buf ! ((pos + i) mod length buf)) [0..<n]"

lemma length_ring_view [simp]: "length (ring_view buf pos n) = n"
  by (simp add: ring_view_def)

lemma ring_out_view:
  assumes "pos < length buf" and "n \<le> length buf"
  shows "ring_out buf pos n = ring_view buf pos n"
proof (rule nth_equalityI)
  show "length (ring_out buf pos n) = length (ring_view buf pos n)"
    using assms by (auto simp: ring_out_def Let_def)
next
  fix i assume "i < length (ring_out buf pos n)"
  then have i: "i < n" using assms by (auto simp: ring_out_def Let_def)
  show "ring_out buf pos n ! i = ring_view buf pos n ! i"
  proof (cases "pos + i < length buf")
    case True
    with i assms show ?thesis by (auto simp: ring_out_def ring_view_def Let_def nth_append)
  next
    case False
    then have "(pos + i) mod length buf = pos + i - length buf"
      using i assms by (simp add: mod_if)
    with False i assms show ?thesis
      by (auto simp: ring_out_def ring_view_def Let_def nth_append min_def not_less add.commute)
  qed
qed

lemma length_ring_in [simp]:
  "pos < length buf \<Longrightarrow> length xs \<le> length buf \<Longrightarrow> length (ring_in buf pos xs) = length buf"
  by (auto simp: ring_in_def Let_def)

lemma nth_ring_in:
  assumes "pos < length buf" and "length xs \<le> length buf" and "i < length buf"
  shows "ring_in buf pos xs ! i =
    (if pos \<le> i then (if i - pos < length xs then xs ! (i - pos) else buf ! i)
     else if i + length buf - pos < length xs then xs ! (i + length buf - pos) else buf ! i)"
  using assms by (auto simp: ring_in_def Let_def nth_memcpy_at min_def add.commute)

lemma ring_view_append:
  "ring_view buf pos (n + k) = ring_view buf pos n @ ring_view buf (pos + n) k"
  by (rule nth_equalityI) (auto simp: ring_view_def nth_append add.assoc)

lemma ring_view_mod: "ring_view buf (pos mod length buf) n = ring_view buf pos n"
  by (simp add: ring_view_def mod_add_left_eq)

lemma ring_view_drop: "k \<le> n \<Longrightarrow> ring_view buf (pos + k) (n - k) = drop k (ring_view buf pos n)"
  using ring_view_append [of buf pos k "n - k"] by simp

lemma ring_view_take: "k \<le> n \<Longrightarrow> take k (ring_view buf pos n) = ring_view buf pos k"
  using ring_view_append [of buf pos k "n - k"] by simp

text \<open>Writing behind the occupied part keeps it and appends to it.\<close>

lemma ring_in_index:
  assumes "pos < length buf" and "length xs \<le> length buf" and "k < length buf"
  shows "ring_in buf pos xs ! ((pos + k) mod length buf) =
    (if k < length xs then xs ! k else buf ! ((pos + k) mod length buf))"
proof -
  have "0 < length buf" using assms(1) by (cases buf) auto
  then show ?thesis
    using assms by (subst nth_ring_in) (auto simp: mod_if)
qed

lemma ring_in_view:
  assumes "pos < length buf" and "n + length xs \<le> length buf"
  shows "ring_view (ring_in buf ((pos + n) mod length buf) xs) pos (n + length xs) =
    ring_view buf pos n @ xs"
proof (rule nth_equalityI)
  let ?N = "length buf" let ?w = "(pos + n) mod ?N"
  have N: "0 < ?N" using assms(1) by (cases buf) auto
  have w: "?w < ?N" using N by simp
  have len: "length (ring_in buf ?w xs) = ?N" using w assms by simp
  fix i assume "i < length (ring_view (ring_in buf ?w xs) pos (n + length xs))"
  then have i: "i < n + length xs" by simp
  show "ring_view (ring_in buf ?w xs) pos (n + length xs) ! i = (ring_view buf pos n @ xs) ! i"
  proof (cases "i < n")
    case True
    have "(?w + (?N - n + i)) mod ?N = (pos + n + (?N - n + i)) mod ?N" by (simp add: mod_add_left_eq)
    also have "pos + n + (?N - n + i) = pos + i + ?N" using True assms by simp
    finally have ix: "(?w + (?N - n + i)) mod ?N = (pos + i) mod ?N" by simp
    have "ring_in buf ?w xs ! ((?w + (?N - n + i)) mod ?N) = buf ! ((?w + (?N - n + i)) mod ?N)"
      using True assms by (subst ring_in_index [OF w]) auto
    with ix True i show ?thesis by (simp add: ring_view_def nth_append len)
  next
    case False
    have "(?w + (i - n)) mod ?N = (pos + n + (i - n)) mod ?N" by (simp add: mod_add_left_eq)
    then have ix: "(?w + (i - n)) mod ?N = (pos + i) mod ?N" using False by simp
    have "ring_in buf ?w xs ! ((?w + (i - n)) mod ?N) = xs ! (i - n)"
      using False i assms by (subst ring_in_index [OF w]) auto
    with ix False i show ?thesis by (simp add: ring_view_def nth_append len)
  qed
qed simp

section \<open>Byte streams\<close>

text \<open>
  The contract of a byte stream with bounded room: a write appends, a read removes a
  prefix. \<open>sys_trace\<close> style statements about whole histories follow from it once.
\<close>

locale byte_stream =
  fixes inv :: "'s \<Rightarrow> bool"
    and contents :: "'s \<Rightarrow> 'a list"
    and room :: "'s \<Rightarrow> nat"
    and wr :: "'s \<Rightarrow> 'a list \<Rightarrow> 's"
    and rd :: "'s \<Rightarrow> nat \<Rightarrow> 'a list \<times> 's"
  assumes inv_wr: "inv s \<Longrightarrow> length xs \<le> room s \<Longrightarrow> inv (wr s xs)"
    and inv_rd: "inv s \<Longrightarrow> n \<le> length (contents s) \<Longrightarrow> inv (snd (rd s n))"
    and contents_wr: "inv s \<Longrightarrow> length xs \<le> room s \<Longrightarrow> contents (wr s xs) = contents s @ xs"
    and contents_rd: "inv s \<Longrightarrow> n \<le> length (contents s) \<Longrightarrow> contents (snd (rd s n)) = drop n (contents s)"
    and data_rd: "inv s \<Longrightarrow> n \<le> length (contents s) \<Longrightarrow> fst (rd s n) = take n (contents s)"
begin

lemma read_split: "inv s \<Longrightarrow> n \<le> length (contents s) \<Longrightarrow>
    fst (rd s n) @ contents (snd (rd s n)) = contents s"
  by (simp add: contents_rd data_rd)

lemma write_then_read:
  assumes "inv s" and "contents s = []" and "length xs \<le> room s"
  shows "fst (rd (wr s xs) (length xs)) = xs" and "contents (snd (rd (wr s xs) (length xs))) = []"
  using assms by (simp_all add: contents_wr inv_wr data_rd contents_rd)

text \<open>\<open>w\<close> is the data written so far, \<open>out\<close> the data delivered so far.\<close>

lemma stream_step_fifo:
  assumes "inv s"
  shows "length xs \<le> room s \<Longrightarrow> out @ contents s = w \<Longrightarrow> out @ contents (wr s xs) = w @ xs"
    and "n \<le> length (contents s) \<Longrightarrow> out @ contents s = w \<Longrightarrow>
      (out @ fst (rd s n)) @ contents (snd (rd s n)) = w"
  using assms read_split by (auto simp: contents_wr)

end

end
