(* ===== verification/Pipe.thy ===== *)
theory Pipe
  imports Ring
begin

text \<open>
  UNIX pipes (\<^verbatim>\<open>fs/pipe.c\<close>). Every stretch of code between taking and dropping
  \<^verbatim>\<open>pipe->lock\<close> is one function on the pipe that also returns the threads it wakes;
  a thread's position between two such stretches is a value of \<open>pipe_thread\<close>, and
  \<open>pipe_exec\<close> runs the next stretch of one thread. User copies happen between the
  stretches, so other threads run during them.

  Positions and counts are bounded by the buffer size and kept as naturals; \<open>read_seq\<close>
  is the 64-bit counter the lock-free reads depend on. The waiting queues, linked through
  \<^verbatim>\<open>thread->next\<close>, are lists of thread ids.
\<close>

section \<open>State\<close>

definition PIPE_BUFFER_SIZE :: nat where "PIPE_BUFFER_SIZE = 4096"

record pipe =
  buffer :: "u8 list"
  read_pos :: nat
  write_pos :: nat
  count :: nat
  read_seq :: u64
  readers :: nat
  writers :: nat
  read_wait :: "tid list"
  write_wait :: "tid list"

section \<open>Waiting queues\<close>

definition pipe_wait_push :: "tid list \<Rightarrow> tid \<Rightarrow> tid list" where
  "pipe_wait_push q t = (if t \<in> set q then q else q @ [t])"

definition pipe_wait_pop :: "tid list \<Rightarrow> tid list \<times> tid option" where
  "pipe_wait_pop q = (case q of [] \<Rightarrow> ([], None) | t # rest \<Rightarrow> (rest, Some t))"

definition pipe_wait_remove :: "tid list \<Rightarrow> tid \<Rightarrow> tid list" where
  "pipe_wait_remove q t = remove1 t q"

text \<open>\<^verbatim>\<open>pipe_wake_all\<close> and the equal loops of the other functions: the queue is emptied and
  its threads are unblocked in order.\<close>

fun pipe_wake_all :: "tid list \<Rightarrow> tid list \<times> tid list" where
  "pipe_wake_all [] = ([], [])"
| "pipe_wake_all (t # q) = (case pipe_wake_all q of (q', ws) \<Rightarrow> (q', t # ws))"

definition wake_one :: "tid option \<Rightarrow> tid list" where
  "wake_one t = (case t of None \<Rightarrow> [] | Some x \<Rightarrow> [x])"

section \<open>The ring\<close>

definition pipe_take :: "pipe \<Rightarrow> nat \<Rightarrow> u8 list" where
  "pipe_take p n = ring_out (buffer p) (read_pos p) n"

definition pipe_consume :: "pipe \<Rightarrow> nat \<Rightarrow> pipe" where
  "pipe_consume p n =
     p\<lparr>read_pos := (read_pos p + n) mod PIPE_BUFFER_SIZE, count := count p - n,
       read_seq := read_seq p + 1\<rparr>"

definition pipe_append :: "pipe \<Rightarrow> u8 list \<Rightarrow> pipe" where
  "pipe_append p bs =
     p\<lparr>buffer := ring_in (buffer p) (write_pos p) bs,
       write_pos := (write_pos p + length bs) mod PIPE_BUFFER_SIZE, count := count p + length bs\<rparr>"

section \<open>Reading into a kernel buffer\<close>

datatype read_outcome = RData "u8 list" | REof | RErr errno | RSleep

definition pipe_read :: "pipe \<Rightarrow> tid \<Rightarrow> nat \<Rightarrow> bool \<Rightarrow> pipe \<times> tid list \<times> read_outcome" where
  "pipe_read p cur len nonblock =
     (if count p > 0 then
        (let to_read = min len (count p);
             bytes = pipe_take p to_read;
             p1 = pipe_consume p to_read;
             (ww, woken) = pipe_wake_all (write_wait p1);
             p2 = p1\<lparr>write_wait := ww\<rparr>;
             (rw, next_reader) =
               (if count p2 > 0 then pipe_wait_pop (read_wait p2) else (read_wait p2, None))
         in (p2\<lparr>read_wait := rw\<rparr>, woken @ wake_one next_reader, RData bytes))
      else if writers p = 0 then (p, [], REof)
      else if nonblock then (p, [], RErr EAGAIN)
      else (p\<lparr>read_wait := pipe_wait_push (read_wait p) cur\<rparr>, [], RSleep))"

section \<open>Writing from a kernel buffer\<close>

datatype write_outcome = WWrote nat | WErr errno | WSleep

text \<open>One turn of the loop with \<open>written\<close> bytes of \<open>src\<close> already in the pipe. \<open>WWrote n\<close>
  means that \<open>n\<close> further bytes were appended.\<close>

definition pipe_write ::
    "pipe \<Rightarrow> tid \<Rightarrow> u8 list \<Rightarrow> nat \<Rightarrow> bool \<Rightarrow> pipe \<times> tid list \<times> write_outcome" where
  "pipe_write p cur src written nonblock =
     (let len = length src
      in if readers p = 0 then (p, [], WErr EPIPE)
         else if count p < PIPE_BUFFER_SIZE \<and>
                 (len > PIPE_BUFFER_SIZE \<or> PIPE_BUFFER_SIZE - count p \<ge> len) then
           (let to_write = min (len - written) (PIPE_BUFFER_SIZE - count p);
                p1 = pipe_append p (take to_write (drop written src));
                (rw, reader) = pipe_wait_pop (read_wait p1);
                p2 = p1\<lparr>read_wait := rw\<rparr>;
                (ww, next_writer) =
                  (if count p2 < PIPE_BUFFER_SIZE then pipe_wait_pop (write_wait p2)
                   else (write_wait p2, None))
            in (p2\<lparr>write_wait := ww\<rparr>, wake_one reader @ wake_one next_writer, WWrote to_write))
         else if nonblock then (p, [], WErr EAGAIN)
         else (p\<lparr>write_wait := pipe_wait_push (write_wait p) cur\<rparr>, [], WSleep))"

section \<open>Reading into user memory\<close>

datatype snap_outcome = SnapData u64 "u8 list" | SnapEof | SnapErr errno | SnapSleep

text \<open>The first critical section: the snapshot. \<open>sig\<close>: the current process has an unblocked
  signal pending (\<^verbatim>\<open>pipe_sleep_locked\<close> checks before it queues the thread).\<close>

definition pipe_read_snapshot :: "pipe \<Rightarrow> tid \<Rightarrow> nat \<Rightarrow> bool \<Rightarrow> bool \<Rightarrow> pipe \<times> snap_outcome" where
  "pipe_read_snapshot p cur tot nonblock sig =
     (if count p = 0 then
        (if writers p = 0 then (p, SnapEof)
         else if nonblock then (p, SnapErr EAGAIN)
         else if sig then (p, SnapErr EINTR)
         else (p\<lparr>read_wait := pipe_wait_push (read_wait p) cur\<rparr>, SnapSleep))
      else (let len = min tot (count p) in (p, SnapData (read_seq p) (pipe_take p len))))"

text \<open>The user copy failed.\<close>

definition pipe_read_fault :: "pipe \<Rightarrow> pipe \<times> tid list" where
  "pipe_read_fault p =
     (if count p > 0 then (case pipe_wake_all (read_wait p) of (q, ws) \<Rightarrow> (p\<lparr>read_wait := q\<rparr>, ws))
      else (p, []))"

text \<open>The second critical section: \<open>None\<close> when the snapshot is stale.\<close>

definition pipe_read_commit :: "pipe \<Rightarrow> u64 \<Rightarrow> nat \<Rightarrow> (pipe \<times> tid list) option" where
  "pipe_read_commit p seq len =
     (if read_seq p \<noteq> seq then None
      else (let p1 = pipe_consume p len;
                (ww, ws1) = pipe_wake_all (write_wait p1);
                p2 = p1\<lparr>write_wait := ww\<rparr>;
                (rw, ws2) = (if count p2 > 0 then pipe_wake_all (read_wait p2) else (read_wait p2, []))
            in Some (p2\<lparr>read_wait := rw\<rparr>, ws1 @ ws2)))"

section \<open>Writing from user memory\<close>

datatype stage_outcome = StageLen nat | StageErr errno | StageSleep

definition pipe_write_stage ::
    "pipe \<Rightarrow> tid \<Rightarrow> nat \<Rightarrow> nat \<Rightarrow> bool \<Rightarrow> bool \<Rightarrow> pipe \<times> stage_outcome" where
  "pipe_write_stage p cur tot written nonblock sig =
     (let available = PIPE_BUFFER_SIZE - count p; atomic_write = (tot \<le> PIPE_BUFFER_SIZE)
      in if readers p = 0 then (p, StageErr EPIPE)
         else if available = 0 \<or> (atomic_write \<and> available < tot) then
           (if nonblock then (p, StageErr EAGAIN)
            else if sig then (p, StageErr EINTR)
            else (p\<lparr>write_wait := pipe_wait_push (write_wait p) cur\<rparr>, StageSleep))
         else (p, StageLen (min (tot - written) available)))"

definition pipe_write_fault :: "pipe \<Rightarrow> pipe \<times> tid list" where
  "pipe_write_fault p =
     (if count p < PIPE_BUFFER_SIZE
      then (case pipe_wake_all (write_wait p) of (q, ws) \<Rightarrow> (p\<lparr>write_wait := q\<rparr>, ws))
      else (p, []))"

text \<open>The commit loop's critical section on the staged bytes.\<close>

definition pipe_write_commit ::
    "pipe \<Rightarrow> tid \<Rightarrow> nat \<Rightarrow> u8 list \<Rightarrow> bool \<Rightarrow> bool \<Rightarrow> pipe \<times> tid list \<times> write_outcome" where
  "pipe_write_commit p cur tot staged nonblock sig =
     (let available = PIPE_BUFFER_SIZE - count p; atomic_write = (tot \<le> PIPE_BUFFER_SIZE)
      in if readers p = 0 then (p, [], WErr EPIPE)
         else if available > 0 \<and> (\<not> atomic_write \<or> available \<ge> length staged) then
           (let len = min (length staged) available;
                p1 = pipe_append p (take len staged);
                (rw, ws1) = pipe_wake_all (read_wait p1);
                p2 = p1\<lparr>read_wait := rw\<rparr>;
                (ww, ws2) = (if count p2 < PIPE_BUFFER_SIZE then pipe_wake_all (write_wait p2)
                             else (write_wait p2, []))
            in (p2\<lparr>write_wait := ww\<rparr>, ws1 @ ws2, WWrote len))
         else if nonblock then (p, [], WErr EAGAIN)
         else if sig then (p, [], WErr EINTR)
         else (p\<lparr>write_wait := pipe_wait_push (write_wait p) cur\<rparr>, [], WSleep))"

section \<open>Closing and polling\<close>

text \<open>The boolean is \<^verbatim>\<open>should_free\<close>.\<close>

definition pipe_read_release :: "pipe \<Rightarrow> pipe \<times> tid list \<times> bool" where
  "pipe_read_release p =
     (let p1 = p\<lparr>readers := (if readers p > 0 then readers p - 1 else readers p)\<rparr>;
          (ww, ws) = pipe_wake_all (write_wait p1)
      in (p1\<lparr>write_wait := ww\<rparr>, ws, readers p1 = 0 \<and> writers p1 = 0))"

definition pipe_write_release :: "pipe \<Rightarrow> pipe \<times> tid list \<times> bool" where
  "pipe_write_release p =
     (let p1 = p\<lparr>writers := (if writers p > 0 then writers p - 1 else writers p)\<rparr>;
          (rw, ws) = pipe_wake_all (read_wait p1)
      in (p1\<lparr>read_wait := rw\<rparr>, ws, readers p1 = 0 \<and> writers p1 = 0))"

abbreviation (input) "POLLIN \<equiv> (0x0001 :: u32)"
abbreviation (input) "POLLOUT \<equiv> (0x0004 :: u32)"
abbreviation (input) "POLLERR \<equiv> (0x0008 :: u32)"
abbreviation (input) "POLLHUP \<equiv> (0x0010 :: u32)"
abbreviation (input) "POLLRDNORM \<equiv> (0x0040 :: u32)"
abbreviation (input) "POLLWRNORM \<equiv> (0x0100 :: u32)"

definition pipe_read_poll :: "pipe \<Rightarrow> u32" where
  "pipe_read_poll p =
     (if count p > 0 then POLLIN OR POLLRDNORM else 0) OR
     (if writers p = 0 then POLLHUP OR POLLIN OR POLLRDNORM else 0)"

definition pipe_write_poll :: "pipe \<Rightarrow> u32" where
  "pipe_write_poll p =
     (if readers p = 0 then POLLERR OR POLLHUP
      else if count p < PIPE_BUFFER_SIZE then POLLOUT OR POLLWRNORM
      else 0)"

definition pipe_fresh :: pipe where
  "pipe_fresh = \<lparr>buffer = replicate PIPE_BUFFER_SIZE 0, read_pos = 0, write_pos = 0, count = 0,
     read_seq = 0, readers = 1, writers = 1, read_wait = [], write_wait = []\<rparr>"

text \<open>\<^verbatim>\<open>pipe_create\<close>: the four allocations (pipe, inode, two files) may fail.\<close>

definition pipe_create :: "bool \<Rightarrow> bool \<Rightarrow> bool \<Rightarrow> bool \<Rightarrow> errno + pipe" where
  "pipe_create pipe_ok inode_ok rf_ok wf_ok =
     (if \<not> pipe_ok then Inl ENOMEM
      else if \<not> inode_ok then Inl ENOMEM
      else if \<not> rf_ok then Inl ENOMEM
      else if \<not> wf_ok then Inl ENOMEM
      else Inr pipe_fresh)"

section \<open>Threads\<close>

text \<open>
  Where a thread is in a call. A \<open>nat\<close> after the bytes of a write is the number of bytes
  already written. A sleeping thread of \<^verbatim>\<open>pipe_read\<close> or \<^verbatim>\<open>pipe_write\<close> leaves its
  queue only on a signal, one of the user variants always.
\<close>

datatype pipe_thread =
    Idle
  | Reading nat bool
  | ReadSleep nat bool
  | Writing "u8 list" nat bool
  | WriteSleep "u8 list" nat bool
  | UReading nat bool
  | UReadSleep nat bool
  | UReadCopy nat bool u64 "u8 list"
  | UWriting "u8 list" nat bool
  | UWriteSleep "u8 list" nat bool
  | UWriteCopy "u8 list" nat bool nat
  | UWriteCommit "u8 list" nat bool "u8 list"
  | UWriteCommitSleep "u8 list" nat bool "u8 list"
  | RetData "u8 list"
  | RetCount nat
  | RetErr errno

record pipe_sys =
  the_pipe :: pipe
  threads :: "tid \<Rightarrow> pipe_thread"
  woken :: "tid \<Rightarrow> bool"
  log_in :: "(tid \<times> u8 list) list"
  log_out :: "(tid \<times> u8 list) list"

text \<open>\<^verbatim>\<open>sched_unblock\<close> on each of the threads: remembered until the thread blocks.\<close>

definition wake_threads :: "tid list \<Rightarrow> (tid \<Rightarrow> bool) \<Rightarrow> tid \<Rightarrow> bool" where
  "wake_threads ws w t \<longleftrightarrow> t \<in> set ws \<or> w t"

definition sys_put :: "pipe_sys \<Rightarrow> tid \<Rightarrow> pipe \<Rightarrow> tid list \<Rightarrow> pipe_thread \<Rightarrow> pipe_sys" where
  "sys_put s t p ws st =
     s\<lparr>the_pipe := p, threads := (threads s)(t := st), woken := wake_threads ws (woken s)\<rparr>"

definition written_or :: "nat \<Rightarrow> errno \<Rightarrow> pipe_thread" where
  "written_or written e = (if written > 0 then RetCount written else RetErr e)"

text \<open>
  The next stretch of thread \<open>t\<close>, \<open>None\<close> when it cannot run: a call that has returned, or a
  sleeping thread that is neither woken nor signalled. \<open>sig\<close> says whether an unblocked
  signal is pending, \<open>copy_ok\<close> whether the user copy of this stretch succeeds.
\<close>

definition pipe_exec :: "tid \<Rightarrow> bool \<Rightarrow> bool \<Rightarrow> pipe_sys \<Rightarrow> pipe_sys option" where
  "pipe_exec t sig copy_ok s =
     (let p = the_pipe s
      in case threads s t of
        Reading len nb \<Rightarrow>
          (case pipe_read p t len nb of
             (p', ws, RData bs) \<Rightarrow> Some ((sys_put s t p' ws (RetData bs))\<lparr>log_out := log_out s @ [(t, bs)]\<rparr>)
           | (p', ws, REof) \<Rightarrow> Some (sys_put s t p' ws (RetData []))
           | (p', ws, RErr e) \<Rightarrow> Some (sys_put s t p' ws (RetErr e))
           | (p', ws, RSleep) \<Rightarrow> Some (sys_put s t p' ws (ReadSleep len nb)))
      | ReadSleep len nb \<Rightarrow>
          (if \<not> (woken s t \<or> sig) then None
           else let s' = s\<lparr>woken := (woken s)(t := False)\<rparr>
                in if sig
                   then Some (sys_put s' t (p\<lparr>read_wait := pipe_wait_remove (read_wait p) t\<rparr>) [] (RetErr EINTR))
                   else Some (sys_put s' t p [] (Reading len nb)))
      | Writing src w nb \<Rightarrow>
          (case pipe_write p t src w nb of
             (p', ws, WWrote n) \<Rightarrow>
               Some ((sys_put s t p' ws
                       (if w + n = length src then RetCount (w + n)
                        else if nb then RetCount (w + n) else Writing src (w + n) nb))
                     \<lparr>log_in := log_in s @ [(t, take n (drop w src))]\<rparr>)
           | (p', ws, WErr e) \<Rightarrow>
               Some (sys_put s t p' ws (if e = EPIPE then RetErr EPIPE else written_or w e))
           | (p', ws, WSleep) \<Rightarrow> Some (sys_put s t p' ws (WriteSleep src w nb)))
      | WriteSleep src w nb \<Rightarrow>
          (if \<not> (woken s t \<or> sig) then None
           else let s' = s\<lparr>woken := (woken s)(t := False)\<rparr>
                in if sig
                   then Some (sys_put s' t (p\<lparr>write_wait := pipe_wait_remove (write_wait p) t\<rparr>) []
                               (written_or w EINTR))
                   else Some (sys_put s' t p [] (Writing src w nb)))
      | UReading tot nb \<Rightarrow>
          (case pipe_read_snapshot p t tot nb sig of
             (p', SnapData seq bs) \<Rightarrow> Some (sys_put s t p' [] (UReadCopy tot nb seq bs))
           | (p', SnapEof) \<Rightarrow> Some (sys_put s t p' [] (RetData []))
           | (p', SnapErr e) \<Rightarrow> Some (sys_put s t p' [] (RetErr e))
           | (p', SnapSleep) \<Rightarrow> Some (sys_put s t p' [] (UReadSleep tot nb)))
      | UReadSleep tot nb \<Rightarrow>
          (if \<not> (woken s t \<or> sig) then None
           else Some (sys_put (s\<lparr>woken := (woken s)(t := False)\<rparr>) t
                        (p\<lparr>read_wait := pipe_wait_remove (read_wait p) t\<rparr>) []
                        (if sig then RetErr EINTR else UReading tot nb)))
      | UReadCopy tot nb seq bs \<Rightarrow>
          (if \<not> copy_ok then
             (case pipe_read_fault p of (p', ws) \<Rightarrow> Some (sys_put s t p' ws (RetErr EFAULT)))
           else (case pipe_read_commit p seq (length bs) of
                   None \<Rightarrow> Some (sys_put s t p [] (if sig then RetErr EINTR else UReading tot nb))
                 | Some (p', ws) \<Rightarrow>
                     Some ((sys_put s t p' ws (RetData bs))\<lparr>log_out := log_out s @ [(t, bs)]\<rparr>)))
      | UWriting src w nb \<Rightarrow>
          (if w < length src then
             (case pipe_write_stage p t (length src) w nb sig of
                (p', StageLen n) \<Rightarrow> Some (sys_put s t p' [] (UWriteCopy src w nb n))
              | (p', StageErr e) \<Rightarrow> Some (sys_put s t p' [] (written_or w e))
              | (p', StageSleep) \<Rightarrow> Some (sys_put s t p' [] (UWriteSleep src w nb)))
           else Some (sys_put s t p [] (RetCount w)))
      | UWriteSleep src w nb \<Rightarrow>
          (if \<not> (woken s t \<or> sig) then None
           else Some (sys_put (s\<lparr>woken := (woken s)(t := False)\<rparr>) t
                        (p\<lparr>write_wait := pipe_wait_remove (write_wait p) t\<rparr>) []
                        (if sig then written_or w EINTR else UWriting src w nb)))
      | UWriteCopy src w nb n \<Rightarrow>
          (if copy_ok then Some (sys_put s t p [] (UWriteCommit src w nb (take n (drop w src))))
           else (case pipe_write_fault p of (p', ws) \<Rightarrow> Some (sys_put s t p' ws (written_or w EFAULT))))
      | UWriteCommit src w nb staged \<Rightarrow>
          (case pipe_write_commit p t (length src) staged nb sig of
             (p', ws, WWrote n) \<Rightarrow>
               Some ((sys_put s t p' ws
                       (if nb then RetCount (w + n)
                        else if w + n < length src \<and> sig then RetCount (w + n)
                        else UWriting src (w + n) nb))
                     \<lparr>log_in := log_in s @ [(t, take n staged)]\<rparr>)
           | (p', ws, WErr e) \<Rightarrow> Some (sys_put s t p' ws (written_or w e))
           | (p', ws, WSleep) \<Rightarrow> Some (sys_put s t p' ws (UWriteCommitSleep src w nb staged)))
      | UWriteCommitSleep src w nb staged \<Rightarrow>
          (if \<not> (woken s t \<or> sig) then None
           else Some (sys_put (s\<lparr>woken := (woken s)(t := False)\<rparr>) t
                        (p\<lparr>write_wait := pipe_wait_remove (write_wait p) t\<rparr>) []
                        (if sig then written_or w EINTR else UWriteCommit src w nb staged)))
      | _ \<Rightarrow> None)"

text \<open>The calls: an empty request returns at once.\<close>

definition call_read :: "nat \<Rightarrow> bool \<Rightarrow> pipe_thread" where
  "call_read len nb = (if len = 0 then RetData [] else Reading len nb)"

definition call_write :: "u8 list \<Rightarrow> bool \<Rightarrow> pipe_thread" where
  "call_write src nb = (if src = [] then RetCount 0 else Writing src 0 nb)"

definition call_read_user :: "nat \<Rightarrow> bool \<Rightarrow> pipe_thread" where
  "call_read_user len nb = (if len = 0 then RetData [] else UReading len nb)"

definition call_write_user :: "u8 list \<Rightarrow> bool \<Rightarrow> pipe_thread" where
  "call_write_user src nb = (if src = [] then RetCount 0 else UWriting src 0 nb)"

fun pipe_at_rest :: "pipe_thread \<Rightarrow> bool" where
  "pipe_at_rest Idle = True"
| "pipe_at_rest (RetData bs) = True"
| "pipe_at_rest (RetCount n) = True"
| "pipe_at_rest (RetErr e) = True"
| "pipe_at_rest _ = False"

text \<open>Everything that can happen to the pipe: a thread at rest starts a call, a thread runs
  its next stretch, an end is closed.\<close>

inductive pipe_step :: "pipe_sys \<Rightarrow> pipe_sys \<Rightarrow> bool" where
  ps_read: "pipe_at_rest (threads s t) \<Longrightarrow>
     pipe_step s (s\<lparr>threads := (threads s)(t := call_read len nb)\<rparr>)"
| ps_write: "pipe_at_rest (threads s t) \<Longrightarrow>
     pipe_step s (s\<lparr>threads := (threads s)(t := call_write src nb)\<rparr>)"
| ps_read_user: "pipe_at_rest (threads s t) \<Longrightarrow>
     pipe_step s (s\<lparr>threads := (threads s)(t := call_read_user len nb)\<rparr>)"
| ps_write_user: "pipe_at_rest (threads s t) \<Longrightarrow>
     pipe_step s (s\<lparr>threads := (threads s)(t := call_write_user src nb)\<rparr>)"
| ps_exec: "pipe_exec t sig copy_ok s = Some s' \<Longrightarrow> pipe_step s s'"
| ps_close_read: "pipe_read_release (the_pipe s) = (p, ws, fr) \<Longrightarrow>
     pipe_step s (s\<lparr>the_pipe := p, woken := wake_threads ws (woken s)\<rparr>)"
| ps_close_write: "pipe_write_release (the_pipe s) = (p, ws, fr) \<Longrightarrow>
     pipe_step s (s\<lparr>the_pipe := p, woken := wake_threads ws (woken s)\<rparr>)"

definition pipe_start :: pipe_sys where
  "pipe_start = \<lparr>the_pipe = pipe_fresh, threads = (\<lambda>_. Idle), woken = (\<lambda>_. False),
     log_in = [], log_out = []\<rparr>"

section \<open>The ring is a byte stream\<close>

definition pipe_ok :: "pipe \<Rightarrow> bool" where
  "pipe_ok p \<longleftrightarrow> length (buffer p) = PIPE_BUFFER_SIZE \<and> read_pos p < PIPE_BUFFER_SIZE \<and>
     count p \<le> PIPE_BUFFER_SIZE \<and> write_pos p = (read_pos p + count p) mod PIPE_BUFFER_SIZE"

definition pipe_contents :: "pipe \<Rightarrow> u8 list" where
  "pipe_contents p = ring_view (buffer p) (read_pos p) (count p)"

lemma PIPE_BUFFER_SIZE_pos [simp]: "0 < PIPE_BUFFER_SIZE"
  by (simp add: PIPE_BUFFER_SIZE_def)

lemma length_pipe_contents [simp]: "length (pipe_contents p) = count p"
  by (simp add: pipe_contents_def)

lemma pipe_take_contents:
  "pipe_ok p \<Longrightarrow> n \<le> count p \<Longrightarrow> pipe_take p n = take n (pipe_contents p)"
  by (simp add: pipe_take_def pipe_contents_def pipe_ok_def ring_out_view ring_view_take)

lemma pipe_consume_ok:
  assumes "pipe_ok p" and "n \<le> count p"
  shows "pipe_ok (pipe_consume p n)" and "pipe_contents (pipe_consume p n) = drop n (pipe_contents p)"
proof -
  have "((read_pos p + n) mod PIPE_BUFFER_SIZE + (count p - n)) mod PIPE_BUFFER_SIZE =
      (read_pos p + n + (count p - n)) mod PIPE_BUFFER_SIZE"
    by (rule mod_add_left_eq)
  with assms show "pipe_ok (pipe_consume p n)"
    by (auto simp: pipe_ok_def pipe_consume_def)
  show "pipe_contents (pipe_consume p n) = drop n (pipe_contents p)"
    using assms ring_view_mod [of "buffer p" "read_pos p + n" "count p - n"]
    by (simp add: pipe_contents_def pipe_consume_def pipe_ok_def ring_view_drop)
qed

lemma pipe_append_ok:
  assumes "pipe_ok p" and "length bs \<le> PIPE_BUFFER_SIZE - count p"
  shows "pipe_ok (pipe_append p bs)" and "pipe_contents (pipe_append p bs) = pipe_contents p @ bs"
proof -
  have len: "length (ring_in (buffer p) (write_pos p) bs) = PIPE_BUFFER_SIZE"
    using assms by (simp add: pipe_ok_def)
  have c: "count p + length bs \<le> length (buffer p)" using assms by (auto simp: pipe_ok_def)
  show "pipe_ok (pipe_append p bs)"
    using assms len by (auto simp: pipe_ok_def pipe_append_def mod_add_left_eq add.assoc)
  show "pipe_contents (pipe_append p bs) = pipe_contents p @ bs"
    using assms(1) ring_in_view [OF _ c] by (simp add: pipe_contents_def pipe_append_def pipe_ok_def)
qed

interpretation pipe: byte_stream pipe_ok pipe_contents "\<lambda>p. PIPE_BUFFER_SIZE - count p"
    pipe_append "\<lambda>p n. (pipe_take p n, pipe_consume p n)"
  by unfold_locales (simp_all add: pipe_append_ok pipe_consume_ok pipe_take_contents)

section \<open>What each critical section does to the ring\<close>

text \<open>Two pipes that agree on everything but the waiting queues and the ends.\<close>

definition ring_eq :: "pipe \<Rightarrow> pipe \<Rightarrow> bool" where
  "ring_eq p q \<longleftrightarrow> buffer p = buffer q \<and> read_pos p = read_pos q \<and> write_pos p = write_pos q \<and>
     count p = count q \<and> read_seq p = read_seq q"

lemma ring_eq_refl [simp]: "ring_eq p p"
  by (simp add: ring_eq_def)

lemma ring_eqD:
  "ring_eq p q \<Longrightarrow> pipe_ok p = pipe_ok q"
  "ring_eq p q \<Longrightarrow> pipe_contents p = pipe_contents q"
  "ring_eq p q \<Longrightarrow> count p = count q"
  "ring_eq p q \<Longrightarrow> read_seq p = read_seq q"
  by (simp_all add: ring_eq_def pipe_ok_def pipe_contents_def)

lemma pipe_read_effect:
  assumes "pipe_read p t len nb = (p', ws, r)"
  shows "case r of
      RData bs \<Rightarrow> 0 < count p \<and> bs = pipe_take p (min len (count p)) \<and>
                  ring_eq p' (pipe_consume p (min len (count p)))
    | _ \<Rightarrow> ring_eq p' p"
  using assms
  by (auto simp: pipe_read_def Let_def ring_eq_def split: if_splits prod.splits read_outcome.splits)

lemma pipe_write_effect:
  assumes "pipe_write p t src w nb = (p', ws, r)"
  shows "case r of
      WWrote n \<Rightarrow> count p < PIPE_BUFFER_SIZE \<and>
          (PIPE_BUFFER_SIZE < length src \<or> length src \<le> PIPE_BUFFER_SIZE - count p) \<and>
          n = min (length src - w) (PIPE_BUFFER_SIZE - count p) \<and>
          ring_eq p' (pipe_append p (take n (drop w src)))
    | _ \<Rightarrow> ring_eq p' p"
  using assms
  by (auto simp: pipe_write_def Let_def ring_eq_def split: if_splits prod.splits write_outcome.splits)

lemma pipe_read_snapshot_effect:
  assumes "pipe_read_snapshot p t len nb sig = (p', r)"
  shows "ring_eq p' p \<and> (\<forall>seq bs. r = SnapData seq bs \<longrightarrow> seq = read_seq p \<and>
     bs = pipe_take p (min len (count p)))"
  using assms by (auto simp: pipe_read_snapshot_def Let_def ring_eq_def split: if_splits)

lemma pipe_read_commit_effect:
  assumes "pipe_read_commit p seq n = Some (p', ws)"
  shows "read_seq p = seq \<and> ring_eq p' (pipe_consume p n)"
  using assms by (auto simp: pipe_read_commit_def Let_def ring_eq_def split: if_splits prod.splits)

lemma pipe_fault_effect:
  "pipe_read_fault p = (p', ws) \<Longrightarrow> ring_eq p' p"
  "pipe_write_fault p = (p', ws) \<Longrightarrow> ring_eq p' p"
  by (auto simp: pipe_read_fault_def pipe_write_fault_def ring_eq_def split: if_splits prod.splits)

lemma pipe_write_stage_effect:
  assumes "pipe_write_stage p t tot w nb sig = (p', r)"
  shows "ring_eq p' p \<and> (\<forall>n. r = StageLen n \<longrightarrow> 0 < PIPE_BUFFER_SIZE - count p \<and>
     (tot \<le> PIPE_BUFFER_SIZE \<longrightarrow> tot \<le> PIPE_BUFFER_SIZE - count p) \<and>
     n = min (tot - w) (PIPE_BUFFER_SIZE - count p))"
  using assms by (auto simp: pipe_write_stage_def Let_def ring_eq_def split: if_splits)

lemma pipe_write_commit_effect:
  assumes "pipe_write_commit p t tot staged nb sig = (p', ws, r)"
  shows "case r of
      WWrote n \<Rightarrow> 0 < PIPE_BUFFER_SIZE - count p \<and>
          (tot \<le> PIPE_BUFFER_SIZE \<longrightarrow> length staged \<le> PIPE_BUFFER_SIZE - count p) \<and>
          n = min (length staged) (PIPE_BUFFER_SIZE - count p) \<and>
          ring_eq p' (pipe_append p (take n staged))
    | _ \<Rightarrow> ring_eq p' p"
  using assms
  by (auto simp: pipe_write_commit_def Let_def ring_eq_def split: if_splits prod.splits write_outcome.splits)

lemma pipe_release_effect:
  "pipe_read_release p = (p', ws, b) \<Longrightarrow> ring_eq p' p"
  "pipe_write_release p = (p', ws, b) \<Longrightarrow> ring_eq p' p"
  by (auto simp: pipe_read_release_def pipe_write_release_def Let_def ring_eq_def split: prod.splits)

section \<open>The invariant of all interleavings\<close>

text \<open>What a thread in the middle of a call may rely on. A snapshot taken when \<open>n\<close> reads had
  been committed is still the front of the ring as long as no further read commits. A
  write that fits the buffer is still entirely unwritten, or entirely done.\<close>

fun thread_ok :: "pipe \<Rightarrow> nat \<Rightarrow> pipe_thread \<Rightarrow> bool" where
  "thread_ok p reads (UReadCopy tot nb seq bs) =
     (\<exists>n \<le> reads. seq = of_nat n \<and>
        (n = reads \<longrightarrow> length bs \<le> count p \<and> bs = take (length bs) (pipe_contents p)))"
| "thread_ok p reads (Writing src w nb) =
     (w < length src \<and> (length src \<le> PIPE_BUFFER_SIZE \<longrightarrow> w = 0))"
| "thread_ok p reads (WriteSleep src w nb) =
     (w < length src \<and> (length src \<le> PIPE_BUFFER_SIZE \<longrightarrow> w = 0))"
| "thread_ok p reads (UWriting src w nb) =
     (w \<le> length src \<and> (length src \<le> PIPE_BUFFER_SIZE \<longrightarrow> w = 0 \<or> w = length src))"
| "thread_ok p reads (UWriteSleep src w nb) =
     (w < length src \<and> (length src \<le> PIPE_BUFFER_SIZE \<longrightarrow> w = 0))"
| "thread_ok p reads (UWriteCopy src w nb n) =
     (0 < n \<and> w + n \<le> length src \<and> (length src \<le> PIPE_BUFFER_SIZE \<longrightarrow> w = 0 \<and> n = length src))"
| "thread_ok p reads (UWriteCommit src w nb staged) =
     (staged \<noteq> [] \<and> staged = take (length staged) (drop w src) \<and>
      (length src \<le> PIPE_BUFFER_SIZE \<longrightarrow> w = 0 \<and> staged = src))"
| "thread_ok p reads (UWriteCommitSleep src w nb staged) =
     (staged \<noteq> [] \<and> staged = take (length staged) (drop w src) \<and>
      (length src \<le> PIPE_BUFFER_SIZE \<longrightarrow> w = 0 \<and> staged = src))"
| "thread_ok p reads _ = True"

definition pipe_sys_ok :: "pipe_sys \<Rightarrow> bool" where
  "pipe_sys_ok s \<longleftrightarrow> pipe_ok (the_pipe s) \<and>
     concat (map snd (log_out s)) @ pipe_contents (the_pipe s) = concat (map snd (log_in s)) \<and>
     read_seq (the_pipe s) = of_nat (length (log_out s)) \<and>
     (\<forall>t. thread_ok (the_pipe s) (length (log_out s)) (threads s t))"

lemma thread_ok_same: "ring_eq p' p \<Longrightarrow> thread_ok p reads st \<Longrightarrow> thread_ok p' reads st"
  by (cases st) (simp_all add: ring_eqD(2,3))

lemma thread_ok_append:
  assumes "pipe_ok p" "length bs \<le> PIPE_BUFFER_SIZE - count p" "ring_eq p' (pipe_append p bs)"
    and "thread_ok p reads st"
  shows "thread_ok p' reads st"
proof -
  have "pipe_contents p' = pipe_contents p @ bs" and "count p' = count p + length bs"
    using assms(1-3) by (simp_all add: ring_eqD pipe_append_ok) (simp add: pipe_append_def)
  with assms(4) show ?thesis by (cases st) auto
qed

lemma thread_ok_consume: "thread_ok p reads st \<Longrightarrow> thread_ok p' (Suc reads) st"
proof (cases st)
  case (UReadCopy tot nb seq bs)
  assume "thread_ok p reads st"
  with UReadCopy obtain n where "n \<le> reads" "seq = of_nat n" by auto
  then have "n \<le> Suc reads \<and> seq = of_nat n \<and> n \<noteq> Suc reads" by simp
  with UReadCopy show ?thesis by auto
qed simp_all

lemmas pipe_state_simps = sys_put_def wake_threads_def

text \<open>A stretch that leaves the ring alone keeps the invariant, one that appends or consumes
  keeps it with the log extended accordingly.\<close>

lemma sys_ok_same:
  assumes "pipe_sys_ok s" and "ring_eq p' (the_pipe s)"
    and "threads s' = (threads s)(t := st)" and "the_pipe s' = p'"
    and "log_in s' = log_in s" and "log_out s' = log_out s"
    and "thread_ok (the_pipe s) (length (log_out s)) st"
  shows "pipe_sys_ok s'"
  using assms by (auto simp: pipe_sys_ok_def ring_eqD thread_ok_same [OF assms(2)])

lemma sys_ok_append:
  assumes ok: "pipe_sys_ok s" and p': "ring_eq p' (pipe_append (the_pipe s) bs)"
    and room: "length bs \<le> PIPE_BUFFER_SIZE - count (the_pipe s)"
    and s': "threads s' = (threads s)(t := st)" "the_pipe s' = p'"
      "log_in s' = log_in s @ [(t, bs)]" "log_out s' = log_out s"
    and st: "thread_ok p' (length (log_out s)) st"
  shows "pipe_sys_ok s'"
proof -
  have p: "pipe_ok (the_pipe s)" using ok by (simp add: pipe_sys_ok_def)
  have "read_seq p' = read_seq (the_pipe s)" using ring_eqD(4) [OF p'] by (simp add: pipe_append_def)
  moreover have "thread_ok p' (length (log_out s)) (threads s u)" for u
    using ok by (intro thread_ok_append [OF p room p']) (simp add: pipe_sys_ok_def)
  ultimately show ?thesis
    using ok s' st pipe_append_ok [OF p room] ring_eqD(1,2) [OF p']
    by (auto simp: pipe_sys_ok_def)
qed

lemma sys_ok_consume:
  assumes ok: "pipe_sys_ok s" and p': "ring_eq p' (pipe_consume (the_pipe s) n)"
    and n: "n \<le> count (the_pipe s)" and bs: "bs = take n (pipe_contents (the_pipe s))"
    and s': "threads s' = (threads s)(t := RetData bs)" "the_pipe s' = p'"
      "log_in s' = log_in s" "log_out s' = log_out s @ [(t, bs)]"
  shows "pipe_sys_ok s'"
proof -
  have p: "pipe_ok (the_pipe s)" using ok by (simp add: pipe_sys_ok_def)
  have "read_seq p' = read_seq (the_pipe s) + 1" using ring_eqD(4) [OF p'] by (simp add: pipe_consume_def)
  then have "read_seq p' = of_nat (Suc (length (log_out s)))" using ok by (simp add: pipe_sys_ok_def)
  moreover have "thread_ok p' (Suc (length (log_out s))) (threads s u)" for u
    using ok by (intro thread_ok_consume [of "the_pipe s"]) (simp add: pipe_sys_ok_def)
  moreover have "pipe_ok p'" "pipe_contents p' = drop n (pipe_contents (the_pipe s))"
    using pipe_consume_ok [OF p n] ring_eqD(1,2) [OF p'] by simp_all
  ultimately show ?thesis
    using ok s' bs by (auto simp: pipe_sys_ok_def)
qed

lemma of_nat_64_inj: "m < 2 ^ 64 \<Longrightarrow> n < 2 ^ 64 \<Longrightarrow> (of_nat m :: u64) = of_nat n \<longleftrightarrow> m = n"
  by (simp add: word_of_nat_eq_iff take_bit_nat_eq_self)

lemma sys_put_simps [simp]:
  "the_pipe (sys_put s t p ws st) = p"
  "threads (sys_put s t p ws st) = (threads s)(t := st)"
  "log_in (sys_put s t p ws st) = log_in s"
  "log_out (sys_put s t p ws st) = log_out s"
  by (simp_all add: sys_put_def)

lemma sys_ok_put:
  assumes "pipe_sys_ok s" and "ring_eq p' (the_pipe s)"
    and "thread_ok (the_pipe s) (length (log_out s)) st"
  shows "pipe_sys_ok (sys_put s t p' ws st)"
  using assms by (intro sys_ok_same [OF assms(1,2), of _ t st]) simp_all

lemma pipe_read_commit_fresh:
  "read_seq p = seq \<Longrightarrow> \<exists>p' ws. pipe_read_commit p seq n = Some (p', ws)"
  by (simp add: pipe_read_commit_def Let_def split_beta)

lemma exec_read_ok:
  assumes ok: "pipe_sys_ok s" and th: "threads s t = Reading len nb"
    and ex: "pipe_exec t sig cok s = Some s'"
  shows "pipe_sys_ok s'"
proof -
  obtain p' ws r where pr: "pipe_read (the_pipe s) t len nb = (p', ws, r)" by (metis prod_cases3)
  note eff = pipe_read_effect [OF pr]
  show ?thesis
  proof (cases r)
    case (RData bs)
    with eff ok ex th pr show ?thesis
      by (intro sys_ok_consume [OF ok, of p' "min len (count (the_pipe s))" bs _ t])
        (auto simp: pipe_exec_def pipe_sys_ok_def pipe_take_contents)
  qed (use eff ex th pr ok in \<open>auto simp: pipe_exec_def intro!: sys_ok_put [OF ok]\<close>)
qed

lemma exec_write_ok:
  assumes ok: "pipe_sys_ok s" and th: "threads s t = Writing src w nb"
    and ex: "pipe_exec t sig cok s = Some s'"
  shows "pipe_sys_ok s'"
proof -
  obtain p' ws r where pr: "pipe_write (the_pipe s) t src w nb = (p', ws, r)" by (metis prod_cases3)
  note eff = pipe_write_effect [OF pr]
  have w: "w < length src" "length src \<le> PIPE_BUFFER_SIZE \<longrightarrow> w = 0"
    using ok th unfolding pipe_sys_ok_def by (metis thread_ok.simps(2))+
  show ?thesis
  proof (cases r)
    case (WWrote n)
    with eff have n: "n = min (length src - w) (PIPE_BUFFER_SIZE - count (the_pipe s))"
      "ring_eq p' (pipe_append (the_pipe s) (take n (drop w src)))" by auto
    let ?st = "if w + n = length src then RetCount (w + n)
        else if nb then RetCount (w + n) else Writing src (w + n) nb"
    have "thread_ok p' (length (log_out s)) ?st"
      using WWrote eff w n(1) by (auto split: if_splits)
    with WWrote ex th pr n show ?thesis
      by (intro sys_ok_append [OF ok n(2), where st = ?st and t = t]) (auto simp: pipe_exec_def)
  qed (use eff ex th pr w ok in
      \<open>auto simp: pipe_exec_def written_or_def intro!: sys_ok_put [OF ok]\<close>)
qed

lemma exec_ureadcopy_ok:
  assumes ok: "pipe_sys_ok s" and th: "threads s t = UReadCopy tot nb seq bs"
    and ex: "pipe_exec t sig cok s = Some s'" and lim: "length (log_out s) < 2 ^ 64"
  shows "pipe_sys_ok s'"
proof (cases "cok \<and> read_seq (the_pipe s) = seq")
  case True
  obtain n where n: "n \<le> length (log_out s)" "seq = of_nat n"
    "n = length (log_out s) \<longrightarrow> length bs \<le> count (the_pipe s) \<and>
       bs = take (length bs) (pipe_contents (the_pipe s))"
    using ok th unfolding pipe_sys_ok_def by (metis thread_ok.simps(1))
  have "of_nat n = (of_nat (length (log_out s)) :: u64)"
    using True n ok by (simp add: pipe_sys_ok_def)
  then have "n = length (log_out s)" using n lim of_nat_64_inj [of n "length (log_out s)"] by auto
  with n have bs: "length bs \<le> count (the_pipe s)" "bs = take (length bs) (pipe_contents (the_pipe s))"
    by auto
  obtain p' ws where pc: "pipe_read_commit (the_pipe s) seq (length bs) = Some (p', ws)"
    using True pipe_read_commit_fresh by blast
  note eff = pipe_read_commit_effect [OF this]
  from ex th True pc show ?thesis
    by (intro sys_ok_consume [OF ok conjunct2 [OF eff] bs(1) bs(2), where t = t])
      (auto simp: pipe_exec_def)
next
  case False
  show ?thesis
  proof (cases cok)
    case True
    with False ex th show ?thesis
      by (intro sys_ok_same [OF ok, of "the_pipe s" s' t "if sig then RetErr EINTR else UReading tot nb"])
        (auto simp: pipe_exec_def pipe_read_commit_def)
  next
    case False
    obtain p' ws where pf: "pipe_read_fault (the_pipe s) = (p', ws)" by fastforce
    from pipe_fault_effect(1) [OF this] pf ex th False show ?thesis
      by (intro sys_ok_same [OF ok, of p' s' t "RetErr EFAULT"]) (auto simp: pipe_exec_def)
  qed
qed

lemma exec_uread_ok:
  assumes ok: "pipe_sys_ok s" and th: "threads s t = UReading tot nb"
    and ex: "pipe_exec t sig cok s = Some s'"
  shows "pipe_sys_ok s'"
proof -
  obtain p' r where pr: "pipe_read_snapshot (the_pipe s) t tot nb sig = (p', r)" by fastforce
  note eff = pipe_read_snapshot_effect [OF pr]
  have p: "pipe_ok (the_pipe s)" and seq: "read_seq (the_pipe s) = of_nat (length (log_out s))"
    using ok by (simp_all add: pipe_sys_ok_def)
  show ?thesis
  proof (cases r)
    case (SnapData q bs)
    with eff have "q = read_seq (the_pipe s)"
      "bs = take (min tot (count (the_pipe s))) (pipe_contents (the_pipe s))"
      by (auto simp: pipe_take_contents [OF p])
    then have "thread_ok (the_pipe s) (length (log_out s)) (UReadCopy tot nb q bs)"
      using seq by auto
    with SnapData eff ex th pr show ?thesis
      by (intro sys_ok_same [OF ok, of p' s' t "UReadCopy tot nb q bs"]) (auto simp: pipe_exec_def)
  qed (use eff ex th pr ok in \<open>auto simp: pipe_exec_def intro!: sys_ok_put [OF ok]\<close>)
qed

lemma exec_uwrite_ok:
  assumes ok: "pipe_sys_ok s" and th: "threads s t = UWriting src w nb"
    and ex: "pipe_exec t sig cok s = Some s'"
  shows "pipe_sys_ok s'"
proof (cases "w < length src")
  case True
  obtain p' r where pr: "pipe_write_stage (the_pipe s) t (length src) w nb sig = (p', r)" by fastforce
  note eff = pipe_write_stage_effect [OF pr]
  have w: "length src \<le> PIPE_BUFFER_SIZE \<longrightarrow> w = 0"
    using ok th True unfolding pipe_sys_ok_def by (metis thread_ok.simps(4) less_irrefl)
  show ?thesis
    by (cases r)
      (use eff ex th pr ok w True in
        \<open>auto simp: pipe_exec_def written_or_def intro!: sys_ok_put [OF ok]\<close>)
next
  case False
  with ex th show ?thesis
    by (intro sys_ok_same [OF ok, of "the_pipe s" s' t "RetCount w"]) (auto simp: pipe_exec_def)
qed

lemma exec_uwritecommit_ok:
  assumes ok: "pipe_sys_ok s" and th: "threads s t = UWriteCommit src w nb staged"
    and ex: "pipe_exec t sig cok s = Some s'"
  shows "pipe_sys_ok s'"
proof -
  obtain p' ws r where pr: "pipe_write_commit (the_pipe s) t (length src) staged nb sig = (p', ws, r)"
    by (metis prod_cases3)
  note eff = pipe_write_commit_effect [OF pr]
  have st: "staged \<noteq> []" "staged = take (length staged) (drop w src)"
    "length src \<le> PIPE_BUFFER_SIZE \<longrightarrow> w = 0 \<and> staged = src"
    using ok th unfolding pipe_sys_ok_def by (metis thread_ok.simps(7))+
  have "length staged = min (length staged) (length src - w)"
    using arg_cong [OF st(2), of length] by (simp only: length_take length_drop min.commute)
  moreover have "0 < length staged" using st(1) by simp
  ultimately have wl: "w + length staged \<le> length src" by linarith
  show ?thesis
  proof (cases r)
    case (WWrote n)
    let ?st = "if nb then RetCount (w + n) else if w + n < length src \<and> sig then RetCount (w + n)
        else UWriting src (w + n) nb"
    from WWrote eff have n: "n = min (length staged) (PIPE_BUFFER_SIZE - count (the_pipe s))"
      "ring_eq p' (pipe_append (the_pipe s) (take n staged))" by auto
    have "thread_ok p' (length (log_out s)) ?st"
      using WWrote eff st wl n(1) by (auto split: if_splits)
    with WWrote ex th pr n show ?thesis
      by (intro sys_ok_append [OF ok n(2), where st = ?st and t = t]) (auto simp: pipe_exec_def)
  qed (use eff ex th pr st ok in
      \<open>auto simp: pipe_exec_def written_or_def intro!: sys_ok_put [OF ok]\<close>)
qed

lemma log_out_mono: "pipe_exec t sig cok s = Some s' \<Longrightarrow> length (log_out s) \<le> length (log_out s')"
  by (auto simp: pipe_exec_def Let_def split: pipe_thread.splits prod.splits read_outcome.splits
      write_outcome.splits snap_outcome.splits stage_outcome.splits option.splits if_splits)

lemma exec_ok:
  assumes ok: "pipe_sys_ok s" and ex: "pipe_exec t sig cok s = Some s'"
    and lim: "length (log_out s) < 2 ^ 64"
  shows "pipe_sys_ok s'"
proof (cases "threads s t")
  case (ReadSleep len nb)
  with ex show ?thesis
    by (intro sys_ok_same [OF ok, of "the_pipe s'" s' t "if sig then RetErr EINTR else Reading len nb"])
      (auto simp: pipe_exec_def Let_def ring_eq_def split: if_splits)
next
  case (UReadSleep len nb)
  with ex show ?thesis
    by (intro sys_ok_same [OF ok, of "the_pipe s'" s' t "if sig then RetErr EINTR else UReading len nb"])
      (auto simp: pipe_exec_def Let_def ring_eq_def split: if_splits)
next
  case (WriteSleep src w nb)
  have w: "thread_ok (the_pipe s) (length (log_out s)) (WriteSleep src w nb)"
    using ok WriteSleep unfolding pipe_sys_ok_def by metis
  with WriteSleep ex show ?thesis
    by (intro sys_ok_same [OF ok, of "the_pipe s'" s' t "if sig then written_or w EINTR else Writing src w nb"])
      (auto simp: pipe_exec_def Let_def ring_eq_def written_or_def split: if_splits)
next
  case (UWriteSleep src w nb)
  have w: "thread_ok (the_pipe s) (length (log_out s)) (UWriteSleep src w nb)"
    using ok UWriteSleep unfolding pipe_sys_ok_def by metis
  with UWriteSleep ex show ?thesis
    by (intro sys_ok_same [OF ok, of "the_pipe s'" s' t "if sig then written_or w EINTR else UWriting src w nb"])
      (auto simp: pipe_exec_def Let_def ring_eq_def written_or_def split: if_splits)
next
  case (UWriteCommitSleep src w nb staged)
  have w: "thread_ok (the_pipe s) (length (log_out s)) (UWriteCommitSleep src w nb staged)"
    using ok UWriteCommitSleep unfolding pipe_sys_ok_def by metis
  with UWriteCommitSleep ex show ?thesis
    by (intro sys_ok_same [OF ok, of "the_pipe s'" s' t
          "if sig then written_or w EINTR else UWriteCommit src w nb staged"])
      (auto simp: pipe_exec_def Let_def ring_eq_def written_or_def split: if_splits)
next
  case (UWriteCopy src w nb n)
  have w: "thread_ok (the_pipe s) (length (log_out s)) (UWriteCopy src w nb n)"
    using ok UWriteCopy unfolding pipe_sys_ok_def by metis
  obtain p' ws where pf: "pipe_write_fault (the_pipe s) = (p', ws)" by fastforce
  from pipe_fault_effect(2) [OF pf] pf ex UWriteCopy w show ?thesis
    by (intro sys_ok_same [OF ok, of "the_pipe s'" s' t
          "if cok then UWriteCommit src w nb (take n (drop w src)) else written_or w EFAULT"])
      (auto simp: pipe_exec_def Let_def written_or_def split: if_splits)
next
  case (Reading len nb) then show ?thesis by (rule exec_read_ok [OF ok _ ex])
next
  case (Writing src w nb) then show ?thesis by (rule exec_write_ok [OF ok _ ex])
next
  case (UReading tot nb) then show ?thesis by (rule exec_uread_ok [OF ok _ ex])
next
  case (UReadCopy tot nb seq bs) then show ?thesis by (rule exec_ureadcopy_ok [OF ok _ ex lim])
next
  case (UWriting src w nb) then show ?thesis by (rule exec_uwrite_ok [OF ok _ ex])
next
  case (UWriteCommit src w nb staged) then show ?thesis by (rule exec_uwritecommit_ok [OF ok _ ex])
qed (use ex in \<open>simp_all add: pipe_exec_def\<close>)

lemma log_out_step_mono: "pipe_step s s' \<Longrightarrow> length (log_out s) \<le> length (log_out s')"
  by (induction rule: pipe_step.induct) (auto dest: log_out_mono)

lemma pipe_step_ok:
  assumes "pipe_step s s'" and "pipe_sys_ok s" and "length (log_out s) < 2 ^ 64"
  shows "pipe_sys_ok s'"
  using assms
proof (induction rule: pipe_step.induct)
  case (ps_read s t len nb)
  then show ?case
    by (intro sys_ok_same [OF ps_read(2), of "the_pipe s" _ t "call_read len nb"]) (auto simp: call_read_def)
next
  case (ps_write s t src nb)
  then show ?case
    by (intro sys_ok_same [OF ps_write(2), of "the_pipe s" _ t "call_write src nb"]) (auto simp: call_write_def)
next
  case (ps_read_user s t len nb)
  then show ?case
    by (intro sys_ok_same [OF ps_read_user(2), of "the_pipe s" _ t "call_read_user len nb"]) (auto simp: call_read_user_def)
next
  case (ps_write_user s t src nb)
  then show ?case
    by (intro sys_ok_same [OF ps_write_user(2), of "the_pipe s" _ t "call_write_user src nb"]) (auto simp: call_write_user_def)
next
  case ps_exec
  then show ?case using exec_ok by blast
next
  case (ps_close_read s p ws fr)
  with pipe_release_effect(1) [OF ps_close_read(1)] show ?case
    by (intro sys_ok_same [OF ps_close_read(2), of p _ undefined "threads s undefined"])
      (auto simp: pipe_sys_ok_def)
next
  case (ps_close_write s p ws fr)
  with pipe_release_effect(2) [OF ps_close_write(1)] show ?case
    by (intro sys_ok_same [OF ps_close_write(2), of p _ undefined "threads s undefined"])
      (auto simp: pipe_sys_ok_def)
qed

lemma pipe_start_ok: "pipe_sys_ok pipe_start"
  by (simp add: pipe_sys_ok_def pipe_start_def pipe_fresh_def pipe_ok_def pipe_contents_def ring_view_def)

lemma pipe_reach_ok:
  "pipe_step\<^sup>*\<^sup>* pipe_start s \<Longrightarrow> length (log_out s) < 2 ^ 64 \<Longrightarrow> pipe_sys_ok s"
proof (induction rule: rtranclp_induct)
  case base
  show ?case by (rule pipe_start_ok)
next
  case (step s s')
  then have "length (log_out s) < 2 ^ 64" using log_out_step_mono [OF step(2)] by linarith
  with step show ?case by (intro pipe_step_ok [OF step(2)]) simp_all
qed

text \<open>C4: For every interleaving of any number of readers and writers, in kernel and in
  user buffers, with signals, faults and closes: the data delivered to readers followed by
  the data in the ring is exactly the data accepted from writers, in order; and the ring's
  positions and count stay in bounds. The 64-bit sequence number protects the lock-free
  copies as long as fewer than \<open>2 ^ 64\<close> reads have been committed.\<close>

theorem pipe_fifo:
  assumes "pipe_step\<^sup>*\<^sup>* pipe_start s" and "length (log_out s) < 2 ^ 64"
  shows "concat (map snd (log_out s)) @ pipe_contents (the_pipe s) = concat (map snd (log_in s)) \<and>
    count (the_pipe s) \<le> PIPE_BUFFER_SIZE \<and> read_pos (the_pipe s) < PIPE_BUFFER_SIZE \<and>
    write_pos (the_pipe s) < PIPE_BUFFER_SIZE"
  using pipe_reach_ok [OF assms] by (auto simp: pipe_sys_ok_def pipe_ok_def)

text \<open>The request a writing thread was called with.\<close>

fun thread_src :: "pipe_thread \<Rightarrow> u8 list option" where
  "thread_src (Writing src w nb) = Some src"
| "thread_src (UWriteCommit src w nb staged) = Some src"
| "thread_src _ = None"

lemma exec_log_in:
  assumes "pipe_exec t sig cok s = Some s'" and "log_in s' \<noteq> log_in s"
  shows "(\<exists>src w nb n p' ws. threads s t = Writing src w nb \<and>
            pipe_write (the_pipe s) t src w nb = (p', ws, WWrote n) \<and>
            log_in s' = log_in s @ [(t, take n (drop w src))]) \<or>
         (\<exists>src w nb staged n p' ws. threads s t = UWriteCommit src w nb staged \<and>
            pipe_write_commit (the_pipe s) t (length src) staged nb sig = (p', ws, WWrote n) \<and>
            log_in s' = log_in s @ [(t, take n staged)])"
  using assms
  by (cases "threads s t")
    (auto simp: pipe_exec_def Let_def split: prod.splits read_outcome.splits
      write_outcome.splits snap_outcome.splits stage_outcome.splits option.splits if_splits)

text \<open>C26: A write of at most \<^verbatim>\<open>PIPE_BUFFER_SIZE\<close> bytes is atomic: whenever a thread's
  stretch adds data to the pipe, it adds the whole request in one piece.\<close>

theorem pipe_write_atomic:
  assumes reach: "pipe_step\<^sup>*\<^sup>* pipe_start s" and lim: "length (log_out s) < 2 ^ 64"
    and ex: "pipe_exec t sig cok s = Some s'" and new: "log_in s' \<noteq> log_in s"
    and src: "thread_src (threads s t) = Some src" "length src \<le> PIPE_BUFFER_SIZE"
  shows "log_in s' = log_in s @ [(t, src)]"
proof -
  have ok: "\<forall>t. thread_ok (the_pipe s) (length (log_out s)) (threads s t)"
    using pipe_reach_ok [OF reach lim] by (simp add: pipe_sys_ok_def)
  from exec_log_in [OF ex new] show ?thesis
  proof (elim disjE exE conjE)
    fix src' w nb n p' ws
    assume th: "threads s t = Writing src' w nb"
      and pw: "pipe_write (the_pipe s) t src' w nb = (p', ws, WWrote n)"
      and l: "log_in s' = log_in s @ [(t, take n (drop w src'))]"
    from th src have eq: "src' = src" by simp
    with th ok src have "w = 0" by (metis thread_ok.simps(2))
    with l eq src pipe_write_effect [OF pw] show ?thesis by simp
  next
    fix src' w nb staged n p' ws
    assume th: "threads s t = UWriteCommit src' w nb staged"
      and pw: "pipe_write_commit (the_pipe s) t (length src') staged nb sig = (p', ws, WWrote n)"
      and l: "log_in s' = log_in s @ [(t, take n staged)]"
    from th src have eq: "src' = src" by simp
    with th ok src have "staged = src" by (metis thread_ok.simps(7))
    with l eq src pipe_write_commit_effect [OF pw] show ?thesis by simp
  qed
qed

definition example_write :: pipe_sys where
  "example_write = pipe_start\<lparr>threads := (threads pipe_start)(3 := Writing [7] 0 False)\<rparr>"

lemma example_write_reach: "pipe_step\<^sup>*\<^sup>* pipe_start example_write"
proof -
  have "pipe_step pipe_start (pipe_start\<lparr>threads := (threads pipe_start)(3 := call_write [7] False)\<rparr>)"
    by (rule ps_write) (simp add: pipe_start_def)
  then show ?thesis by (simp add: example_write_def call_write_def r_into_rtranclp)
qed

lemma example_write_exec:
  "\<exists>s'. pipe_exec 3 False True example_write = Some s' \<and> log_in s' = [(3, [7])] \<and> log_out s' = []"
  by (simp add: pipe_exec_def example_write_def pipe_start_def pipe_write_def pipe_fresh_def Let_def
      pipe_wait_pop_def wake_one_def PIPE_BUFFER_SIZE_def pipe_append_def)

theorem pipe_write_atomic_witness:
  "\<exists>s'. pipe_exec 3 False True example_write = Some s' \<and> log_in s' = log_in example_write @ [(3, [7])]"
proof -
  obtain s' where s': "pipe_exec 3 False True example_write = Some s'" "log_in s' = [(3, [7])]"
    using example_write_exec by blast
  have "log_in s' = log_in example_write @ [(3, [7])]"
    by (rule pipe_write_atomic [OF example_write_reach _ s'(1)])
      (simp_all add: s' example_write_def pipe_start_def PIPE_BUFFER_SIZE_def)
  with s' show ?thesis by blast
qed

theorem pipe_fifo_witness:
  "\<exists>s'. pipe_exec 3 False True example_write = Some s' \<and> pipe_contents (the_pipe s') = [7]"
proof -
  obtain s' where s': "pipe_exec 3 False True example_write = Some s'" "log_in s' = [(3, [7])]"
    "log_out s' = []" using example_write_exec by blast
  have "pipe_step\<^sup>*\<^sup>* pipe_start s'"
    using example_write_reach ps_exec [OF s'(1)] by (rule rtranclp.rtrancl_into_rtrancl)
  from pipe_fifo [OF this] s' show ?thesis by auto
qed

section \<open>Polling\<close>

text \<open>\<^verbatim>\<open>pipe_read_poll\<close> reports \<^verbatim>\<open>POLLIN\<close> exactly when a non-blocking read would not
  fail with \<^verbatim>\<open>EAGAIN\<close>, and \<^verbatim>\<open>pipe_write_poll\<close> reports \<^verbatim>\<open>POLLOUT\<close> exactly when a
  non-blocking write of one byte would succeed.\<close>

lemma pipe_poll_agrees:
  "(pipe_read_poll p AND POLLIN \<noteq> 0 \<longleftrightarrow> snd (snd (pipe_read p t len True)) \<noteq> RErr EAGAIN) \<and>
   (pipe_write_poll p AND POLLOUT \<noteq> 0 \<longleftrightarrow> snd (snd (pipe_write p t [b] 0 True)) = WWrote 1)"
  by (auto simp: pipe_read_poll_def pipe_read_def pipe_write_poll_def pipe_write_def Let_def
      PIPE_BUFFER_SIZE_def split: prod.splits)

section \<open>A lost wake-up\<close>

text \<open>C27: Two readers sleep, a kernel writer adds one byte and wakes the first of them. If
  that reader has a signal pending when it runs, \<^verbatim>\<open>pipe_read\<close> returns \<^verbatim>\<open>EINTR\<close> without
  passing the wake-up on: the second reader sleeps although there is data, and no thread is
  left that would wake it.\<close>

theorem pipe_read_lost_wakeup:
  "\<exists>s. pipe_step\<^sup>*\<^sup>* pipe_start s \<and> threads s 2 = ReadSleep 1 False \<and> \<not> woken s 2 \<and>
     count (the_pipe s) = 1 \<and> {t. \<not> pipe_at_rest (threads s t)} = {2}"
proof -
  define s1 where "s1 = pipe_start\<lparr>threads := (threads pipe_start)(1 := call_read 1 False)\<rparr>"
  define s2 where "s2 = s1\<lparr>threads := (threads s1)(2 := call_read 1 False)\<rparr>"
  define s3 where "s3 = the (pipe_exec 1 False True s2)"
  define s4 where "s4 = the (pipe_exec 2 False True s3)"
  define s5 where "s5 = s4\<lparr>threads := (threads s4)(3 := call_write [7] False)\<rparr>"
  define s6 where "s6 = the (pipe_exec 3 False True s5)"
  define s7 where "s7 = the (pipe_exec 1 True True s6)"
  note d = pipe_exec_def Let_def pipe_start_def call_read_def call_write_def pipe_read_def pipe_write_def
    pipe_wait_push_def pipe_wait_pop_def pipe_wait_remove_def wake_one_def sys_put_def pipe_fresh_def
    wake_threads_def pipe_append_def
  have e3: "pipe_exec 1 False True s2 = Some s3"
    by (simp add: s3_def s2_def s1_def d)
  have e4: "pipe_exec 2 False True s3 = Some s4"
    by (simp add: s4_def s3_def s2_def s1_def d)
  have w4: "threads s4 = (threads pipe_start)(1 := ReadSleep 1 False, 2 := ReadSleep 1 False)"
    "count (the_pipe s4) = 0" "readers (the_pipe s4) = 1" "read_wait (the_pipe s4) = [1, 2]"
    "write_wait (the_pipe s4) = []" "\<forall>t. \<not> woken s4 t"
    by (simp_all add: s4_def s3_def s2_def s1_def d fun_upd_twist)
  have e6: "pipe_exec 3 False True s5 = Some s6"
    and w6: "threads s6 = (threads s4)(3 := RetCount 1)" "count (the_pipe s6) = 1"
      "read_wait (the_pipe s6) = [2]" "\<forall>t. woken s6 t \<longleftrightarrow> t = 1"
    using w4 by (simp_all add: s6_def s5_def d PIPE_BUFFER_SIZE_def)
  have e7: "pipe_exec 1 True True s6 = Some s7"
    and w7: "threads s7 = (threads s6)(1 := RetErr EINTR)" "count (the_pipe s7) = 1" "\<not> woken s7 2"
    using w4 w6 by (simp_all add: s7_def d)
  have "pipe_step pipe_start s1" unfolding s1_def by (rule ps_read) (simp add: pipe_start_def)
  moreover have "pipe_step s1 s2" unfolding s2_def by (rule ps_read) (simp add: s1_def pipe_start_def)
  moreover have "pipe_step s4 s5" unfolding s5_def by (rule ps_write) (simp add: w4 pipe_start_def)
  ultimately have "pipe_step\<^sup>*\<^sup>* pipe_start s7"
    using ps_exec [OF e3] ps_exec [OF e4] ps_exec [OF e6] ps_exec [OF e7]
    by (meson converse_rtranclp_into_rtranclp rtranclp.rtrancl_refl)
  moreover have "threads s7 2 = ReadSleep 1 False" "{t. \<not> pipe_at_rest (threads s7 t)} = {2}"
    using w4 w6 w7 by (auto simp: pipe_start_def)
  ultimately show ?thesis using w7 by blast
qed

end
