(* ===== verification/Block.thy ===== *)
theory Block
  imports Ring "HOL-Library.Char_ord"
begin

text \<open>
  The block layer: mapping byte ranges to sectors and the read, write, zero and discard
  paths of \<^verbatim>\<open>drivers/block/block.c\<close>, the RAM disk of the same file, and the MBR
  partitions of \<^verbatim>\<open>drivers/block/partition.c\<close>.

  The driver operations a device is registered with (\<^verbatim>\<open>struct block_ops\<close>) are function
  pointers in the code and function arguments here: they act on the driver's state
  \<open>'d\<close>. What the block layer expects of them is the locale \<open>sector_device\<close>; the RAM disk
  and a partition of any such device are instances.
\<close>

section \<open>Mapping byte ranges to sectors\<close>

definition BLOCK_MAX_XFER :: u64 where "BLOCK_MAX_XFER = 0x100000"

text \<open>The result is the number of bytes to transfer, the first sector, the offset in it and
  the number of sectors; \<open>None\<close> stands for a return of 0.\<close>

definition block_map_range ::
    "u32 \<Rightarrow> u64 \<Rightarrow> u64 \<Rightarrow> u64 \<Rightarrow> (u64 \<times> u64 \<times> u32 \<times> u32) option" where
  "block_map_range sector_size sector_count offset len0 =
     (let ss = ucast sector_size :: u64
      in if sector_size = 0 \<or> len0 = 0 then None
         else let lba = offset div ss; in_sec = ucast (offset mod ss) :: u32
              in if sector_count \<noteq> 0 \<and> lba \<ge> sector_count then None
                 else let len1 = (if len0 > BLOCK_MAX_XFER then BLOCK_MAX_XFER else len0);
                          sectors0 = (ucast in_sec + len1 + ss - 1) div ss;
                          avail = sector_count - lba;
                          (sectors, len) =
                            (if sector_count \<noteq> 0 \<and> sectors0 > avail
                             then (avail, let max_bytes = avail * ss - ucast in_sec
                                          in if len1 > max_bytes then max_bytes else len1)
                             else (sectors0, len1))
                      in if sectors = 0 \<or> len = 0 then None
                         else Some (len, lba, in_sec, ucast sectors))"

section \<open>Reading and writing\<close>

text \<open>
  The driver's read returns the bytes it put into the buffer, an empty list for a return of
  0. \<open>kz_ok\<close> is whether the staging buffer could be allocated. The result is the data, its
  length the amount the file offset advances.
\<close>

definition block_fops_read ::
    "('d \<Rightarrow> u64 \<Rightarrow> u32 \<Rightarrow> errno + u8 list) \<Rightarrow> u32 \<Rightarrow> u64 \<Rightarrow> bool \<Rightarrow> 'd \<Rightarrow> u64 \<Rightarrow> u64
       \<Rightarrow> errno + u8 list" where
  "block_fops_read read_sectors sector_size sector_count kz_ok d offset len =
     (case block_map_range sector_size sector_count offset len of None \<Rightarrow> Inr []
      | Some (xfer, lba, in_sec, cnt) \<Rightarrow>
          if \<not> kz_ok then Inl ENOMEM
          else (case read_sectors d lba cnt of Inl e \<Rightarrow> Inl e
            | Inr sec_buf \<Rightarrow> Inr (take (unat xfer) (drop (unat in_sec) sec_buf))))"

definition BLKDEV_RO :: u32 where "BLKDEV_RO = 1"

definition block_fops_write ::
    "('d \<Rightarrow> u64 \<Rightarrow> u32 \<Rightarrow> errno + u8 list) \<Rightarrow> ('d \<Rightarrow> u64 \<Rightarrow> u32 \<Rightarrow> u8 list \<Rightarrow> 'd \<times> (errno + nat))
       \<Rightarrow> u32 \<Rightarrow> u64 \<Rightarrow> u32 \<Rightarrow> bool \<Rightarrow> 'd \<Rightarrow> u64 \<Rightarrow> u8 list \<Rightarrow> 'd \<times> (errno + nat)" where
  "block_fops_write read_sectors write_sectors sector_size sector_count flags kz_ok d offset buf =
     (if flags AND BLKDEV_RO \<noteq> 0 then (d, Inl EPERM)
      else (case block_map_range sector_size sector_count offset (of_nat (length buf)) of
              None \<Rightarrow> (d, Inr 0)
            | Some (xfer, lba, in_sec, cnt) \<Rightarrow>
                if \<not> kz_ok then (d, Inl ENOMEM)
                else (let zeros = replicate (unat cnt * unat sector_size) 0;
                          sec_buf =
                            (if in_sec \<noteq> 0 \<or> xfer mod ucast sector_size \<noteq> 0
                             then (case read_sectors d lba cnt of
                                     Inl e \<Rightarrow> zeros | Inr bs \<Rightarrow> memcpy_at zeros 0 bs)
                             else zeros);
                          out = memcpy_at sec_buf (unat in_sec) (take (unat xfer) buf)
                      in case write_sectors d lba cnt out of
                           (d', Inl e) \<Rightarrow> (d', Inl e)
                         | (d', Inr ret) \<Rightarrow> (d', Inr (if ret > 0 then unat xfer else 0)))))"

section \<open>Zeroing and discarding\<close>

text \<open>The loop writes at most \<open>chunk\<close> sectors of zeroes at a time; the caller's \<open>chunk\<close> is
  never 0.\<close>

definition zero_n :: "u32 \<Rightarrow> u64 \<Rightarrow> u32" where
  "zero_n chunk sectors = (if sectors > ucast chunk then chunk else ucast sectors)"

lemma zero_n_bounds:
  assumes "sectors \<noteq> 0" and "chunk \<noteq> 0"
  shows "unat (zero_n chunk sectors) = min (unat chunk) (unat sectors)"
    and "0 < unat (zero_n chunk sectors)"
proof -
  have "unat (ucast sectors :: u32) = unat sectors" if "\<not> sectors > ucast chunk"
  proof -
    have "unat sectors \<le> unat chunk" using that by (simp add: word_less_nat_alt unat_simps)
    then have "unat sectors < 2 ^ 32" using unat_less [of chunk] by simp
    then show ?thesis by (simp add: unsigned_ucast_eq take_bit_nat_eq_self)
  qed
  then show *: "unat (zero_n chunk sectors) = min (unat chunk) (unat sectors)"
    by (auto simp: zero_n_def word_less_nat_alt unat_simps min_def)
  show "0 < unat (zero_n chunk sectors)" using assms by (simp add: * unat_gt_0)
qed

lemma zero_n_sub:
  assumes "sectors \<noteq> 0" and "chunk \<noteq> 0"
  shows "unat (sectors - ucast (zero_n chunk sectors) :: u64) = unat sectors - unat (zero_n chunk sectors)"
  using zero_n_bounds [OF assms] by (subst unat_sub) (simp_all add: word_le_nat_alt unat_simps)

function block_zero_loop ::
    "('d \<Rightarrow> u64 \<Rightarrow> u32 \<Rightarrow> u8 list \<Rightarrow> 'd \<times> (errno + nat)) \<Rightarrow> nat \<Rightarrow> u32 \<Rightarrow> 'd \<Rightarrow> u64 \<Rightarrow> u64
       \<Rightarrow> 'd \<times> (errno + unit)" where
  "block_zero_loop write_sectors ss chunk d lba sectors =
     (if sectors = 0 \<or> chunk = 0 then (d, Inr ())
      else (let n = zero_n chunk sectors
            in case write_sectors d lba n (replicate (unat n * ss) 0) of
                 (d', Inl e) \<Rightarrow> (d', Inl e)
               | (d', Inr w) \<Rightarrow> block_zero_loop write_sectors ss chunk d' (lba + ucast n) (sectors - ucast n)))"
  by pat_completeness auto
termination
  by (relation "measure (\<lambda>(wr, ss, chunk, d, lba, sectors). unat sectors)")
    (use zero_n_bounds(2) in \<open>auto simp: zero_n_sub unat_gt_0 diff_less\<close>)

definition block_zero_range ::
    "('d \<Rightarrow> u64 \<Rightarrow> u32 \<Rightarrow> u8 list \<Rightarrow> 'd \<times> (errno + nat)) option \<Rightarrow> u32 \<Rightarrow> u64 \<Rightarrow> bool \<Rightarrow> 'd \<Rightarrow> u64 \<Rightarrow> u64
       \<Rightarrow> 'd \<times> (errno + unit)" where
  "block_zero_range write_sectors sector_size sector_count kz_ok d start len =
     (let ss = ucast sector_size :: u64
      in if sector_size = 0 then (d, Inl EINVAL)
         else if start mod ss \<noteq> 0 \<or> len mod ss \<noteq> 0 then (d, Inl EINVAL)
         else (case write_sectors of None \<Rightarrow> (d, Inl EOPNOTSUPP)
           | Some wr \<Rightarrow>
               (let lba = start div ss; sectors = len div ss
                in if sector_count \<noteq> 0 \<and> lba + sectors > sector_count then (d, Inl EINVAL)
                   else (let chunk0 = ucast (BLOCK_MAX_XFER div ss) :: u32;
                             chunk = (if chunk0 = 0 then 1 else chunk0)
                         in if \<not> kz_ok then (d, Inl ENOMEM)
                            else block_zero_loop wr (unat sector_size) chunk d lba sectors))))"

definition block_dev_trim ::
    "('d \<Rightarrow> u64 \<Rightarrow> u32 \<Rightarrow> 'd \<times> (errno + unit)) option \<Rightarrow> u64 \<Rightarrow> 'd \<Rightarrow> u64 \<Rightarrow> u32 \<Rightarrow> 'd \<times> (errno + unit)" where
  "block_dev_trim trim sector_count d lba cnt =
     (if cnt = 0 then (d, Inl EINVAL)
      else if sector_count \<noteq> 0 \<and> lba + ucast cnt > sector_count then (d, Inl EINVAL)
      else (case trim of None \<Rightarrow> (d, Inr ()) | Some tr \<Rightarrow> tr d lba cnt))"

definition block_dev_flush :: "('d \<Rightarrow> 'd \<times> (errno + unit)) option \<Rightarrow> 'd \<Rightarrow> 'd \<times> (errno + unit)" where
  "block_dev_flush flush d = (case flush of None \<Rightarrow> (d, Inr ()) | Some fl \<Rightarrow> fl d)"

text \<open>The cases \<^verbatim>\<open>BLKDISCARD\<close>, \<^verbatim>\<open>BLKSECDISCARD\<close> and \<^verbatim>\<open>BLKZEROOUT\<close> of the ioctl;
  \<open>rng\<close> is the pair of start and length read from user memory. The first two cases share
  their code.\<close>

definition blk_discard ::
    "('d \<Rightarrow> u64 \<Rightarrow> u32 \<Rightarrow> 'd \<times> (errno + unit)) option
       \<Rightarrow> ('d \<Rightarrow> u64 \<Rightarrow> u32 \<Rightarrow> u8 list \<Rightarrow> 'd \<times> (errno + nat)) option
       \<Rightarrow> u32 \<Rightarrow> u64 \<Rightarrow> u32 \<Rightarrow> bool \<Rightarrow> 'd \<Rightarrow> (u64 \<times> u64) option \<Rightarrow> 'd \<times> (errno + unit)" where
  "blk_discard trim write_sectors sector_size sector_count flags kz_ok d rng =
     (let ss = (if sector_size \<noteq> 0 then ucast sector_size else 512) :: u64; bytes = sector_count * ss
      in case rng of None \<Rightarrow> (d, Inl EFAULT)
         | Some (r0, r1) \<Rightarrow>
             if flags AND BLKDEV_RO \<noteq> 0 then (d, Inl EPERM)
             else if r1 = 0 then (d, Inr ())
             else if r0 mod ss \<noteq> 0 \<or> r1 mod ss \<noteq> 0 then (d, Inl EINVAL)
             else if r0 + r1 > bytes then (d, Inl EINVAL)
             else (case trim of
                     None \<Rightarrow> block_zero_range write_sectors sector_size sector_count kz_ok d r0 r1
                   | Some tr \<Rightarrow>
                       (case block_dev_trim trim sector_count d (r0 div ss) (ucast (r1 div ss)) of
                          (d', Inr u) \<Rightarrow> (d', Inr ())
                        | (d', Inl e) \<Rightarrow>
                            block_zero_range write_sectors sector_size sector_count kz_ok d' r0 r1)))"

definition blk_zeroout ::
    "('d \<Rightarrow> u64 \<Rightarrow> u32 \<Rightarrow> u8 list \<Rightarrow> 'd \<times> (errno + nat)) option
       \<Rightarrow> u32 \<Rightarrow> u64 \<Rightarrow> u32 \<Rightarrow> bool \<Rightarrow> 'd \<Rightarrow> (u64 \<times> u64) option \<Rightarrow> 'd \<times> (errno + unit)" where
  "blk_zeroout write_sectors sector_size sector_count flags kz_ok d rng =
     (let ss = (if sector_size \<noteq> 0 then ucast sector_size else 512) :: u64; bytes = sector_count * ss
      in case rng of None \<Rightarrow> (d, Inl EFAULT)
         | Some (r0, r1) \<Rightarrow>
             if flags AND BLKDEV_RO \<noteq> 0 then (d, Inl EPERM)
             else if r1 = 0 then (d, Inr ())
             else if r0 + r1 > bytes then (d, Inl EINVAL)
             else block_zero_range write_sectors sector_size sector_count kz_ok d r0 r1)"

section \<open>The RAM disk\<close>

text \<open>The driver state is the memory behind the disk, \<open>total_size\<close> bytes of it.\<close>

definition ramdisk_read :: "u64 \<Rightarrow> u32 \<Rightarrow> u8 list \<Rightarrow> u64 \<Rightarrow> u32 \<Rightarrow> errno + u8 list" where
  "ramdisk_read total_size sector_size mem lba cnt =
     (let offset = lba * ucast sector_size; len = ucast cnt * ucast sector_size
      in if offset + len > total_size then Inl EINVAL
         else Inr (take (unat len) (drop (unat offset) mem)))"

definition ramdisk_write ::
    "u64 \<Rightarrow> u32 \<Rightarrow> u8 list \<Rightarrow> u64 \<Rightarrow> u32 \<Rightarrow> u8 list \<Rightarrow> u8 list \<times> (errno + nat)" where
  "ramdisk_write total_size sector_size mem lba cnt buf =
     (let offset = lba * ucast sector_size; len = ucast cnt * ucast sector_size
      in if offset + len > total_size then (mem, Inl EINVAL)
         else (memcpy_at mem (unat offset) (take (unat len) buf), Inr (unat len)))"

section \<open>Partitions\<close>

record partition_data =
  lba_offset :: u64
  pd_sector_count :: u64

definition partition_read_sectors ::
    "partition_data \<Rightarrow> ('d \<Rightarrow> u64 \<Rightarrow> u32 \<Rightarrow> errno + 'r) option \<Rightarrow> 'd \<Rightarrow> u64 \<Rightarrow> u32 \<Rightarrow> errno + 'r" where
  "partition_read_sectors pd parent_read d lba cnt =
     (if lba + ucast cnt > pd_sector_count pd then Inl EINVAL
      else (case parent_read of None \<Rightarrow> Inl ENODEV
        | Some rd \<Rightarrow> rd d (lba_offset pd + lba) cnt))"

definition partition_write_sectors ::
    "partition_data \<Rightarrow> ('d \<Rightarrow> u64 \<Rightarrow> u32 \<Rightarrow> u8 list \<Rightarrow> 'd \<times> (errno + nat)) option \<Rightarrow> 'd \<Rightarrow> u64 \<Rightarrow> u32
       \<Rightarrow> u8 list \<Rightarrow> 'd \<times> (errno + nat)" where
  "partition_write_sectors pd parent_write d lba cnt buf =
     (if lba + ucast cnt > pd_sector_count pd then (d, Inl EINVAL)
      else (case parent_write of None \<Rightarrow> (d, Inl ENODEV)
        | Some wr \<Rightarrow> wr d (lba_offset pd + lba) cnt buf))"

definition partition_flush :: "('d \<Rightarrow> 'd \<times> (errno + unit)) option \<Rightarrow> 'd \<Rightarrow> 'd \<times> (errno + unit)" where
  "partition_flush parent_flush d = (case parent_flush of None \<Rightarrow> (d, Inr ()) | Some fl \<Rightarrow> fl d)"

definition partition_trim ::
    "partition_data \<Rightarrow> ('d \<Rightarrow> u64 \<Rightarrow> u32 \<Rightarrow> 'd \<times> (errno + unit)) option \<Rightarrow> 'd \<Rightarrow> u64 \<Rightarrow> u32
       \<Rightarrow> 'd \<times> (errno + unit)" where
  "partition_trim pd parent_trim d lba cnt =
     (if cnt = 0 then (d, Inl EINVAL)
      else if lba + ucast cnt > pd_sector_count pd then (d, Inl EINVAL)
      else (case parent_trim of None \<Rightarrow> (d, Inr ())
        | Some tr \<Rightarrow> tr d (lba_offset pd + lba) cnt))"

text \<open>Scanning the partition table. The first sector is a list of bytes, \<open>mbr_entry\<close> the 16-byte
  entries at offset 446.\<close>

record mbr_entry =
  mbr_type :: u8
  mbr_lba_start :: u32
  mbr_sector_count :: u32

definition le32 :: "u8 list \<Rightarrow> nat \<Rightarrow> u32" where
  "le32 bs i = ucast (bs ! i) OR push_bit 8 (ucast (bs ! (i + 1)))
     OR push_bit 16 (ucast (bs ! (i + 2))) OR push_bit 24 (ucast (bs ! (i + 3)))"

definition mbr_entry_at :: "u8 list \<Rightarrow> nat \<Rightarrow> mbr_entry" where
  "mbr_entry_at sector i =
     (let base = 446 + i * 16
      in \<lparr>mbr_type = sector ! (base + 4), mbr_lba_start = le32 sector (base + 8),
          mbr_sector_count = le32 sector (base + 12)\<rparr>)"

definition is_digit_char :: "char \<Rightarrow> bool" where
  "is_digit_char ch \<longleftrightarrow> CHR ''0'' \<le> ch \<and> ch \<le> CHR ''9''"

text \<open>The name is one of a partition, or of a device that is never scanned.\<close>

definition scan_skips_name :: "string \<Rightarrow> bool" where
  "scan_skips_name nm \<longleftrightarrow>
     list_ex (\<lambda>i. nm ! i = CHR ''p'' \<and> i > 0 \<and> is_digit_char (nm ! (i - 1))) [0..<length nm] \<or>
     take 4 nm = ''loop'' \<or> take 3 nm = ''ram''"

text \<open>The name of partition \<open>i + 1\<close>, cut to the 31 characters that \<^verbatim>\<open>snprintf\<close> leaves of
  the 32-byte field.\<close>

definition partition_name :: "string \<Rightarrow> nat \<Rightarrow> string" where
  "partition_name parent i =
     take 31 (parent @ (if parent \<noteq> [] \<and> is_digit_char (last parent) then ''p'' else [])
       @ [char_of (48 + (i + 1))])"

record part_dev =
  part_name :: string
  part_pd :: partition_data

definition scan_entry :: "string \<Rightarrow> u64 \<Rightarrow> (nat \<Rightarrow> bool) \<Rightarrow> u8 list \<Rightarrow> nat \<Rightarrow> part_dev option" where
  "scan_entry name sector_count kz_ok sector i =
     (let e = mbr_entry_at sector i
      in if mbr_type e = 0 \<or> mbr_sector_count e = 0 then None
         else if sector_count > 0 \<and>
                 ucast (mbr_lba_start e) + ucast (mbr_sector_count e) > sector_count then None
         else if \<not> kz_ok i then None
         else Some \<lparr>part_name = partition_name name i,
                    part_pd = \<lparr>lba_offset = ucast (mbr_lba_start e),
                               pd_sector_count = ucast (mbr_sector_count e)\<rparr>\<rparr>)"

text \<open>\<open>first\<close> is what reading sector 0 returned, \<open>kz_ok i\<close> whether both allocations for
  entry \<open>i\<close> succeed. The result is the list of devices registered, in order.\<close>

definition block_scan_partitions ::
    "string \<Rightarrow> u64 \<Rightarrow> bool \<Rightarrow> errno + u8 list \<Rightarrow> (nat \<Rightarrow> bool) \<Rightarrow> part_dev list" where
  "block_scan_partitions name sector_count buf_ok first kz_ok =
     (if sector_count < 2 \<or> scan_skips_name name \<or> \<not> buf_ok then []
      else (case first of Inl e \<Rightarrow> []
        | Inr sector \<Rightarrow>
            if length sector < 512 then []
            else if sector ! 510 \<noteq> 0x55 \<or> sector ! 511 \<noteq> 0xAA then []
            else List.map_filter (scan_entry name sector_count kz_ok sector) [0..<4]))"

section \<open>The mapping is exact and in bounds\<close>

lemma unat_add_small: "unat a + unat b < 2 ^ LENGTH('a) \<Longrightarrow> unat (a + b :: 'a::len word) = unat a + unat b"
  by (simp add: unat_word_ariths)

lemma unat_mult_small: "unat a * unat b < 2 ^ LENGTH('a) \<Longrightarrow> unat (a * b :: 'a::len word) = unat a * unat b"
  by (simp add: unat_word_ariths)

lemma unat_ucast_down:
  "unat (w :: 'a::len word) < 2 ^ LENGTH('b::len) \<Longrightarrow> unat (ucast w :: 'b word) = unat w"
  by (simp add: unsigned_ucast_eq take_bit_nat_eq_self)

lemma ceil_div_bounds:
  assumes "0 < (s :: nat)"
  shows "n \<le> ((n + s - 1) div s) * s" and "((n + s - 1) div s) * s \<le> n + s - 1"
    and "(n + s - 1) div s \<le> n"
proof -
  have m: "(n + s - 1) mod s < s" using assms by simp
  have d: "(n + s - 1) div s * s + (n + s - 1) mod s = n + s - 1" by simp
  show "n \<le> ((n + s - 1) div s) * s" "((n + s - 1) div s) * s \<le> n + s - 1" using m d assms by linarith+
  show "(n + s - 1) div s \<le> n"
  proof (cases "n = 0")
    case True
    with assms show ?thesis by simp
  next
    case False
    then have "n + s - 1 < Suc n * s"
      using assms by (cases s) auto
    then have "(n + s - 1) div s < Suc n" by (simp add: div_less_iff_less_mult assms)
    then show ?thesis by simp
  qed
qed

lemma div_mod_less:
  assumes "0 < (s :: nat)" and "off div s < c"
  shows "off < c * s" and "c * s - off = (c - off div s) * s - off mod s"
proof -
  have e: "off = off div s * s + off mod s" by simp
  have "off mod s < s" using assms(1) by simp
  moreover have "(off div s + 1) * s \<le> c * s" using assms(2) by (intro mult_le_mono1) simp
  moreover have "(off div s + 1) * s = off div s * s + s" by simp
  ultimately show "off < c * s" using e by linarith
  show "c * s - off = (c - off div s) * s - off mod s"
    using e by (simp add: diff_mult_distrib)
qed

lemma map_sectors:
  fixes sector_size ins :: u32 and l1 :: u64
  assumes S: "S = unat sector_size" "0 < S" and ins: "unat ins < S" and l1: "unat l1 \<le> 0x100000"
  defines "s0 \<equiv> (ucast ins + l1 + ucast sector_size - 1) div ucast sector_size"
  shows "unat s0 * S \<le> unat ins + unat l1 + S - 1" and "unat ins + unat l1 \<le> unat s0 * S"
    and "unat s0 < 2 ^ 32"
proof -
  have S32: "S < 2 ^ 32" using unat_less [of sector_size] by (simp add: S)
  have uss: "unat (ucast sector_size :: u64) = S" by (simp add: S unat_simps)
  have "unat (ucast ins + l1 :: u64) = unat ins + unat l1"
    using ins S32 l1 by (subst unat_add_small) (simp_all add: unat_simps)
  then have sum: "unat (ucast ins + l1 + ucast sector_size :: u64) = unat ins + unat l1 + S"
    using ins S32 l1 uss by (subst unat_add_small) simp_all
  moreover have "1 \<le> (ucast ins + l1 + ucast sector_size :: u64)"
    using sum S(2) by (simp add: word_le_nat_alt)
  ultimately have us0: "unat s0 = (unat ins + unat l1 + S - 1) div S"
    by (simp add: s0_def unat_div unat_sub uss)
  note cd = ceil_div_bounds [OF S(2), of "unat ins + unat l1"]
  show "unat s0 * S \<le> unat ins + unat l1 + S - 1" "unat ins + unat l1 \<le> unat s0 * S"
    using cd by (simp_all add: us0)
  have "unat l1 \<le> unat l1 * S" using S(2) by simp
  moreover have "(unat l1 + 2) * S = unat l1 * S + 2 * S" by (rule add_mult_distrib)
  ultimately have "unat ins + unat l1 + S - 1 < (unat l1 + 2) * S" using ins S(2) by linarith
  then have "unat s0 < unat l1 + 2" unfolding us0 by (simp add: div_less_iff_less_mult S(2))
  then show "unat s0 < 2 ^ 32" using l1 by simp
qed

lemma map_max_bytes:
  fixes sector_size ins :: u32 and av :: u64
  assumes S: "S = unat sector_size" and ins: "unat ins < S"
    and av: "0 < unat av" "unat av * S < 2 ^ 64"
  shows "unat (av * ucast sector_size - ucast ins :: u64) = unat av * S - unat ins"
proof -
  have m: "unat (av * ucast sector_size) = unat av * S"
    using av(2) by (subst unat_mult_small) (simp_all add: unat_simps S)
  have "S \<le> unat av * S" using av(1) by (cases "unat av") auto
  then have "unat ins \<le> unat av * S" using ins by linarith
  then have "(ucast ins :: u64) \<le> av * ucast sector_size" by (simp add: word_le_nat_alt unat_simps m)
  then show ?thesis by (simp add: unat_sub m unat_simps)
qed

text \<open>What the caller of \<^verbatim>\<open>block_map_range\<close> gets for a range that starts inside the device.\<close>

definition mapped ::
    "nat \<Rightarrow> nat \<Rightarrow> nat \<Rightarrow> nat \<Rightarrow> u64 \<times> u64 \<times> u32 \<times> u32 \<Rightarrow> bool" where
  "mapped S C off len r =
     (case r of (xfer, lba, in_sec, cnt) \<Rightarrow>
        unat lba = off div S \<and> unat in_sec = off mod S \<and>
        unat xfer = min (min len 0x100000) (C * S - off) \<and> 0 < unat xfer \<and>
        unat lba + unat cnt \<le> C \<and> unat in_sec + unat xfer \<le> unat cnt * S \<and>
        unat cnt * S < unat in_sec + unat xfer + S)"

lemma block_map_range_works:
  assumes S: "S = unat sector_size" and C: "C = unat sector_count"
    and nz: "sector_size \<noteq> 0" "len \<noteq> 0" "sector_count \<noteq> 0" and lt: "unat offset div S < C"
  shows "\<exists>r. block_map_range sector_size sector_count offset len = Some r \<and>
    mapped S C (unat offset) (unat len) r"
proof -
  let ?ss = "ucast sector_size :: u64" and ?o = "unat offset"
  define ins where "ins = (ucast (offset mod ?ss) :: u32)"
  define l1 where "l1 = (if len > BLOCK_MAX_XFER then BLOCK_MAX_XFER else len)"
  define s0 where "s0 = (ucast ins + l1 + ?ss - 1) div ?ss"
  define av where "av = sector_count - offset div ?ss"
  have S0: "0 < S" using nz(1) by (simp add: S unat_gt_0)
  have uss: "unat ?ss = S" by (simp add: S unat_simps)
  have ulba: "unat (offset div ?ss) = ?o div S" by (simp add: unat_div uss)
  have "?o mod S < 2 ^ 32"
    using unat_less [of sector_size] mod_less_divisor [OF S0, of ?o] by (simp add: S [symmetric])
  then have uins: "unat ins = ?o mod S" by (simp add: ins_def unat_ucast_down unat_mod uss)
  have insS: "unat ins < S" using S0 by (simp add: uins)
  have ul1: "unat l1 = min (unat len) 0x100000"
    by (auto simp: l1_def BLOCK_MAX_XFER_def word_less_nat_alt min_def)
  have l10: "0 < unat l1" using nz(2) by (simp add: ul1 unat_gt_0)
  have s0: "unat s0 * S \<le> unat ins + unat l1 + S - 1" "unat ins + unat l1 \<le> unat s0 * S" "unat s0 < 2 ^ 32"
    unfolding s0_def using map_sectors [OF S S0 insS, of l1] ul1 by simp_all
  have s0nz: "s0 \<noteq> 0" using s0(2) l10 by (metis add_eq_0_iff_both_eq_0 le_zero_eq mult_0 unat_0 less_irrefl)
  have ltC: "\<not> offset div ?ss \<ge> sector_count" using lt by (simp add: word_le_nat_alt ulba C)
  have uav: "unat av = C - ?o div S" using ltC by (simp add: av_def unat_sub ulba C)
  note dm = div_mod_less [OF S0 lt]
  have av0: "0 < unat av" using lt by (simp add: uav)
  note fold_defs = ins_def [symmetric] l1_def [symmetric] s0_def [symmetric] av_def [symmetric]
  show ?thesis
  proof (cases "s0 > av")
    case False
    have "block_map_range sector_size sector_count offset len = Some (l1, offset div ?ss, ins, ucast s0)"
      using nz ltC False s0nz l10 unfolding block_map_range_def Let_def fold_defs by auto
    moreover have "unat (ucast s0 :: u32) = unat s0" using s0(3) by (simp add: unat_ucast_down)
    moreover have le: "unat s0 \<le> C - ?o div S" using False by (simp add: word_less_nat_alt uav)
    moreover have "unat l1 \<le> C * S - ?o"
      using mult_le_mono1 [OF le, of S] s0(2) uins dm(2) by linarith
    ultimately show ?thesis using l10 ulba uins lt ul1 s0(1,2) S0 by (auto simp: mapped_def)
  next
    case True
    then have lt0: "unat av \<le> unat s0" by (simp add: word_less_nat_alt)
    have "unat av * S < 2 ^ 64"
    proof -
      have "unat av * S \<le> unat s0 * S" by (rule mult_le_mono1 [OF lt0])
      also have "\<dots> < 2 ^ 33 + 0x100000"
        using s0(1) insS unat_less [of sector_size] ul1 by (simp add: S min_def split: if_splits)
      finally show ?thesis by simp
    qed
    from map_max_bytes [OF S insS av0 this] have umax: "unat (av * ?ss - ucast ins) = C * S - ?o"
      by (simp add: uav uins dm(2))
    let ?x = "if l1 > av * ?ss - ucast ins then av * ?ss - ucast ins else l1"
    have ux: "unat ?x = min (unat l1) (C * S - ?o)" by (auto simp: umax word_less_nat_alt min_def)
    have pos: "0 < C * S - ?o" using dm(1) by simp
    have x0: "0 < unat ?x" using ux pos l10 by simp
    have "block_map_range sector_size sector_count offset len = Some (?x, offset div ?ss, ins, ucast av)"
      using nz ltC True av0 x0 unfolding block_map_range_def Let_def fold_defs by auto
    moreover have "unat (ucast av :: u32) = C - ?o div S"
      using lt0 s0(3) by (simp add: unat_ucast_down uav)
    moreover have "unat ins + unat ?x \<le> (C - ?o div S) * S"
    proof -
      have "unat ?x \<le> (C - ?o div S) * S - ?o mod S" using ux dm(2) by simp
      moreover have "?o mod S < (C - ?o div S) * S" using pos dm(2) by simp
      ultimately show ?thesis unfolding uins by linarith
    qed
    moreover have "(C - ?o div S) * S < unat ins + unat ?x + S"
    proof -
      have "Suc (unat av) \<le> unat s0" using True by (simp add: word_less_nat_alt)
      then have "Suc (unat av) * S \<le> unat s0 * S" by (rule mult_le_mono1)
      then have "unat av * S < unat ins + unat l1" using s0(1) S0 by simp
      then have "unat av * S - unat ins < unat l1" using l10 by linarith
      then have "unat ?x = unat av * S - unat ins" using ux dm(2) by (simp add: uav uins)
      then show ?thesis using S0 by (simp add: uav)
    qed
    ultimately show ?thesis using x0 ux ulba uins lt ul1 by (auto simp: mapped_def)
  qed
qed

lemma block_map_range_empty: "block_map_range sector_size sector_count offset 0 = None"
  by (simp add: block_map_range_def)

lemma block_map_range_eof:
  assumes "sector_count \<noteq> 0" and "unat sector_count \<le> unat offset div unat sector_size"
  shows "block_map_range sector_size sector_count offset len = None"
proof -
  have "unat (ucast sector_size :: u64) = unat sector_size" by (simp add: unat_simps)
  with assms show ?thesis
    by (simp add: block_map_range_def Let_def word_le_nat_alt unat_div)
qed

section \<open>What the block layer expects of a driver\<close>

lemma memcpy_at_id: "memcpy_at buf pos [] = buf"
  by (simp add: memcpy_at_def)

lemma memcpy_at_whole: "length xs = length buf \<Longrightarrow> memcpy_at buf 0 xs = xs"
  by (simp add: memcpy_at_def)

lemma memcpy_at_nested:
  assumes "pos + n \<le> length buf" and "i + length xs \<le> n"
  shows "memcpy_at buf pos (memcpy_at (take n (drop pos buf)) i xs) = memcpy_at buf (pos + i) xs"
proof (rule nth_equalityI)
  let ?in = "memcpy_at (take n (drop pos buf)) i xs"
  have l: "length ?in = n" using assms by simp
  then show "length (memcpy_at buf pos ?in) = length (memcpy_at buf (pos + i) xs)"
    using assms by simp
  fix j assume "j < length (memcpy_at buf pos ?in)"
  then have j: "j < length buf" using assms l by simp
  show "memcpy_at buf pos ?in ! j = memcpy_at buf (pos + i) xs ! j"
    using assms l j by (auto simp: nth_memcpy_at)
qed

lemma memcpy_at_adjacent:
  assumes "pos + length xs + length ys \<le> length buf"
  shows "memcpy_at (memcpy_at buf pos xs) (pos + length xs) ys = memcpy_at buf pos (xs @ ys)"
  by (rule nth_equalityI) (use assms in \<open>auto simp: nth_memcpy_at nth_append\<close>)

text \<open>
  The contract of a driver for a device of \<open>sc\<close> sectors of \<open>ss\<close> bytes: inside the device a
  read returns the bytes of the sectors and a write replaces exactly those.
\<close>

locale sector_device =
  fixes inv :: "'d \<Rightarrow> bool"
    and contents :: "'d \<Rightarrow> u8 list"
    and rd :: "'d \<Rightarrow> u64 \<Rightarrow> u32 \<Rightarrow> errno + u8 list"
    and wr :: "'d \<Rightarrow> u64 \<Rightarrow> u32 \<Rightarrow> u8 list \<Rightarrow> 'd \<times> (errno + nat)"
    and ss :: u32
    and sc :: u64
  assumes ss_pos: "ss \<noteq> 0"
    and sc_pos: "sc \<noteq> 0"
    and length_contents: "inv d \<Longrightarrow> length (contents d) = unat sc * unat ss"
    and rd_law: "inv d \<Longrightarrow> unat lba + unat cnt \<le> unat sc \<Longrightarrow>
      rd d lba cnt = Inr (take (unat cnt * unat ss) (drop (unat lba * unat ss) (contents d)))"
    and wr_law: "inv d \<Longrightarrow> unat lba + unat cnt \<le> unat sc \<Longrightarrow> length buf = unat cnt * unat ss \<Longrightarrow>
      \<exists>d'. wr d lba cnt buf = (d', Inr (unat cnt * unat ss)) \<and> inv d' \<and>
        contents d' = memcpy_at (contents d) (unat lba * unat ss) buf"
begin

lemma sector_range: "lba + cnt \<le> unat sc \<Longrightarrow> lba * unat ss + cnt * unat ss \<le> unat sc * unat ss"
  using mult_le_mono1 [of "lba + cnt" "unat sc" "unat ss"] by (simp add: add_mult_distrib)

lemma split_offset: "off div unat ss * unat ss + off mod unat ss = off"
  by simp

lemma past_end: "unat sc \<le> off div unat ss \<Longrightarrow> unat sc * unat ss \<le> off"
  using mult_le_mono1 [of "unat sc" "off div unat ss" "unat ss"] split_offset [of off] by linarith

text \<open>Reading the device file gives the bytes at the offset, cut at the end of the device
  and at \<^verbatim>\<open>BLOCK_MAX_XFER\<close>.\<close>

lemma fops_read:
  assumes "inv d"
  shows "block_fops_read rd ss sc True d off len =
    Inr (take (min (unat len) 0x100000) (drop (unat off) (contents d)))"
proof (cases "len = 0 \<or> unat sc \<le> unat off div unat ss")
  case True
  then have "block_map_range ss sc off len = None"
    using block_map_range_eof [OF sc_pos, of off ss len] by (auto simp: block_map_range_empty)
  moreover have "take (min (unat len) 0x100000) (drop (unat off) (contents d)) = []"
    using True past_end [of "unat off"] length_contents [OF assms] by auto
  ultimately show ?thesis by (simp add: block_fops_read_def)
next
  case False
  then obtain xfer lba in_sec cnt where m: "block_map_range ss sc off len = Some (xfer, lba, in_sec, cnt)"
    and mp: "mapped (unat ss) (unat sc) (unat off) (unat len) (xfer, lba, in_sec, cnt)"
    using block_map_range_works [OF refl refl ss_pos _ sc_pos, of len off] by auto
  have lba: "unat lba * unat ss + unat in_sec = unat off" and cnt: "unat lba + unat cnt \<le> unat sc"
    and x: "unat in_sec + unat xfer \<le> unat cnt * unat ss"
      "unat xfer = min (min (unat len) 0x100000) (unat sc * unat ss - unat off)"
    using mp by (auto simp: mapped_def)
  have "take (unat xfer) (drop (unat in_sec)
          (take (unat cnt * unat ss) (drop (unat lba * unat ss) (contents d)))) =
        take (unat xfer) (drop (unat off) (contents d))"
    using x(1) lba by (simp add: drop_take add.commute min_def)
  also have "\<dots> = take (min (unat len) 0x100000) (drop (unat off) (contents d))"
    using x(2) length_contents [OF assms] by (simp add: min_def)
  finally show ?thesis by (simp add: block_fops_read_def m rd_law [OF assms cnt])
qed

lemma staged_sectors:
  assumes "inv d" and mp: "mapped (unat ss) (unat sc) off len (xfer, lba, in_sec, cnt)"
    and buf: "unat xfer \<le> length buf"
  shows "(let zeros = replicate (unat cnt * unat ss) 0;
              sec_buf = (if in_sec \<noteq> 0 \<or> xfer mod ucast ss \<noteq> 0
                 then (case rd d lba cnt of Inl e \<Rightarrow> zeros | Inr bs \<Rightarrow> memcpy_at zeros 0 bs) else zeros)
          in memcpy_at sec_buf (unat in_sec) (take (unat xfer) buf)) =
         memcpy_at (take (unat cnt * unat ss) (drop (unat lba * unat ss) (contents d))) (unat in_sec)
           (take (unat xfer) buf)"
proof -
  have cnt: "unat lba + unat cnt \<le> unat sc" using mp by (simp add: mapped_def)
  let ?sl = "take (unat cnt * unat ss) (drop (unat lba * unat ss) (contents d))"
  have sl: "length ?sl = unat cnt * unat ss"
    using sector_range [OF cnt] length_contents [OF assms(1)] by simp
  show ?thesis
  proof (cases "in_sec \<noteq> 0 \<or> xfer mod ucast ss \<noteq> 0")
    case True
    then show ?thesis by (simp add: rd_law [OF assms(1) cnt] memcpy_at_whole sl del: length_take)
  next
    case False
    then have z: "unat in_sec = 0" and "unat (xfer mod ucast ss) = 0" by simp_all
    then have "unat xfer mod unat ss = 0" by (simp add: unat_mod unat_simps)
    then obtain q where q: "unat xfer = q * unat ss" by (metis mod_0_imp_dvd dvd_def mult.commute)
    have s0: "0 < unat ss" using ss_pos by (simp add: unat_gt_0)
    have "unat xfer \<le> unat cnt * unat ss" "unat cnt * unat ss < unat xfer + unat ss"
      using mp z unfolding mapped_def prod.case by linarith+
    then have "q * unat ss \<le> unat cnt * unat ss" "unat cnt * unat ss < Suc q * unat ss"
      by (simp_all only: q mult_Suc add.commute)
    then have "q \<le> unat cnt" "unat cnt < Suc q" using s0 by (simp, metis mult_less_cancel2)
    then have "unat cnt = q" by simp
    with q have "length (take (unat xfer) buf) = unat cnt * unat ss" using buf by simp
    with False z show ?thesis
      by (simp add: memcpy_at_whole sl del: length_take)
  qed
qed

text \<open>Writing replaces the bytes at the offset and nothing else, although whole sectors are
  written.\<close>

lemma fops_write:
  assumes d: "inv d" and ro: "flags AND BLKDEV_RO = 0" and len: "length buf < 2 ^ 64"
    and n_def: "n = min (min (length buf) 0x100000) (unat sc * unat ss - unat off)"
  shows "\<exists>d'. block_fops_write rd wr ss sc flags True d off buf = (d', Inr n) \<and> inv d' \<and>
    contents d' = memcpy_at (contents d) (unat off) (take n buf) \<and>
    (d' = d \<or> (\<exists>lba cnt out. wr d lba cnt out = (d', Inr (unat cnt * unat ss)) \<and>
        unat lba + unat cnt \<le> unat sc \<and> length out = unat cnt * unat ss))"
proof -
  have ul: "unat (of_nat (length buf) :: u64) = length buf"
    using len by (simp add: unat_of_nat)
  show ?thesis
  proof (cases "buf = [] \<or> unat sc \<le> unat off div unat ss")
    case True
    then have "block_map_range ss sc off (of_nat (length buf)) = None"
      using block_map_range_eof [OF sc_pos, of off ss] by (auto simp: block_map_range_empty)
    moreover have "n = 0" using True past_end [of "unat off"] by (auto simp: n_def)
    ultimately show ?thesis using d ro by (simp add: block_fops_write_def memcpy_at_id)
  next
    case False
    then have "(of_nat (length buf) :: u64) \<noteq> 0" using ul by (metis length_0_conv unat_0)
    then obtain xfer lba in_sec cnt
      where m: "block_map_range ss sc off (of_nat (length buf)) = Some (xfer, lba, in_sec, cnt)"
      and mp: "mapped (unat ss) (unat sc) (unat off) (length buf) (xfer, lba, in_sec, cnt)"
      using block_map_range_works [OF refl refl ss_pos _ sc_pos, of "of_nat (length buf)" off] False ul
      by auto
    have x: "unat xfer = n" "unat xfer \<le> length buf" and cnt: "unat lba + unat cnt \<le> unat sc"
      and lba: "unat lba * unat ss + unat in_sec = unat off"
      and fit: "unat in_sec + unat xfer \<le> unat cnt * unat ss" and x0: "0 < unat xfer"
      using mp by (auto simp: mapped_def n_def)
    let ?sl = "take (unat cnt * unat ss) (drop (unat lba * unat ss) (contents d))"
    let ?out = "memcpy_at ?sl (unat in_sec) (take (unat xfer) buf)"
    have rng: "unat lba * unat ss + unat cnt * unat ss \<le> length (contents d)"
      using sector_range [OF cnt] length_contents [OF d] by simp
    then have lo: "length ?out = unat cnt * unat ss" using fit x by simp
    from wr_law [OF d cnt this] obtain d' where
      w: "wr d lba cnt ?out = (d', Inr (unat cnt * unat ss))" "inv d'"
      "contents d' = memcpy_at (contents d) (unat lba * unat ss) ?out" by blast
    have pos: "0 < unat cnt * unat ss" using fit x0 by linarith
    have "contents d' = memcpy_at (contents d) (unat off) (take n buf)"
      using memcpy_at_nested [OF rng, of "unat in_sec" "take (unat xfer) buf"] w(3) fit x lba by simp
    moreover have "block_fops_write rd wr ss sc flags True d off buf = (d', Inr n)"
      using w(1) pos staged_sectors [OF d mp x(2)] ro x(1)
      by (simp add: block_fops_write_def m Let_def)
    ultimately show ?thesis using w(1,2) cnt lo by blast
  qed
qed
end

context sector_device begin

text \<open>The zeroing loop terminates and clears exactly its sectors.\<close>

lemma zero_loop:
  assumes "chunk \<noteq> 0"
  shows "inv d \<Longrightarrow> unat lba + unat sectors \<le> unat sc \<Longrightarrow>
    \<exists>d'. block_zero_loop wr (unat ss) chunk d lba sectors = (d', Inr ()) \<and> inv d' \<and>
      contents d' = memcpy_at (contents d) (unat lba * unat ss) (replicate (unat sectors * unat ss) 0)"
proof (induction "unat sectors" arbitrary: d lba sectors rule: less_induct)
  case less
  show ?case
  proof (cases "sectors = 0")
    case True
    with less.prems show ?thesis by (simp add: memcpy_at_id)
  next
    case False
    let ?n = "zero_n chunk sectors" and ?s = "unat ss"
    note nb = zero_n_bounds [OF False assms] and ns = zero_n_sub [OF False assms]
    have le: "unat ?n \<le> unat sectors" using nb by simp
    have cnt: "unat lba + unat ?n \<le> unat sc" using less.prems le by linarith
    obtain d1 where d1: "wr d lba ?n (replicate (unat ?n * ?s) 0) = (d1, Inr (unat ?n * ?s))" "inv d1"
      "contents d1 = memcpy_at (contents d) (unat lba * ?s) (replicate (unat ?n * ?s) 0)"
      using wr_law [OF less.prems(1) cnt, of "replicate (unat ?n * ?s) 0"] by auto
    have lba': "unat (lba + ucast ?n) = unat lba + unat ?n"
      using cnt unat_less [of sc] by (subst unat_add_small) (simp_all add: unat_simps)
    have "unat (lba + ucast ?n) + unat (sectors - ucast ?n) \<le> unat sc"
      using less.prems(2) le by (simp add: lba' ns)
    moreover have "unat (sectors - ucast ?n) < unat sectors" using nb le by (simp add: ns)
    ultimately obtain d' where
      d': "block_zero_loop wr ?s chunk d1 (lba + ucast ?n) (sectors - ucast ?n) = (d', Inr ())" "inv d'"
      "contents d' = memcpy_at (contents d1) ((unat lba + unat ?n) * ?s)
         (replicate ((unat sectors - unat ?n) * ?s) 0)"
      using less.hyps [OF _ d1(2)] by (metis lba' ns)
    have rep: "replicate (unat ?n * ?s) 0 @ replicate ((unat sectors - unat ?n) * ?s) 0 =
        replicate (unat sectors * ?s) (0 :: u8)"
      using le by (simp add: replicate_add [symmetric] add_mult_distrib [symmetric])
    have rng: "unat lba * ?s + unat ?n * ?s + (unat sectors - unat ?n) * ?s \<le> length (contents d)"
    proof -
      have "unat ?n * ?s + (unat sectors - unat ?n) * ?s = unat sectors * ?s"
        using le by (simp add: add_mult_distrib [symmetric])
      then show ?thesis
        using sector_range [OF less.prems(2)] length_contents [OF less.prems(1)] by simp
    qed
    have "contents d' = memcpy_at (contents d) (unat lba * ?s) (replicate (unat sectors * ?s) 0)"
      using memcpy_at_adjacent [of "unat lba * ?s" "replicate (unat ?n * ?s) 0"
          "replicate ((unat sectors - unat ?n) * ?s) 0" "contents d"] rng d'(3) d1(3)
      by (simp add: rep add_mult_distrib)
    moreover have "block_zero_loop wr ?s chunk d lba sectors = (d', Inr ())"
      using False assms d1(1) d'(1) by (subst block_zero_loop.simps) (simp add: Let_def)
    ultimately show ?thesis using d'(2) by blast
  qed
qed

lemma zero_range:
  assumes d: "inv d" and al: "unat start mod unat ss = 0" "unat len mod unat ss = 0"
    and rng: "unat start + unat len \<le> unat sc * unat ss"
  shows "\<exists>d'. block_zero_range (Some wr) ss sc True d start len = (d', Inr ()) \<and> inv d' \<and>
    contents d' = memcpy_at (contents d) (unat start) (replicate (unat len) 0)"
proof -
  let ?s = "unat ss"
  have s0: "0 < ?s" using ss_pos by (simp add: unat_gt_0)
  have u: "unat (ucast ss :: u64) = ?s" by (simp add: unat_simps)
  have st: "unat start = unat (start div ucast ss) * ?s" and ln: "unat len = unat (len div ucast ss) * ?s"
    using al by (simp_all add: unat_div u mod_0_imp_dvd)
  have z: "start mod ucast ss = 0" "len mod ucast ss = 0"
    using al by (simp_all add: unat_eq_zero [symmetric] unat_mod u)
  have "(unat (start div ucast ss) + unat (len div ucast ss)) * ?s \<le> unat sc * ?s"
    using rng st ln by (simp add: add_mult_distrib)
  then have le: "unat (start div ucast ss) + unat (len div ucast ss) \<le> unat sc" using s0 by simp
  then have nw: "\<not> start div ucast ss + len div ucast ss > sc"
    using unat_less [of sc] by (subst word_less_nat_alt, subst unat_add_small) simp_all
  let ?c = "(if ucast (BLOCK_MAX_XFER div ucast ss) = (0 :: u32) then 1
      else ucast (BLOCK_MAX_XFER div ucast ss)) :: u32"
  have "?c \<noteq> 0" by simp
  from zero_loop [OF this d le] st ln show ?thesis
    using ss_pos z nw by (simp add: block_zero_range_def Let_def)
qed

end

section \<open>A partition of a device is a device\<close>

text \<open>The sectors of a partition lie inside its parent; \<open>block_scan_partitions\<close> makes sure of
  it.\<close>

locale partition_on = sector_device +
  fixes pd :: partition_data
  assumes part_pos: "pd_sector_count pd \<noteq> 0"
    and part_range: "unat (lba_offset pd) + unat (pd_sector_count pd) \<le> unat sc"
begin

lemma part_accepts:
  assumes "unat lba + unat (cnt :: u32) \<le> unat (pd_sector_count pd)"
  shows "\<not> lba + ucast cnt > pd_sector_count pd"
    and "unat (lba_offset pd + lba) = unat (lba_offset pd) + unat lba"
    and "unat (lba_offset pd + lba) + unat cnt \<le> unat sc"
proof -
  have "unat (lba + ucast cnt) = unat lba + unat cnt"
    using assms unat_less [of "pd_sector_count pd"] by (subst unat_add_small) (simp_all add: unat_simps)
  then show "\<not> lba + ucast cnt > pd_sector_count pd" using assms by (simp add: word_less_nat_alt)
  show *: "unat (lba_offset pd + lba) = unat (lba_offset pd) + unat lba"
    using assms part_range unat_less [of sc] by (subst unat_add_small) simp_all
  show "unat (lba_offset pd + lba) + unat cnt \<le> unat sc" using assms part_range by (simp add: *)
qed

end

lemma slice_memcpy:
  assumes "base + n \<le> length buf" and "pos + length xs \<le> n"
  shows "take n (drop base (memcpy_at buf (base + pos) xs)) = memcpy_at (take n (drop base buf)) pos xs"
  by (rule nth_equalityI) (use assms in \<open>auto simp: nth_memcpy_at\<close>)

sublocale partition_on \<subseteq> part: sector_device inv
    "\<lambda>d. take (unat (pd_sector_count pd) * unat ss) (drop (unat (lba_offset pd) * unat ss) (contents d))"
    "partition_read_sectors pd (Some rd)" "partition_write_sectors pd (Some wr)" ss "pd_sector_count pd"
proof unfold_locales
  fix d :: 'a and lba :: u64 and cnt :: u32 and buf :: "u8 list"
  let ?P = "unat (pd_sector_count pd)" and ?O = "unat (lba_offset pd)" and ?s = "unat ss"
  show "ss \<noteq> 0" by (rule ss_pos)
  show "pd_sector_count pd \<noteq> 0" by (rule part_pos)
  assume d: "inv d"
  have rng: "?O * ?s + ?P * ?s \<le> length (contents d)"
    using sector_range [OF part_range] length_contents [OF d] by simp
  show "length (take (?P * ?s) (drop (?O * ?s) (contents d))) = ?P * ?s" using rng by simp
  assume le: "unat lba + unat cnt \<le> ?P"
  note pa = part_accepts [OF le]
  have lr: "unat lba * ?s + unat cnt * ?s \<le> ?P * ?s"
    using mult_le_mono1 [OF le, of ?s] by (simp add: add_mult_distrib)
  show "partition_read_sectors pd (Some rd) d lba cnt =
      Inr (take (unat cnt * ?s) (drop (unat lba * ?s) (take (?P * ?s) (drop (?O * ?s) (contents d)))))"
    using pa lr rd_law [OF d pa(3)]
    by (simp add: partition_read_sectors_def drop_take min_def add_mult_distrib add.commute)
  assume b: "length buf = unat cnt * ?s"
  from wr_law [OF d pa(3) b] obtain d' where
    w: "wr d (lba_offset pd + lba) cnt buf = (d', Inr (unat cnt * ?s))" "inv d'"
    "contents d' = memcpy_at (contents d) ((?O + unat lba) * ?s) buf" by (auto simp: pa(2))
  have "take (?P * ?s) (drop (?O * ?s) (contents d')) =
      memcpy_at (take (?P * ?s) (drop (?O * ?s) (contents d))) (unat lba * ?s) buf"
    using slice_memcpy [OF rng, of "unat lba * ?s" buf] lr b w(3) by (simp add: add_mult_distrib)
  with w pa(1) show "\<exists>d'. partition_write_sectors pd (Some wr) d lba cnt buf = (d', Inr (unat cnt * ?s)) \<and>
      inv d' \<and> take (?P * ?s) (drop (?O * ?s) (contents d')) =
        memcpy_at (take (?P * ?s) (drop (?O * ?s) (contents d))) (unat lba * ?s) buf"
    by (auto simp: partition_write_sectors_def)
qed

lemma take_memcpy_before:
  "a \<le> pos \<Longrightarrow> pos + length xs \<le> length buf \<Longrightarrow> take a (memcpy_at buf pos xs) = take a buf"
  by (rule nth_equalityI) (auto simp: nth_memcpy_at)

lemma drop_memcpy_after:
  "pos + length xs \<le> a \<Longrightarrow> pos + length xs \<le> length buf \<Longrightarrow>
   drop a (memcpy_at buf pos xs) = drop a buf"
  by (rule nth_equalityI) (auto simp: nth_memcpy_at)

lemma splice_eq:
  assumes "length ys = length xs" and "a + n \<le> length xs" and "take a ys = take a xs"
    and "drop (a + n) ys = drop (a + n) xs"
    and "take n (drop a ys) = memcpy_at (take n (drop a xs)) i zs" and "i + length zs \<le> n"
  shows "ys = memcpy_at xs (a + i) zs"
proof (rule nth_equalityI)
  show "length ys = length (memcpy_at xs (a + i) zs)" using assms by simp
  fix j assume j: "j < length ys"
  consider "j < a" | "a \<le> j" "j < a + n" | "a + n \<le> j" by linarith
  then show "ys ! j = memcpy_at xs (a + i) zs ! j"
  proof cases
    case 1
    then have "ys ! j = xs ! j" using assms(3) by (metis nth_take)
    with 1 j assms show ?thesis by (simp add: nth_memcpy_at)
  next
    case 2
    then have "ys ! j = memcpy_at (take n (drop a xs)) i zs ! (j - a)"
      using assms(1,2,5) j by (metis (no_types, lifting) add_diff_inverse_nat le_trans less_diff_conv2
          nth_drop nth_take not_less add.commute less_or_eq_imp_le)
    also have "\<dots> = memcpy_at xs (a + i) zs ! j"
      using 2 j assms by (auto simp: nth_memcpy_at)
    finally show ?thesis .
  next
    case 3
    then have "ys ! j = xs ! j"
      using assms(1,2,4) j by (metis le_add_diff_inverse nth_drop)
    with 3 j assms show ?thesis by (simp add: nth_memcpy_at)
  qed
qed

context partition_on begin

text \<open>Writing to a partition changes the parent at the offset inside the partition and
  nowhere else.\<close>

lemma part_fops_write:
  assumes d: "inv d" and ro: "flags AND BLKDEV_RO = 0" and len: "length buf < 2 ^ 64"
    and n: "n = min (min (length buf) 0x100000) (unat (pd_sector_count pd) * unat ss - unat off)"
  shows "\<exists>d'. block_fops_write (partition_read_sectors pd (Some rd)) (partition_write_sectors pd (Some wr))
      ss (pd_sector_count pd) flags True d off buf = (d', Inr n) \<and> inv d' \<and>
    contents d' = memcpy_at (contents d) (unat (lba_offset pd) * unat ss + unat off) (take n buf)"
proof -
  let ?P = "unat (pd_sector_count pd)" and ?O = "unat (lba_offset pd)" and ?s = "unat ss"
  let ?sl = "\<lambda>d. take (?P * ?s) (drop (?O * ?s) (contents d))"
  from part.fops_write [OF d ro len n] obtain d' where
    w: "block_fops_write (partition_read_sectors pd (Some rd)) (partition_write_sectors pd (Some wr))
      ss (pd_sector_count pd) flags True d off buf = (d', Inr n)" "inv d'"
    and sl: "?sl d' = memcpy_at (?sl d) (unat off) (take n buf)"
    and one: "d' = d \<or> (\<exists>lba cnt out. partition_write_sectors pd (Some wr) d lba cnt out =
        (d', Inr (unat cnt * ?s)) \<and> unat lba + unat cnt \<le> ?P \<and> length out = unat cnt * ?s)"
    by blast
  have lens: "length (contents d') = length (contents d)"
    using length_contents [OF d] length_contents [OF w(2)] by simp
  have rng: "?O * ?s + ?P * ?s \<le> length (contents d)"
    using sector_range [OF part_range] length_contents [OF d] by simp
  have "take (?O * ?s) (contents d') = take (?O * ?s) (contents d) \<and>
      drop (?O * ?s + ?P * ?s) (contents d') = drop (?O * ?s + ?P * ?s) (contents d)"
    using one
  proof (elim disjE exE conjE)
    fix lba cnt out
    assume pw: "partition_write_sectors pd (Some wr) d lba cnt out = (d', Inr (unat cnt * ?s))"
      and le: "unat lba + unat cnt \<le> ?P" and lo: "length out = unat cnt * ?s"
    note pa = part_accepts [OF le]
    have "contents d' = memcpy_at (contents d) ((?O + unat lba) * ?s) out"
      using wr_law [OF d pa(3) lo] pw pa by (auto simp: partition_write_sectors_def)
    moreover have "unat lba * ?s + unat cnt * ?s \<le> ?P * ?s"
      using mult_le_mono1 [OF le, of ?s] by (simp add: add_mult_distrib)
    ultimately show ?thesis
      using rng lo by (simp add: take_memcpy_before drop_memcpy_after add_mult_distrib)
  qed simp
  moreover have "n \<le> ?P * ?s - unat off" "n \<le> length buf" by (simp_all add: n)
  ultimately show ?thesis
    using w splice_eq [OF lens rng _ _ sl] splice_eq [OF lens rng, of 0 "[]"] sl
    by (cases "unat off \<le> ?P * ?s") (auto simp: memcpy_at_id)
qed

end

section \<open>The RAM disk is a device\<close>

locale ramdisk_device =
  fixes total_size :: u64
  assumes size_min: "512 \<le> unat total_size"
begin

lemma ram_sectors: "unat (total_size div 512) * 512 \<le> unat total_size" "total_size div 512 \<noteq> 0"
proof -
  have u: "unat (total_size div 512) = unat total_size div 512" by (simp add: unat_div)
  show "unat (total_size div 512) * 512 \<le> unat total_size" by (simp add: u)
  have "0 < unat total_size div 512" using size_min by (simp add: div_greater_zero_iff)
  with u show "total_size div 512 \<noteq> 0" by (metis less_irrefl unat_0)
qed

lemma ram_in_range:
  assumes "unat lba + unat (cnt :: u32) \<le> unat (total_size div 512)"
  shows "unat (lba * 512 :: u64) = unat lba * 512" "unat (ucast cnt * 512 :: u64) = unat cnt * 512"
    "\<not> lba * 512 + ucast cnt * 512 > total_size"
    "unat lba * 512 + unat cnt * 512 \<le> unat total_size"
proof -
  have "(unat lba + unat cnt) * 512 \<le> unat (total_size div 512) * 512"
    by (rule mult_le_mono1 [OF assms])
  then show r: "unat lba * 512 + unat cnt * 512 \<le> unat total_size"
    using ram_sectors(1) by (simp add: add_mult_distrib)
  then have lim: "unat lba * 512 + unat cnt * 512 < 2 ^ 64" using unat_less [of total_size] by simp
  then show l: "unat (lba * 512 :: u64) = unat lba * 512" by (subst unat_mult_small) simp_all
  show c: "unat (ucast cnt * 512 :: u64) = unat cnt * 512"
    using lim by (subst unat_mult_small) (simp_all add: unat_simps)
  have "unat (lba * 512 + ucast cnt * 512 :: u64) = unat lba * 512 + unat cnt * 512"
    using lim l c by (subst unat_add_small) simp_all
  then show "\<not> lba * 512 + ucast cnt * 512 > total_size" using r by (simp add: word_less_nat_alt)
qed

end

sublocale ramdisk_device \<subseteq> ram: sector_device "\<lambda>mem. length mem = unat total_size"
    "take (unat (total_size div 512) * 512)" "ramdisk_read total_size 512"
    "ramdisk_write total_size 512" 512 "total_size div 512"
proof unfold_locales
  fix d :: "u8 list" and lba :: u64 and cnt :: u32 and buf :: "u8 list"
  let ?n = "unat (total_size div 512) * 512"
  show "(512 :: u32) \<noteq> 0" by simp
  show "total_size div 512 \<noteq> 0" by (rule ram_sectors)
  assume d: "length d = unat total_size"
  show "length (take ?n d) = unat (total_size div 512) * unat (512 :: u32)"
    using d ram_sectors(1) by simp
  assume le: "unat lba + unat cnt \<le> unat (total_size div 512)"
  note rr = ram_in_range [OF le]
  have lr: "unat lba * 512 + unat cnt * 512 \<le> ?n"
    using mult_le_mono1 [OF le, of 512] by (simp add: add_mult_distrib)
  show "ramdisk_read total_size 512 d lba cnt =
      Inr (take (unat cnt * unat (512 :: u32)) (drop (unat lba * unat (512 :: u32)) (take ?n d)))"
    using rr lr by (simp add: ramdisk_read_def Let_def drop_take min_def)
  assume b: "length buf = unat cnt * unat (512 :: u32)"
  have "take ?n (memcpy_at d (unat lba * 512) buf) = memcpy_at (take ?n d) (unat lba * 512) buf"
    using slice_memcpy [of 0 ?n d "unat lba * 512" buf] lr b d ram_sectors(1) by simp
  then show "\<exists>d'. ramdisk_write total_size 512 d lba cnt buf = (d', Inr (unat cnt * unat (512 :: u32))) \<and>
      length d' = unat total_size \<and>
      take ?n d' = memcpy_at (take ?n d) (unat lba * unat (512 :: u32)) buf"
    using rr b d by (simp add: ramdisk_write_def Let_def)
qed

text \<open>Byte ranges in sectors of 512 bytes.\<close>

lemma sector_mod_0: "(x :: u64) mod 512 = 0 \<longleftrightarrow> 512 dvd unat x"
proof -
  have "unat (x mod 512) = unat x mod 512" by (simp add: unat_mod)
  then show ?thesis unfolding dvd_eq_mod_eq_0 by (metis unat_0 unat_eq_zero)
qed

lemma sectors_not_0: "512 \<le> unat (x :: u64) \<Longrightarrow> x div 512 \<noteq> 0"
proof
  assume *: "512 \<le> unat x" "x div 512 = 0"
  have "unat x div 512 = 0" using arg_cong [OF *(2), of unat] by (simp add: unat_div)
  then show False using *(1) by simp
qed

lemma sectors_beyond:
  assumes "512 dvd unat (start :: u64)" "512 dvd unat len"
  shows "n div 512 < start div 512 + len div 512 \<longleftrightarrow> unat (n div 512) * 512 < unat start + unat len"
proof -
  have d: "unat (x div 512) = unat x div 512" for x :: u64 by (simp add: unat_div)
  have l: "unat x div 512 < 2 ^ 55" for x :: u64
    by (rule less_mult_imp_div_less) (use unat_less [of x] in simp)
  have "unat (start div 512) + unat (len div 512) < 2 ^ LENGTH(64)"
    using add_strict_mono [OF l [of start] l [of len]] unfolding d by simp
  from unat_add_small [OF this] have s: "unat (start div 512 + len div 512) = unat start div 512 + unat len div 512"
    unfolding d .
  obtain a b where ab: "unat start = 512 * a" "unat len = 512 * b" using assms by (auto elim!: dvdE)
  show ?thesis unfolding word_less_nat_alt s d ab by auto
qed

context ramdisk_device begin

lemma ram_zero:
  assumes "length mem = unat total_size" and "512 dvd unat start" and "512 dvd unat len"
    and "unat start + unat len \<le> unat (total_size div 512) * 512"
  shows "\<exists>mem'. block_zero_range (Some (ramdisk_write total_size 512)) 512 (total_size div 512) True mem start len
      = (mem', Inr ()) \<and> length mem' = unat total_size \<and>
     take (unat (total_size div 512) * 512) mem' =
       memcpy_at (take (unat (total_size div 512) * 512) mem) (unat start) (replicate (unat len) 0)"
  using ram.zero_range [OF assms(1), of start len] assms by simp

end

locale ramdisk_partition = ramdisk_device +
  fixes pd :: partition_data
  assumes whole: "512 dvd unat total_size"
    and pd_pos: "pd_sector_count pd \<noteq> 0"
    and pd_range: "unat (lba_offset pd) + unat (pd_sector_count pd) \<le> unat (total_size div 512)"

sublocale ramdisk_partition \<subseteq> rpart: partition_on "\<lambda>mem. length mem = unat total_size"
    "take (unat (total_size div 512) * 512)" "ramdisk_read total_size 512"
    "ramdisk_write total_size 512" 512 "total_size div 512" pd
  by unfold_locales (rule pd_pos, rule pd_range)

context ramdisk_partition begin

lemma whole_contents: "length mem = unat total_size \<Longrightarrow> take (unat (total_size div 512) * 512) mem = mem"
  using whole by (simp add: unat_div)

lemma file_read:
  assumes "length mem = unat total_size"
  shows "block_fops_read (partition_read_sectors pd (Some (ramdisk_read total_size 512))) 512
      (pd_sector_count pd) True mem off len =
    Inr (take (min (unat len) 0x100000) (drop (unat off)
      (take (unat (pd_sector_count pd) * 512) (drop (unat (lba_offset pd) * 512) mem))))"
  using rpart.part.fops_read [OF assms, of off len] whole_contents [OF assms] by simp

lemma file_write:
  assumes "length mem = unat total_size" and "flags AND BLKDEV_RO = 0" and "length buf < 2 ^ 64"
    and "n = min (min (length buf) 0x100000) (unat (pd_sector_count pd) * 512 - unat off)"
  shows "block_fops_write (partition_read_sectors pd (Some (ramdisk_read total_size 512)))
      (partition_write_sectors pd (Some (ramdisk_write total_size 512))) 512 (pd_sector_count pd)
      flags True mem off buf =
    (memcpy_at mem (unat (lba_offset pd) * 512 + unat off) (take n buf), Inr n)"
proof -
  from rpart.part_fops_write [OF assms(1-3), of n off] assms(4) obtain mem' where
    w: "block_fops_write (partition_read_sectors pd (Some (ramdisk_read total_size 512)))
      (partition_write_sectors pd (Some (ramdisk_write total_size 512))) 512 (pd_sector_count pd)
      flags True mem off buf = (mem', Inr n)" and l: "length mem' = unat total_size"
    and c: "take (unat (total_size div 512) * 512) mem' =
      memcpy_at (take (unat (total_size div 512) * 512) mem) (unat (lba_offset pd) * 512 + unat off) (take n buf)"
    by auto
  from c have "mem' = memcpy_at mem (unat (lba_offset pd) * 512 + unat off) (take n buf)"
    unfolding whole_contents [OF assms(1)] whole_contents [OF l] .
  with w show ?thesis by simp
qed

end

text \<open>A 1 MiB disk with one partition.\<close>

definition example_pd :: partition_data where
  "example_pd = \<lparr>lba_offset = 2, pd_sector_count = 4\<rparr>"

interpretation ram0: ramdisk_device "0x100000"
  by unfold_locales simp

interpretation ram0p1: ramdisk_partition "0x100000" example_pd
  by unfold_locales (simp_all add: example_pd_def)

text \<open>C9: On a partition of a RAM disk, writing the device file replaces exactly the bytes
  of the disk at the partition's start plus the offset, and reading returns them: a
  transfer is cut at the end of the partition and at 1 MiB, whole sectors are read and
  written underneath, and no byte outside the partition is read or changed.\<close>

theorem partition_file_io:
  assumes "512 \<le> unat total_size" and "512 dvd unat total_size" and "length mem = unat total_size"
    and "pd_sector_count pd \<noteq> 0"
    and "unat (lba_offset pd) + unat (pd_sector_count pd) \<le> unat (total_size div 512)"
    and "flags AND BLKDEV_RO = 0" and "length buf < 2 ^ 64"
    and "n = min (min (length buf) 0x100000) (unat (pd_sector_count pd) * 512 - unat off)"
  shows "block_fops_write (partition_read_sectors pd (Some (ramdisk_read total_size 512)))
      (partition_write_sectors pd (Some (ramdisk_write total_size 512))) 512 (pd_sector_count pd)
      flags True mem off buf =
    (memcpy_at mem (unat (lba_offset pd) * 512 + unat off) (take n buf), Inr n) \<and>
   block_fops_read (partition_read_sectors pd (Some (ramdisk_read total_size 512))) 512
      (pd_sector_count pd) True mem off len =
    Inr (take (min (unat len) 0x100000) (drop (unat off)
      (take (unat (pd_sector_count pd) * 512) (drop (unat (lba_offset pd) * 512) mem))))"
proof -
  have "ramdisk_partition total_size pd" using assms by unfold_locales
  from ramdisk_partition.file_write [OF this assms(3,6-8)] ramdisk_partition.file_read [OF this assms(3)]
  show ?thesis by simp
qed

theorem partition_file_io_witness:
  "\<exists>mem :: u8 list. length mem = 0x100000 \<and>
     block_fops_write (partition_read_sectors example_pd (Some (ramdisk_read 0x100000 512)))
       (partition_write_sectors example_pd (Some (ramdisk_write 0x100000 512))) 512 4 0 True mem 3 [7, 8] =
     (memcpy_at mem 1027 [7, 8], Inr 2)"
proof -
  obtain mem :: "u8 list" where mem: "length mem = 0x100000" using Ex_list_of_length by blast
  have "block_fops_write (partition_read_sectors example_pd (Some (ramdisk_read 0x100000 512)))
       (partition_write_sectors example_pd (Some (ramdisk_write 0x100000 512))) 512
       (pd_sector_count example_pd) 0 True mem 3 [7, 8] =
     (memcpy_at mem (unat (lba_offset example_pd) * 512 + unat (3 :: u64)) (take 2 [7, 8]), Inr 2)"
    by (rule conjunct1 [OF partition_file_io]) (simp_all only: mem, simp_all add: example_pd_def)
  then have "block_fops_write (partition_read_sectors example_pd (Some (ramdisk_read 0x100000 512)))
       (partition_write_sectors example_pd (Some (ramdisk_write 0x100000 512))) 512 4 0 True mem 3 [7, 8] =
     (memcpy_at mem 1027 [7, 8], Inr 2)" by (simp add: example_pd_def)
  with mem show ?thesis by blast
qed

text \<open>C28: Zeroing a range of a RAM disk with sectors of 512 bytes: a range that is not aligned to
  sectors or does not end inside the disk is refused with \<^verbatim>\<open>-EINVAL\<close>, a missing buffer
  with \<^verbatim>\<open>-ENOMEM\<close>, and nothing is written; otherwise the call ends successfully and
  clears exactly the range, however many chunks it takes.\<close>

theorem ramdisk_zero_range:
  assumes "512 \<le> unat total_size" and "length mem = unat total_size"
  shows "\<exists>mem' r. block_zero_range (Some (ramdisk_write total_size 512)) 512 (total_size div 512) kz_ok mem start len
      = (mem', r) \<and>
     (if \<not> 512 dvd unat start \<or> \<not> 512 dvd unat len \<or> unat (total_size div 512) * 512 < unat start + unat len
      then r = Inl EINVAL \<and> mem' = mem
      else if \<not> kz_ok then r = Inl ENOMEM \<and> mem' = mem
      else r = Inr () \<and> length mem' = unat total_size \<and>
        take (unat (total_size div 512) * 512) mem' =
          memcpy_at (take (unat (total_size div 512) * 512) mem) (unat start) (replicate (unat len) 0))"
proof -
  let ?n = "total_size div 512"
  have md: "x mod 512 \<noteq> 0 \<longleftrightarrow> \<not> 512 dvd unat x" for x :: u64
    using sector_mod_0 [of x] by simp
  have gt: "?n < start div 512 + len div 512 \<longleftrightarrow> unat ?n * 512 < unat start + unat len"
    if "512 dvd unat start" "512 dvd unat len" using sectors_beyond [OF that] .
  have nz: "?n \<noteq> 0" using assms(1) by (simp add: sectors_not_0)
  show ?thesis
  proof (cases "\<not> 512 dvd unat start \<or> \<not> 512 dvd unat len \<or> unat ?n * 512 < unat start + unat len")
    case True
    then show ?thesis using md gt nz by (auto simp: block_zero_range_def Let_def)
  next
    case False
    then have ok: "512 dvd unat start" "512 dvd unat len" "unat start + unat len \<le> unat ?n * 512" by auto
    show ?thesis
    proof (cases kz_ok)
      case True
      have "ramdisk_device total_size" using assms(1) by unfold_locales
      from ramdisk_device.ram_zero [OF this assms(2) ok] show ?thesis using False True by auto
    next
      case no: False
      then show ?thesis using False md gt ok by (auto simp: block_zero_range_def Let_def)
    qed
  qed
qed

theorem ramdisk_zero_range_witness:
  "\<exists>mem mem'. length mem = 1024 \<and>
     block_zero_range (Some (ramdisk_write 1024 512)) 512 2 True mem 512 512 = (mem', Inr ()) \<and>
     take 1024 mem' = memcpy_at (take 1024 mem) 512 (replicate 512 0) \<and>
     block_zero_range (Some (ramdisk_write 1024 512)) 512 2 True mem 512 1024 = (mem, Inl EINVAL)"
proof -
  obtain mem :: "u8 list" where mem: "length mem = 1024" using Ex_list_of_length by blast
  from ramdisk_zero_range [of 1024 mem True 512 512] mem obtain mem' where
    "block_zero_range (Some (ramdisk_write 1024 512)) 512 2 True mem 512 512 = (mem', Inr ())"
    "take 1024 mem' = memcpy_at (take 1024 mem) 512 (replicate 512 0)"
    by auto
  moreover from ramdisk_zero_range [of 1024 mem True 512 1024] mem
  have "block_zero_range (Some (ramdisk_write 1024 512)) 512 2 True mem 512 1024 = (mem, Inl EINVAL)" by auto
  ultimately show ?thesis using mem by blast
qed

text \<open>C29: Every partition that a scan registers is non-empty and lies inside the disk.\<close>

theorem scan_in_bounds:
  assumes "pt \<in> set (block_scan_partitions name sector_count buf_ok first kz_ok)"
  shows "pd_sector_count (part_pd pt) \<noteq> 0 \<and>
    unat (lba_offset (part_pd pt)) + unat (pd_sector_count (part_pd pt)) \<le> unat sector_count"
proof -
  obtain sector i where i: "scan_entry name sector_count kz_ok sector i = Some pt"
    and sc: "\<not> sector_count < 2"
    using assms by (auto simp: block_scan_partitions_def map_filter_def split: if_splits sum.splits)
  let ?e = "mbr_entry_at sector i"
  have nz: "mbr_sector_count ?e \<noteq> 0"
    and pt: "part_pd pt = \<lparr>lba_offset = ucast (mbr_lba_start ?e), pd_sector_count = ucast (mbr_sector_count ?e)\<rparr>"
    and le: "\<not> (sector_count > 0 \<and> ucast (mbr_lba_start ?e) + ucast (mbr_sector_count ?e) > sector_count)"
    using i by (auto simp: scan_entry_def Let_def split: if_splits)
  have sum: "unat (ucast (mbr_lba_start ?e) + ucast (mbr_sector_count ?e) :: u64) =
      unat (mbr_lba_start ?e) + unat (mbr_sector_count ?e)"
    using unat_less [of "mbr_lba_start ?e"] unat_less [of "mbr_sector_count ?e"]
    by (subst unat_add_small) (simp_all add: unat_simps)
  have "0 < sector_count" using sc by (simp add: word_less_nat_alt)
  then have "unat (mbr_lba_start ?e) + unat (mbr_sector_count ?e) \<le> unat sector_count"
    using le sum by (simp add: word_less_nat_alt)
  moreover have "unat (ucast (mbr_sector_count ?e) :: u64) \<noteq> 0" using nz by (simp add: unat_simps unat_gt_0)
  then have "(ucast (mbr_sector_count ?e) :: u64) \<noteq> 0" by auto
  ultimately show ?thesis by (simp add: pt unat_simps)
qed

definition example_mbr :: "u8 list" where
  "example_mbr = replicate 446 0 @ [0x80, 0, 0, 0, 0x83, 0, 0, 0, 2, 0, 0, 0, 4, 0, 0, 0]
     @ replicate 48 0 @ [0x55, 0xAA]"

lemma nth_example_mbr:
  "i < 446 \<Longrightarrow> example_mbr ! i = 0"
  "i < 16 \<Longrightarrow> example_mbr ! (446 + i) = [0x80, 0, 0, 0, 0x83, 0, 0, 0, 2, 0, 0, 0, 4, 0, 0, 0] ! i"
  "462 \<le> i \<Longrightarrow> i < 510 \<Longrightarrow> example_mbr ! i = 0"
  "example_mbr ! 510 = 0x55" "example_mbr ! 511 = 0xAA" "length example_mbr = 512"
  by (simp_all add: example_mbr_def nth_append del: append_Cons append.simps) linarith

lemma example_scan:
  "block_scan_partitions ''vda'' 100 True (Inr example_mbr) (\<lambda>_. True) =
     [\<lparr>part_name = ''vda1'', part_pd = example_pd\<rparr>]"
proof -
  have e0: "mbr_entry_at example_mbr 0 = \<lparr>mbr_type = 0x83, mbr_lba_start = 2, mbr_sector_count = 4\<rparr>"
    using nth_example_mbr(2) [of 4] nth_example_mbr(2) [of 8] nth_example_mbr(2) [of 9]
      nth_example_mbr(2) [of 10] nth_example_mbr(2) [of 11] nth_example_mbr(2) [of 12]
      nth_example_mbr(2) [of 13] nth_example_mbr(2) [of 14] nth_example_mbr(2) [of 15]
    by (simp add: mbr_entry_at_def le32_def)
  have e: "mbr_type (mbr_entry_at example_mbr i) = 0" if "i = 1 \<or> i = 2 \<or> i = 3" for i
    using that by (auto simp: mbr_entry_at_def nth_example_mbr(3))
  have u: "[0..<4] = [0, 1, 2, 3 :: nat]" by (simp add: upt_rec numeral_eq_Suc)
  have c: "char_of (49 :: nat) = CHR ''1''" by code_simp
  show ?thesis
    by (simp add: block_scan_partitions_def nth_example_mbr u c map_filter_def scan_entry_def e0 e
        scan_skips_name_def is_digit_char_def partition_name_def example_pd_def)
qed

theorem scan_in_bounds_witness:
  "unat (lba_offset example_pd) + unat (pd_sector_count example_pd) \<le> unat (100 :: u64)"
  using scan_in_bounds [of "\<lparr>part_name = ''vda1'', part_pd = example_pd\<rparr>" "''vda''" 100 True
      "Inr example_mbr" "\<lambda>_. True"]
  by (simp add: example_scan)

section \<open>Wrap-around and secure discard\<close>

text \<open>The bounds check of a partition adds the sector number and the count in 64 bits;
  a request for the last sector number wraps around and is passed on to the sector just
  before the partition.\<close>

lemma partition_check_wraps:
  "partition_read_sectors pd (Some rd) d (-1) 1 = rd d (lba_offset pd - 1) 1 \<and>
   partition_write_sectors pd (Some wr) d (-1) 1 buf = wr d (lba_offset pd - 1) 1 buf"
  by (simp add: partition_read_sectors_def partition_write_sectors_def)

text \<open>On a device whose trim is advisory and changes nothing, discarding a range, also
  with \<^verbatim>\<open>BLKSECDISCARD\<close>, reports success with all data still in place.\<close>

lemma secure_discard_keeps_data:
  "blk_discard (Some (\<lambda>d lba cnt. (d, Inr ()))) wr 512 8 0 kz_ok d (Some (0, 512)) = (d, Inr ())"
  by (simp add: blk_discard_def block_dev_trim_def Let_def)

end
