(* ===== verification/Completion.thy ===== *)
theory Completion
  imports Az_Prelude
begin

text \<open>
  Completions (\<^verbatim>\<open>kernel/completion.c\<close>) and wait queues (\<^verbatim>\<open>kernel/wait.c\<close>,
  \<^verbatim>\<open>kernel/wait.h\<close>). A completion is its counter \<open>done\<close>, a 32-bit word; each function
  of the model is what the code does while it holds the lock. A wait queue is the list of
  the threads whose stack entries are linked in it.
\<close>

section \<open>Completions\<close>

type_synonym completion = u32

definition complete :: "completion \<Rightarrow> completion" where
  "complete c = c + 1"

definition complete_all :: "completion \<Rightarrow> completion" where
  "complete_all c = -1"

definition reinit_completion :: "completion \<Rightarrow> completion" where
  "reinit_completion c = 0"

definition completion_done :: "completion \<Rightarrow> bool" where
  "completion_done c \<longleftrightarrow> c > 0"

text \<open>One turn of the loop of \<^verbatim>\<open>wait_for_completion\<close>: \<open>Some\<close> when the wait is over.\<close>

definition wait_for_completion :: "completion \<Rightarrow> completion option" where
  "wait_for_completion c = (if c \<noteq> 0 then Some (if c \<noteq> -1 then c - 1 else c) else None)"

text \<open>One turn of the loop with a timeout: \<open>now\<close> is the clock after the check (read a single
  time on either path), the result the new counter and the return value, \<open>None\<close> to sleep
  and go on.\<close>

definition wait_for_completion_timeout ::
    "completion \<Rightarrow> u64 \<Rightarrow> u64 \<Rightarrow> u64 \<Rightarrow> completion \<times> u64 option" where
  "wait_for_completion_timeout c timeout_ms start_ns now =
     (let timeout_ns = timeout_ms * 1000000; elapsed = now - start_ns
      in case wait_for_completion c of
           Some c' \<Rightarrow>
             (c', Some (if elapsed \<ge> timeout_ns then 1 else (timeout_ns - elapsed) div 1000000))
         | None \<Rightarrow> (c, if elapsed \<ge> timeout_ns then Some 0 else None))"

text \<open>A history of calls on one completion and the number of waits it lets through.\<close>

datatype completion_op = OpComplete | OpCompleteAll | OpWait

fun completion_run :: "completion_op list \<Rightarrow> completion \<Rightarrow> completion \<times> nat" where
  "completion_run [] c = (c, 0)"
| "completion_run (OpComplete # ops) c = completion_run ops (complete c)"
| "completion_run (OpCompleteAll # ops) c = completion_run ops (complete_all c)"
| "completion_run (OpWait # ops) c =
     (case wait_for_completion c of
        None \<Rightarrow> completion_run ops c
      | Some c' \<Rightarrow> (case completion_run ops c' of (c'', n) \<Rightarrow> (c'', Suc n)))"

section \<open>Wait queues\<close>

text \<open>
  A thread inside \<^verbatim>\<open>wait_event(wq, cond)\<close>, or \<^verbatim>\<open>wait_event_timeout\<close> if the flag is set: about to
  test the condition, about to link its entry, asleep (or about to fall asleep) with the
  entry linked or already taken by a waker, about to unlink it, or past the call; or killed
  inside the call, its stack given back. \<open>wq_woken\<close> is a wake-up the scheduler has noted for
  the thread. \<open>wq_wake_due\<close> is not in the code: the condition has been set and no
  \<^verbatim>\<open>wake_up_all\<close> has followed yet.
\<close>

datatype waiter = Outside | Testing bool | Enqueueing bool | Blocked bool | Dequeueing bool | Killed

record wait_sys =
  wq_first :: "tid list"
  wq_threads :: "tid \<Rightarrow> waiter"
  wq_woken :: "tid \<Rightarrow> bool"
  wq_cond :: bool
  wq_wake_due :: bool

text \<open>\<^verbatim>\<open>__wait_event_sleep\<close> up to \<^verbatim>\<open>sched_block\<close>: the entry goes to the end of the queue.\<close>

definition wait_enqueue :: "tid list \<Rightarrow> tid \<Rightarrow> tid list" where
  "wait_enqueue q t = q @ [t]"

text \<open>The rest of it: the entry is unlinked if it is still there.\<close>

fun wait_dequeue :: "tid list \<Rightarrow> tid \<Rightarrow> tid list" where
  "wait_dequeue [] t = []"
| "wait_dequeue (x # q) t = (if x = t then q else x # wait_dequeue q t)"

definition wake_up :: "tid list \<Rightarrow> tid list \<times> tid list" where
  "wake_up q = (case q of [] \<Rightarrow> ([], []) | t # rest \<Rightarrow> (rest, [t]))"

fun wake_up_all :: "tid list \<Rightarrow> tid list \<times> tid list" where
  "wake_up_all [] = ([], [])"
| "wake_up_all (t # q) = (case wake_up_all q of (q', ws) \<Rightarrow> (q', t # ws))"

definition wq_wake :: "tid list \<Rightarrow> (tid \<Rightarrow> bool) \<Rightarrow> tid \<Rightarrow> bool" where
  "wq_wake ws w t \<longleftrightarrow> t \<in> set ws \<or> w t"

text \<open>
  The steps. A sleeper goes on when it has been woken, by a waker of this queue or by anybody
  else who unblocks it (a signal, a waker of an earlier sleep); in the timed call also when
  its time has come, which is at once when the deadline has passed. Killing a thread takes
  its stack and leaves the queue alone.
\<close>

inductive wait_step :: "wait_sys \<Rightarrow> wait_sys \<Rightarrow> bool" where
  w_call: "wq_threads s t = Outside \<Longrightarrow>
     wait_step s (s\<lparr>wq_threads := (wq_threads s)(t := Testing timed)\<rparr>)"
| w_true: "wq_threads s t = Testing timed \<Longrightarrow> wq_cond s \<Longrightarrow>
     wait_step s (s\<lparr>wq_threads := (wq_threads s)(t := Outside)\<rparr>)"
| w_expired: "wq_threads s t = Testing True \<Longrightarrow>
     wait_step s (s\<lparr>wq_threads := (wq_threads s)(t := Outside)\<rparr>)"
| w_false: "wq_threads s t = Testing timed \<Longrightarrow> \<not> wq_cond s \<Longrightarrow>
     wait_step s (s\<lparr>wq_threads := (wq_threads s)(t := Enqueueing timed)\<rparr>)"
| w_enqueue: "wq_threads s t = Enqueueing timed \<Longrightarrow>
     wait_step s (s\<lparr>wq_first := wait_enqueue (wq_first s) t,
                    wq_threads := (wq_threads s)(t := Blocked timed)\<rparr>)"
| w_resume: "wq_threads s t = Blocked timed \<Longrightarrow> wq_woken s t \<Longrightarrow>
     wait_step s (s\<lparr>wq_threads := (wq_threads s)(t := Dequeueing timed),
                    wq_woken := (wq_woken s)(t := False)\<rparr>)"
| w_timeout: "wq_threads s t = Blocked True \<Longrightarrow>
     wait_step s (s\<lparr>wq_threads := (wq_threads s)(t := Dequeueing True)\<rparr>)"
| w_dequeue: "wq_threads s t = Dequeueing timed \<Longrightarrow>
     wait_step s (s\<lparr>wq_first := wait_dequeue (wq_first s) t,
                    wq_threads := (wq_threads s)(t := Testing timed)\<rparr>)"
| w_set: "wait_step s (s\<lparr>wq_cond := b, wq_wake_due := b \<or> wq_wake_due s\<rparr>)"
| w_wake: "wake_up (wq_first s) = (q, ws) \<Longrightarrow>
     wait_step s (s\<lparr>wq_first := q, wq_woken := wq_wake ws (wq_woken s)\<rparr>)"
| w_wake_all: "wake_up_all (wq_first s) = (q, ws) \<Longrightarrow>
     wait_step s (s\<lparr>wq_first := q, wq_woken := wq_wake ws (wq_woken s), wq_wake_due := False\<rparr>)"
| w_unblock: "wait_step s (s\<lparr>wq_woken := (wq_woken s)(t := True)\<rparr>)"
| w_kill: "wq_threads s t \<noteq> Outside \<Longrightarrow>
     wait_step s (s\<lparr>wq_threads := (wq_threads s)(t := Killed)\<rparr>)"

definition wait_start :: wait_sys where
  "wait_start = \<lparr>wq_first = [], wq_threads = (\<lambda>_. Outside), wq_woken = (\<lambda>_. False), wq_cond = False,
     wq_wake_due = False\<rparr>"

section \<open>What completions guarantee\<close>

definition op_count :: "completion_op list \<Rightarrow> nat" where
  "op_count ops = length (filter ((=) OpComplete) ops)"

lemma completion_run_counts:
  "OpCompleteAll \<notin> set ops \<Longrightarrow> unat c + op_count ops < 2 ^ 32 - 1 \<Longrightarrow>
   snd (completion_run ops c) + unat (fst (completion_run ops c)) = unat c + op_count ops"
proof (induction ops c rule: completion_run.induct)
  case (2 ops c)
  have "unat (c + 1) = Suc (unat c)" using 2(3) by (simp add: op_count_def unat_word_ariths)
  with 2 show ?case by (simp add: complete_def op_count_def)
next
  case (4 ops c)
  show ?case
  proof (cases "c = 0")
    case True
    with 4 show ?thesis by (simp add: wait_for_completion_def op_count_def)
  next
    case False
    have "unat (-1 :: u32) = 2 ^ 32 - 1" by (simp add: unsigned_minus_1_eq_mask mask_eq_exp_minus_1)
    with 4(4) have nm: "c \<noteq> -1" by auto
    have um: "unat (c - 1) = unat c - 1" "0 < unat c" using False by (simp_all add: unat_minus_one unat_gt_0)
    have "snd (completion_run ops (c - 1)) + unat (fst (completion_run ops (c - 1))) =
        unat c - 1 + op_count ops"
      using nm um False 4(2) [of "c - 1"] 4(3,4) by (simp add: wait_for_completion_def op_count_def)
    then show ?thesis
      using False nm um by (cases "completion_run ops (c - 1)") (simp add: wait_for_completion_def op_count_def)
  qed
qed (auto simp: op_count_def)

text \<open>C30: Without \<^verbatim>\<open>complete_all\<close> and below the limit of the counter, a completion hands
  out exactly one wait per \<^verbatim>\<open>complete\<close>: the waits that got through and the value left add up
  to the completions.\<close>

theorem completion_counts:
  assumes "OpCompleteAll \<notin> set ops" and "op_count ops < 2 ^ 32 - 1"
  shows "snd (completion_run ops 0) + unat (fst (completion_run ops 0)) = op_count ops"
  using completion_run_counts [of ops 0] assms by simp

theorem completion_counts_witness:
  "snd (completion_run [OpComplete, OpWait, OpWait, OpComplete] 0) = 1 \<and>
   snd (completion_run [OpComplete, OpWait, OpWait, OpComplete] 0) +
     unat (fst (completion_run [OpComplete, OpWait, OpWait, OpComplete] 0)) = 2"
  using completion_counts [of "[OpComplete, OpWait, OpWait, OpComplete]"]
  by (simp add: op_count_def wait_for_completion_def complete_def)

text \<open>A \<^verbatim>\<open>complete\<close> after \<^verbatim>\<open>complete_all\<close> wraps the counter to 0, so that waiters
  that should pass for ever block again; and a wait with a timeout that is granted in the
  last millisecond uses up the completion and returns 0, the value for a timeout.\<close>

lemma completion_defects:
  "wait_for_completion (complete (complete_all c)) = None \<and>
   wait_for_completion_timeout 1 5 0 4500000 = (0, Some 0)"
  by (simp add: wait_for_completion_def complete_def complete_all_def
      wait_for_completion_timeout_def Let_def)

section \<open>What wait queues guarantee\<close>

text \<open>A linked entry belongs to a thread that has not left the function, whose stack holds
  it, or to one that was killed there; nobody is linked twice; a sleeper that is not linked
  has been woken.\<close>

definition wait_ok :: "wait_sys \<Rightarrow> bool" where
  "wait_ok s \<longleftrightarrow> distinct (wq_first s) \<and>
     (\<forall>t \<in> set (wq_first s). wq_threads s t \<in> {Blocked True, Blocked False, Dequeueing True, Dequeueing False, Killed}) \<and>
     (\<forall>t timed. wq_threads s t = Blocked timed \<longrightarrow> t \<in> set (wq_first s) \<or> wq_woken s t)"

lemma wait_dequeue_remove1: "wait_dequeue q t = remove1 t q"
  by (induction q) auto

lemma wake_up_all_eq: "wake_up_all q = ([], q)"
  by (induction q) auto

lemma wait_step_ok: "wait_step s s' \<Longrightarrow> wait_ok s \<Longrightarrow> wait_ok s'"
proof (induction rule: wait_step.induct)
  case (w_wake s q ws)
  then show ?case by (auto simp: wait_ok_def wake_up_def wq_wake_def split: list.splits)
next
  case (w_enqueue s t timed)
  then show ?case by (cases timed) (auto simp: wait_ok_def wait_enqueue_def)
next
  case (w_resume s t timed)
  then show ?case by (cases timed) (auto simp: wait_ok_def)
next
  case (w_dequeue s t timed)
  then show ?case by (auto simp: wait_ok_def wait_dequeue_remove1)
qed (auto simp: wait_ok_def wake_up_all_eq wq_wake_def)

text \<open>C31: In every reachable state each entry linked in the queue is the stack entry of a
  thread that is still inside the wait, linked once, unless the thread was killed there:
  also when it is woken early by a signal or its time runs out, a thread leaves no entry
  behind in a stack frame that is gone. And a sleeper is linked, so that a waker finds it,
  or has been woken.\<close>

theorem wait_queue_no_dangling:
  assumes "wait_step\<^sup>*\<^sup>* wait_start s"
  shows "distinct (wq_first s) \<and>
    (\<forall>t \<in> set (wq_first s). wq_threads s t \<in> {Blocked True, Blocked False, Dequeueing True, Dequeueing False, Killed}) \<and>
    (\<forall>t timed. wq_threads s t = Blocked timed \<longrightarrow> t \<in> set (wq_first s) \<or> wq_woken s t)"
proof -
  have "wait_ok wait_start" by (simp add: wait_ok_def wait_start_def)
  with assms have "wait_ok s" by (induction rule: rtranclp_induct) (auto intro: wait_step_ok)
  then show ?thesis by (simp add: wait_ok_def)
qed

text \<open>A thread goes to sleep.\<close>

definition wait_asleep :: "bool \<Rightarrow> wait_sys" where
  "wait_asleep timed = \<lparr>wq_first = [1], wq_threads = (\<lambda>_. Outside)(1 := Blocked timed), wq_woken = (\<lambda>_. False),
     wq_cond = False, wq_wake_due = False\<rparr>"

lemma wait_asleep_reach: "wait_step\<^sup>*\<^sup>* wait_start (wait_asleep timed)"
proof -
  let ?s1 = "wait_start\<lparr>wq_threads := (wq_threads wait_start)(1 := Testing timed)\<rparr>"
  let ?s2 = "?s1\<lparr>wq_threads := (wq_threads ?s1)(1 := Enqueueing timed)\<rparr>"
  let ?s3 = "?s2\<lparr>wq_first := wait_enqueue (wq_first ?s2) 1, wq_threads := (wq_threads ?s2)(1 := Blocked timed)\<rparr>"
  have "wait_step wait_start ?s1" by (rule w_call) (simp add: wait_start_def)
  moreover have "wait_step ?s1 ?s2" by (rule w_false) (simp_all add: wait_start_def)
  moreover have "wait_step ?s2 ?s3" by (rule w_enqueue) simp
  ultimately have "wait_step\<^sup>*\<^sup>* wait_start ?s3"
    by (meson converse_rtranclp_into_rtranclp rtranclp.rtrancl_refl)
  moreover have "?s3 = wait_asleep timed" by (simp add: wait_asleep_def wait_start_def wait_enqueue_def)
  ultimately show ?thesis by simp
qed

theorem wait_queue_no_dangling_witness:
  "1 \<in> set (wq_first (wait_asleep True)) \<and> wq_threads (wait_asleep True) 1 \<in>
     {Blocked True, Blocked False, Dequeueing True, Dequeueing False, Killed}"
proof -
  have "1 \<in> set (wq_first (wait_asleep True))" by (simp add: wait_asleep_def)
  then show ?thesis using wait_queue_no_dangling [OF wait_asleep_reach [of True]] by blast
qed

text \<open>A thread that is killed in its sleep leaves its entry linked, and the next waker follows
  the pointer into the stack that has been given back.\<close>

lemma wait_killed_entry:
  "\<exists>s q. wait_step\<^sup>*\<^sup>* wait_start s \<and> wq_threads s 1 = Killed \<and> wake_up (wq_first s) = (q, [1])"
proof -
  let ?s = "(wait_asleep True)\<lparr>wq_threads := (wq_threads (wait_asleep True))(1 := Killed)\<rparr>"
  have "wait_step (wait_asleep True) ?s" by (rule w_kill) (simp add: wait_asleep_def)
  then have "wait_step\<^sup>*\<^sup>* wait_start ?s" using wait_asleep_reach by (rule rtranclp.rtrancl_into_rtrancl [rotated])
  then show ?thesis by (intro exI [of _ ?s]) (simp add: wait_asleep_def wake_up_def)
qed

text \<open>The runs in which no entry is linked while the condition holds, as if it were tested again.\<close>

definition wait_step_tested :: "wait_sys \<Rightarrow> wait_sys \<Rightarrow> bool" where
  "wait_step_tested s s' \<longleftrightarrow> wait_step s s' \<and>
     \<not> (wq_cond s \<and> (\<exists>t timed. wq_threads s t = Enqueueing timed \<and> wq_threads s' t = Blocked timed))"

definition none_missed :: "wait_sys \<Rightarrow> bool" where
  "none_missed s \<longleftrightarrow> wait_ok s \<and> (wq_cond s \<and> \<not> wq_wake_due s \<longrightarrow> (\<forall>t timed. wq_threads s t = Blocked timed \<longrightarrow> wq_woken s t))"

lemma wait_tested_step:
  assumes "wait_step_tested s s'" "none_missed s"
  shows "none_missed s'"
proof -
  have s: "wait_step s s'" "wait_ok s'" using assms wait_step_ok by (auto simp: wait_step_tested_def none_missed_def)
  have "wq_cond s' \<and> \<not> wq_wake_due s' \<longrightarrow> (\<forall>t timed. wq_threads s' t = Blocked timed \<longrightarrow> wq_woken s' t)"
    using s(1) assms
  proof (cases rule: wait_step.cases)
    case (w_enqueue t timed)
    then have "\<exists>t timed. wq_threads s t = Enqueueing timed \<and> wq_threads s' t = Blocked timed"
      by (intro exI [of _ t] exI [of _ timed]) simp
    then have "\<not> wq_cond s" using assms(1) unfolding wait_step_tested_def by blast
    then show ?thesis using w_enqueue by simp
  next
    case (w_wake_all q ws)
    then show ?thesis using assms(2) by (auto simp: none_missed_def wait_ok_def wake_up_all_eq wq_wake_def)
  qed (auto simp: none_missed_def wq_wake_def)
  then show ?thesis using s(2) by (simp add: none_missed_def)
qed

lemma wait_tested_reach: "wait_step_tested\<^sup>*\<^sup>* wait_start s \<Longrightarrow> none_missed s"
proof (induction rule: rtranclp_induct)
  case base
  show ?case by (simp add: none_missed_def wait_ok_def wait_start_def)
qed (rule wait_tested_step)

text \<open>C32: \<^verbatim>\<open>wait_event\<close> tests the condition before it links its entry and not again
  afterwards. When the condition is set and everybody on the queue woken in between, the
  thread sleeps with the condition true, nothing noted to wake it, nobody else in the
  call, and no call of \<^verbatim>\<open>wake_up_all\<close> still to come for the condition. No run in which an
  entry is linked only while the condition is false leads there.\<close>

theorem wait_event_lost_wakeup:
  "(\<exists>s. wait_step\<^sup>*\<^sup>* wait_start s \<and> wq_cond s \<and> \<not> wq_wake_due s \<and>
     wq_threads s = (\<lambda>_. Outside)(1 := Blocked False) \<and> \<not> wq_woken s 1) \<and>
   \<not> (\<exists>s. wait_step_tested\<^sup>*\<^sup>* wait_start s \<and> wq_cond s \<and> \<not> wq_wake_due s \<and>
     wq_threads s 1 = Blocked False \<and> \<not> wq_woken s 1)"
proof -
  let ?s1 = "wait_start\<lparr>wq_threads := (wq_threads wait_start)(1 := Testing False)\<rparr>"
  let ?s2 = "?s1\<lparr>wq_threads := (wq_threads ?s1)(1 := Enqueueing False)\<rparr>"
  let ?s3 = "?s2\<lparr>wq_cond := True, wq_wake_due := True \<or> wq_wake_due ?s2\<rparr>"
  let ?s4 = "?s3\<lparr>wq_first := [], wq_woken := wq_wake [] (wq_woken ?s3), wq_wake_due := False\<rparr>"
  let ?s5 = "?s4\<lparr>wq_first := wait_enqueue (wq_first ?s4) 1,
                 wq_threads := (wq_threads ?s4)(1 := Blocked False)\<rparr>"
  have "wait_step wait_start ?s1" by (rule w_call) (simp add: wait_start_def)
  moreover have "wait_step ?s1 ?s2" by (rule w_false) (simp_all add: wait_start_def)
  moreover have "wait_step ?s2 ?s3" by (rule w_set)
  moreover have "wait_step ?s3 ?s4" by (rule w_wake_all) (simp add: wait_start_def)
  moreover have "wait_step ?s4 ?s5" by (rule w_enqueue) simp
  ultimately have "wait_step\<^sup>*\<^sup>* wait_start ?s5"
    by (meson converse_rtranclp_into_rtranclp rtranclp.rtrancl_refl)
  then have "\<exists>s. wait_step\<^sup>*\<^sup>* wait_start s \<and> wq_cond s \<and> \<not> wq_wake_due s \<and>
     wq_threads s = (\<lambda>_. Outside)(1 := Blocked False) \<and> \<not> wq_woken s 1"
    by (intro exI [of _ ?s5]) (simp add: wait_start_def wq_wake_def)
  then show ?thesis using wait_tested_reach by (auto simp: none_missed_def)
qed

end
