(* ===== verification/MQueue.thy ===== *)
theory MQueue
  imports Az_Prelude "HOL-Library.Multiset"
begin

text \<open>
  POSIX message queues (\<^verbatim>\<open>kernel/ipc/mqueue.c\<close>). The table of queues is a list of
  records, a message list is the chain from \<^verbatim>\<open>head\<close> to \<^verbatim>\<open>tail\<close>. What a call does
  under \<^verbatim>\<open>g_mq_lock\<close> is one function on the table; the blocking calls are one turn of
  their loop each, so that any interleaving of calls is a sequence of these functions.
  \<^verbatim>\<open>mq_open\<close> drops the lock between finding or creating the queue and installing the
  descriptor, and has two parts here.
\<close>

section \<open>Data\<close>

record mq_msg =
  m_prio :: u32
  m_data :: "u8 list"

record mq_queue =
  q_used :: bool
  q_name :: string
  q_refs :: nat
  q_linked :: bool
  q_uid :: u32
  q_gid :: u32
  q_mode :: u32
  q_maxmsg :: int
  q_msgsize :: int
  q_curmsgs :: int
  q_curbytes :: nat
  q_msgs :: "mq_msg list"
  q_notify_pid :: u32
  q_notify_signo :: int
  q_notify_type :: int
  q_recv_waiters :: nat

record cred =
  c_pid :: u32
  c_euid :: u32
  c_egid :: u32
  c_groups :: "u32 list"
  c_umask :: u32

type_synonym mq_table = "mq_queue list"

abbreviation (input) "SIGEV_SIGNAL \<equiv> (0 :: int)"
abbreviation (input) "SIGEV_NONE \<equiv> (1 :: int)"

definition MQ_MAX_QUEUES :: nat where "MQ_MAX_QUEUES = 64"
definition MQ_NAME_MAX :: nat where "MQ_NAME_MAX = 255"
definition MQ_PRIO_MAX :: nat where "MQ_PRIO_MAX = 32768"
definition MQ_MAXMSG_DEFAULT :: int where "MQ_MAXMSG_DEFAULT = 10"
definition MQ_MSGSIZE_DEFAULT :: int where "MQ_MSGSIZE_DEFAULT = 8192"
definition MQ_MAXMSG_LIMIT :: int where "MQ_MAXMSG_LIMIT = 65536"
definition MQ_MSGSIZE_LIMIT :: int where "MQ_MSGSIZE_LIMIT = 16 * 1024 * 1024"
definition MQ_QUEUE_BYTES_MAX :: int where "MQ_QUEUE_BYTES_MAX = 1024 * 1024"

definition mq_blank :: mq_queue where
  "mq_blank = \<lparr>q_used = False, q_name = [], q_refs = 0, q_linked = False, q_uid = 0, q_gid = 0,
     q_mode = 0, q_maxmsg = 0, q_msgsize = 0, q_curmsgs = 0, q_curbytes = 0, q_msgs = [],
     q_notify_pid = 0, q_notify_signo = 0, q_notify_type = 0, q_recv_waiters = 0\<rparr>"

definition mqueue_init :: mq_table where
  "mqueue_init = replicate MQ_MAX_QUEUES mq_blank"

section \<open>Helpers\<close>

text \<open>The check of the copied characters \<open>raw\<close> when the terminating NUL is at index \<open>i\<close>.\<close>

definition mq_name_check :: "string \<Rightarrow> errno + string" where
  "mq_name_check raw =
     (if length raw < 2 then Inl EINVAL
      else if hd raw \<noteq> CHR ''/'' then Inl EINVAL
      else if CHR ''/'' \<in> set (tl raw) then Inl EINVAL
      else Inr (tl raw))"

text \<open>The copy loop: \<open>uname i\<close> is the character at \<open>i\<close>, \<open>None\<close> a fault; \<open>n\<close> characters of
  the buffer are left.\<close>

fun mq_copy_loop :: "(nat \<Rightarrow> char option) \<Rightarrow> nat \<Rightarrow> nat \<Rightarrow> string \<Rightarrow> errno + string" where
  "mq_copy_loop uname i 0 raw = Inl ENAMETOOLONG"
| "mq_copy_loop uname i (Suc n) raw =
     (case uname i of None \<Rightarrow> Inl EFAULT
      | Some ch \<Rightarrow> if of_char ch = (0 :: nat) then mq_name_check raw
                   else mq_copy_loop uname (Suc i) n (raw @ [ch]))"

definition mq_copy_name :: "u64 \<Rightarrow> (nat \<Rightarrow> char option) \<Rightarrow> errno + string" where
  "mq_copy_name uptr uname =
     (if uptr = 0 \<or> uptr \<ge> 0x0000800000000000 then Inl EFAULT
      else mq_copy_loop uname 0 (MQ_NAME_MAX + 2) [])"

fun mq_find_from :: "nat \<Rightarrow> mq_table \<Rightarrow> string \<Rightarrow> nat option" where
  "mq_find_from i [] name = None"
| "mq_find_from i (q # qs) name =
     (if q_used q \<and> q_linked q \<and> q_name q = name then Some i else mq_find_from (Suc i) qs name)"

definition mq_find :: "mq_table \<Rightarrow> string \<Rightarrow> nat option" where
  "mq_find tbl name = mq_find_from 0 tbl name"

fun mq_free_slot :: "nat \<Rightarrow> mq_table \<Rightarrow> nat option" where
  "mq_free_slot i [] = None"
| "mq_free_slot i (q # qs) = (if \<not> q_used q then Some i else mq_free_slot (Suc i) qs)"

definition mq_permitted :: "mq_queue \<Rightarrow> cred \<Rightarrow> u32 \<Rightarrow> bool" where
  "mq_permitted q p want =
     (if c_euid p = 0 then True
      else let mode = (if c_euid p = q_uid q then drop_bit 6 (q_mode q)
                       else if c_egid p = q_gid q then drop_bit 3 (q_mode q)
                       else if q_gid q \<in> set (c_groups p) then drop_bit 3 (q_mode q)
                       else q_mode q)
           in mode AND want = want)"

text \<open>The messages are freed with the lock dropped, after the queue is unused and has no
  references; no caller touches the queue afterwards but \<^verbatim>\<open>mq_open_undo\<close>, whose second call
  then finds no reference. So the unlocked stretch is not a step of its own.\<close>

definition mq_put_locked :: "mq_table \<Rightarrow> nat \<Rightarrow> mq_table" where
  "mq_put_locked tbl i =
     (let q = tbl ! i
      in if q_refs q = 0 then tbl
         else let q1 = q\<lparr>q_refs := q_refs q - 1\<rparr>
              in if q_refs q1 > 0 \<or> q_linked q1 then tbl[i := q1]
                 else tbl[i := q1\<lparr>q_msgs := [], q_used := False, q_name := []\<rparr>])"

text \<open>The deadline: \<open>uts\<close> is the pointer, \<open>ts\<close> the seconds and nanoseconds read through it,
  \<open>now\<close> and \<open>ticks\<close> the clocks. The result is whether there is a deadline, the tick and
  whether it has passed; the arithmetic is that of 64-bit signed integers.\<close>

definition mq_deadline_ticks ::
    "u64 \<Rightarrow> (u64 \<times> u64) option \<Rightarrow> u64 \<Rightarrow> u64 \<Rightarrow> errno + (bool \<times> u64 \<times> bool)" where
  "mq_deadline_ticks uts ts now ticks =
     (if uts = 0 then Inr (False, 0, False)
      else if uts \<ge> 0x0000800000000000 then Inl EFAULT
      else (case ts of None \<Rightarrow> Inl EFAULT
        | Some (tv_sec, tv_nsec) \<Rightarrow>
            if sint tv_nsec < 0 \<or> sint tv_nsec \<ge> 1000000000 then Inl EINVAL
            else let delta_ms = (tv_sec - now) * 1000 + tv_nsec div 1000000
                 in if sint delta_ms \<le> 0 then Inr (True, 0, True)
                    else Inr (True, ticks + (delta_ms + 9) div 10, False)))"

text \<open>\<^verbatim>\<open>expired || (has_timeout && (s64)(ticks - deadline) >= 0)\<close>\<close>

definition mq_timed_out :: "bool \<times> u64 \<times> bool \<Rightarrow> u64 \<Rightarrow> bool" where
  "mq_timed_out d ticks =
     (case d of (has_timeout, deadline, expired) \<Rightarrow>
        expired \<or> has_timeout \<and> sint (ticks - deadline) \<ge> 0)"

definition mq_clear_notify :: "mq_queue \<Rightarrow> mq_queue" where
  "mq_clear_notify q = q\<lparr>q_notify_pid := 0, q_notify_signo := 0, q_notify_type := SIGEV_NONE\<rparr>"

text \<open>The signal to send, if any: a process and a signal number.\<close>

definition mq_take_notify :: "mq_queue \<Rightarrow> bool \<Rightarrow> mq_queue \<times> (u32 \<times> int) option" where
  "mq_take_notify q was_empty =
     (if \<not> was_empty \<or> q_notify_pid q = 0 \<or> q_recv_waiters q \<noteq> 0 then (q, None)
      else (mq_clear_notify q,
            if q_notify_type q \<noteq> SIGEV_NONE \<and> q_notify_signo q \<noteq> 0
            then Some (q_notify_pid q, q_notify_signo q) else None))"

section \<open>Opening, unlinking and closing\<close>

abbreviation (input) "O_WRONLY \<equiv> (1 :: u32)"
abbreviation (input) "O_RDWR \<equiv> (2 :: u32)"
abbreviation (input) "O_CREAT \<equiv> (0x40 :: u32)"
abbreviation (input) "O_EXCL \<equiv> (0x80 :: u32)"
abbreviation (input) "O_NONBLOCK \<equiv> (0x800 :: u32)"

definition mq_want :: "u32 \<Rightarrow> u32" where
  "mq_want accmode =
     (if accmode = 0 \<or> accmode = O_RDWR then 4 else 0) OR
     (if accmode = O_WRONLY \<or> accmode = O_RDWR then 2 else 0)"

text \<open>The attributes of a new queue: \<open>uattr\<close> the pointer, \<open>attr\<close> what is read through it
  (\<^verbatim>\<open>mq_maxmsg\<close>, \<^verbatim>\<open>mq_msgsize\<close>).\<close>

definition mq_open_attr :: "u32 \<Rightarrow> u64 \<Rightarrow> (int \<times> int) option \<Rightarrow> errno + int \<times> int" where
  "mq_open_attr oflag uattr attr =
     (if oflag AND O_CREAT \<noteq> 0 \<and> uattr \<noteq> 0 then
        (if uattr \<ge> 0x0000800000000000 then Inl EFAULT
         else (case attr of None \<Rightarrow> Inl EFAULT
           | Some (maxmsg, msgsize) \<Rightarrow>
               if maxmsg \<le> 0 \<or> msgsize \<le> 0 then Inl EINVAL
               else if maxmsg > MQ_MAXMSG_LIMIT \<or> msgsize > MQ_MSGSIZE_LIMIT then Inl EINVAL
               else if maxmsg * msgsize > MQ_QUEUE_BYTES_MAX then Inl EINVAL
               else Inr (maxmsg, msgsize)))
      else Inr (MQ_MAXMSG_DEFAULT, MQ_MSGSIZE_DEFAULT))"

text \<open>The part under the lock: the queue's index and whether it was created.\<close>

definition mq_open_locked ::
    "mq_table \<Rightarrow> cred \<Rightarrow> string \<Rightarrow> u32 \<Rightarrow> u32 \<Rightarrow> int \<times> int \<Rightarrow> mq_table \<times> (errno + nat \<times> bool)" where
  "mq_open_locked tbl p name oflag mode attr =
     (case mq_find tbl name of
        Some i \<Rightarrow>
          (let q = tbl ! i
           in if oflag AND O_CREAT \<noteq> 0 \<and> oflag AND O_EXCL \<noteq> 0 then (tbl, Inl EEXIST)
              else if \<not> mq_permitted q p (mq_want (oflag AND 3)) then (tbl, Inl EACCES)
              else (tbl[i := q\<lparr>q_refs := q_refs q + 1\<rparr>], Inr (i, False)))
      | None \<Rightarrow>
          if oflag AND O_CREAT = 0 then (tbl, Inl ENOENT)
          else (case mq_free_slot 0 tbl of None \<Rightarrow> (tbl, Inl ENOSPC)
            | Some i \<Rightarrow>
                (tbl[i := mq_blank\<lparr>q_name := name, q_used := True, q_linked := True, q_refs := 2,
                   q_uid := c_euid p, q_gid := c_egid p,
                   q_mode := mode AND NOT (c_umask p) AND 0x1FF,
                   q_maxmsg := fst attr, q_msgsize := snd attr, q_notify_type := SIGEV_NONE\<rparr>],
                 Inr (i, True))))"

definition mq_open_undo :: "mq_table \<Rightarrow> nat \<Rightarrow> bool \<Rightarrow> mq_table" where
  "mq_open_undo tbl i created =
     (let tbl1 = (if created then mq_put_locked (tbl[i := (tbl ! i)\<lparr>q_linked := False\<rparr>]) i else tbl)
      in mq_put_locked tbl1 i)"

text \<open>The call up to the unlock, and what follows: \<open>fault\<close> is the error of the allocation of
  the file or of \<^verbatim>\<open>syscall_fd_install\<close>, if one of them fails.\<close>

definition mq_open_impl ::
    "mq_table \<Rightarrow> cred \<Rightarrow> u64 \<Rightarrow> (nat \<Rightarrow> char option) \<Rightarrow> u32 \<Rightarrow> u32 \<Rightarrow> u64 \<Rightarrow> (int \<times> int) option
     \<Rightarrow> mq_table \<times> (errno + nat \<times> bool)" where
  "mq_open_impl tbl p uptr uname oflag mode uattr attr =
     (case mq_copy_name uptr uname of Inl e \<Rightarrow> (tbl, Inl e)
      | Inr name \<Rightarrow>
          if oflag AND 3 = 3 then (tbl, Inl EINVAL)
          else (case mq_open_attr oflag uattr attr of Inl e \<Rightarrow> (tbl, Inl e)
            | Inr at \<Rightarrow> mq_open_locked tbl p name oflag mode at))"

definition mq_open_finish :: "mq_table \<Rightarrow> nat \<Rightarrow> bool \<Rightarrow> errno option \<Rightarrow> mq_table \<times> (errno + unit)" where
  "mq_open_finish tbl i created fault =
     (case fault of None \<Rightarrow> (tbl, Inr ()) | Some e \<Rightarrow> (mq_open_undo tbl i created, Inl e))"

definition mq_unlink_locked :: "mq_table \<Rightarrow> cred \<Rightarrow> string \<Rightarrow> mq_table \<times> (errno + unit)" where
  "mq_unlink_locked tbl p name =
     (case mq_find tbl name of None \<Rightarrow> (tbl, Inl ENOENT)
      | Some i \<Rightarrow>
          if \<not> mq_permitted (tbl ! i) p 2 then (tbl, Inl EACCES)
          else (mq_put_locked (tbl[i := (tbl ! i)\<lparr>q_linked := False\<rparr>]) i, Inr ()))"

definition mq_unlink_impl :: "mq_table \<Rightarrow> cred \<Rightarrow> u64 \<Rightarrow> (nat \<Rightarrow> char option) \<Rightarrow> mq_table \<times> (errno + unit)" where
  "mq_unlink_impl tbl p uptr uname =
     (case mq_copy_name uptr uname of Inl e \<Rightarrow> (tbl, Inl e)
      | Inr name \<Rightarrow> mq_unlink_locked tbl p name)"

definition mq_release_op :: "mq_table \<Rightarrow> u32 \<Rightarrow> nat \<Rightarrow> mq_table" where
  "mq_release_op tbl pid i =
     (let q = tbl ! i
      in mq_put_locked (tbl[i := (if q_notify_pid q = pid then mq_clear_notify q else q)]) i)"

section \<open>Sending and receiving\<close>

text \<open>The walk of the last case: the message goes behind the last one of at least its
  priority.\<close>

fun mq_walk :: "mq_msg list \<Rightarrow> mq_msg \<Rightarrow> mq_msg list" where
  "mq_walk [] m = [m]"
| "mq_walk [prev] m = [prev, m]"
| "mq_walk (prev # nxt # rest) m =
     (if m_prio nxt \<ge> m_prio m then prev # mq_walk (nxt # rest) m else prev # m # nxt # rest)"

definition mq_insert :: "mq_msg list \<Rightarrow> mq_msg \<Rightarrow> mq_msg list" where
  "mq_insert msgs m =
     (if msgs = [] then [m]
      else if m_prio (last msgs) \<ge> m_prio m then msgs @ [m]
      else if m_prio (hd msgs) < m_prio m then m # msgs
      else mq_walk msgs m)"

text \<open>What \<^verbatim>\<open>mq_timedsend_impl\<close> does before its loop, with the queue and the flags
  of the resolved descriptor: \<open>dl\<close> is the result of \<^verbatim>\<open>mq_deadline_ticks\<close>, \<open>mem\<close> whether the
  allocation succeeds, \<open>data\<close> what \<^verbatim>\<open>copy_from_user\<close> reads from a range that ends below the
  user limit (a range that does not is refused). The length is compared as the
  signed 64-bit number the cast makes of it.\<close>

definition mq_send_enter ::
    "mq_queue \<Rightarrow> u32 \<Rightarrow> u64 \<Rightarrow> u64 \<Rightarrow> u32 \<Rightarrow> (errno + bool \<times> u64 \<times> bool) \<Rightarrow> bool \<Rightarrow> u8 list option
     \<Rightarrow> errno + (bool \<times> u64 \<times> bool) \<times> mq_msg" where
  "mq_send_enter q f_flags umsg len prio dl mem data =
     (if unat prio \<ge> MQ_PRIO_MAX then Inl EINVAL
      else if len \<noteq> 0 \<and> (umsg = 0 \<or> umsg \<ge> 0x0000800000000000) then Inl EFAULT
      else if f_flags AND 3 \<noteq> O_WRONLY \<and> f_flags AND 3 \<noteq> O_RDWR then Inl EBADF
      else if sint len > q_msgsize q then Inl EMSGSIZE
      else case dl of Inl e \<Rightarrow> Inl e
        | Inr d \<Rightarrow>
            if \<not> mem then Inl ENOMEM
            else if len = 0 then Inr (d, \<lparr>m_prio = prio, m_data = []\<rparr>)
            else if uint umsg + uint len \<ge> 0x0000800000000000 then Inl EFAULT
            else (case data of None \<Rightarrow> Inl EFAULT
                  | Some bs \<Rightarrow> Inr (d, \<lparr>m_prio = prio, m_data = take (unat len) bs\<rparr>)))"

text \<open>The turn of a loop either ends the call or sleeps a tick and goes on.\<close>

datatype 'r turn = Return "errno + 'r" | Retry

definition mq_send_turn ::
    "mq_table \<Rightarrow> nat \<Rightarrow> mq_msg \<Rightarrow> bool \<Rightarrow> bool \<Rightarrow> bool \<Rightarrow> mq_table \<times> (u32 \<times> int) option \<times> unit turn" where
  "mq_send_turn tbl i m nonblock timed_out sig =
     (let q = tbl ! i
      in if \<not> q_used q then (tbl, None, Return (Inl EBADF))
         else if q_curmsgs q < q_maxmsg q then
           (let q1 = q\<lparr>q_msgs := mq_insert (q_msgs q) m, q_curmsgs := q_curmsgs q + 1,
                       q_curbytes := q_curbytes q + length (m_data m)\<rparr>;
                (q2, note) = mq_take_notify q1 (q_curmsgs q = 0)
            in (tbl[i := q2], note, Return (Inr ())))
         else if nonblock then (tbl, None, Return (Inl EAGAIN))
         else if timed_out then (tbl, None, Return (Inl ETIMEDOUT))
         else if sig then (tbl, None, Return (Inl EINTR))
         else (tbl, None, Retry))"

definition mq_recv_enter ::
    "mq_queue \<Rightarrow> u32 \<Rightarrow> u64 \<Rightarrow> u64 \<Rightarrow> u64 \<Rightarrow> (errno + bool \<times> u64 \<times> bool) \<Rightarrow> errno + (bool \<times> u64 \<times> bool)" where
  "mq_recv_enter q f_flags umsg len uprio dl =
     (if umsg = 0 \<or> umsg \<ge> 0x0000800000000000 then Inl EFAULT
      else if uprio \<noteq> 0 \<and> uprio \<ge> 0x0000800000000000 then Inl EFAULT
      else if f_flags AND 3 \<noteq> 0 \<and> f_flags AND 3 \<noteq> O_RDWR then Inl EBADF
      else if sint len < q_msgsize q then Inl EMSGSIZE
      else dl)"

text \<open>A reader that has to wait publishes itself in \<open>q_recv_waiters\<close> while it sleeps.\<close>

definition mq_recv_turn ::
    "mq_table \<Rightarrow> nat \<Rightarrow> bool \<Rightarrow> bool \<Rightarrow> mq_table \<times> mq_msg turn" where
  "mq_recv_turn tbl i nonblock timed_out =
     (let q = tbl ! i
      in if \<not> q_used q then (tbl, Return (Inl EBADF))
         else (case q_msgs q of
                 m # rest \<Rightarrow>
                   (tbl[i := q\<lparr>q_msgs := rest, q_curmsgs := q_curmsgs q - 1,
                              q_curbytes := q_curbytes q - length (m_data m)\<rparr>], Return (Inr m))
               | [] \<Rightarrow>
                   if nonblock then (tbl, Return (Inl EAGAIN))
                   else if timed_out then (tbl, Return (Inl ETIMEDOUT))
                   else (tbl[i := q\<lparr>q_recv_waiters := q_recv_waiters q + 1\<rparr>], Retry)))"

text \<open>After the sleep: the reader withdraws, and a pending signal ends the call.\<close>

definition mq_recv_wake :: "mq_table \<Rightarrow> nat \<Rightarrow> bool \<Rightarrow> mq_table \<times> mq_msg turn" where
  "mq_recv_wake tbl i sig =
     (tbl[i := (tbl ! i)\<lparr>q_recv_waiters := q_recv_waiters (tbl ! i) - 1\<rparr>],
      if sig then Return (Inl EINTR) else Retry)"

text \<open>The copies of the taken message to user memory: \<open>data_ok\<close> and \<open>prio_ok\<close> are whether
  they succeed. The message is freed in every case.\<close>

definition mq_recv_deliver :: "mq_msg \<Rightarrow> u64 \<Rightarrow> bool \<Rightarrow> bool \<Rightarrow> errno + nat" where
  "mq_recv_deliver m uprio data_ok prio_ok =
     (if m_data m \<noteq> [] \<and> \<not> data_ok then Inl EFAULT
      else if uprio \<noteq> 0 \<and> \<not> prio_ok then Inl EFAULT
      else Inr (length (m_data m)))"

section \<open>Notification, attributes, teardown\<close>

text \<open>\<open>usev\<close> is the pointer, \<open>sev\<close> the signal number and the notification type.\<close>

definition mq_notify_impl ::
    "mq_table \<Rightarrow> nat \<Rightarrow> u32 \<Rightarrow> u64 \<Rightarrow> (int \<times> int) option \<Rightarrow> mq_table \<times> (errno + unit)" where
  "mq_notify_impl tbl i pid usev sev =
     (let q = tbl ! i
      in if usev = 0 then
           (if q_notify_pid q = pid then (tbl[i := mq_clear_notify q], Inr ()) else (tbl, Inr ()))
         else if usev \<ge> 0x0000800000000000 then (tbl, Inl EFAULT)
         else (case sev of None \<Rightarrow> (tbl, Inl EFAULT)
           | Some (signo, notify) \<Rightarrow>
               if notify \<noteq> SIGEV_SIGNAL \<and> notify \<noteq> SIGEV_NONE then (tbl, Inl EINVAL)
               else if notify = SIGEV_SIGNAL \<and> (signo < 1 \<or> signo \<ge> 64) then (tbl, Inl EINVAL)
               else if q_notify_pid q \<noteq> 0 \<and> q_notify_pid q \<noteq> pid then (tbl, Inl EBUSY)
               else (tbl[i := q\<lparr>q_notify_pid := pid, q_notify_type := notify,
                               q_notify_signo := (if notify = SIGEV_NONE then 0 else signo)\<rparr>], Inr ())))"

text \<open>The result and the file flags afterwards. The old attributes are the flags, maxmsg, msgsize
  and curmsgs; \<open>newflags\<close> is what is read from \<open>unewattr\<close>, \<open>copied\<close> whether the copy to
  \<open>uoldattr\<close> succeeds. The flags have changed when that copy faults.\<close>

definition mq_getsetattr_impl ::
    "mq_queue \<Rightarrow> u32 \<Rightarrow> u64 \<Rightarrow> u64 option \<Rightarrow> u64 \<Rightarrow> bool \<Rightarrow> (errno + u32 \<times> int \<times> int \<times> int) \<times> u32" where
  "mq_getsetattr_impl q f_flags unewattr newflags uoldattr copied =
     (let old = (f_flags AND O_NONBLOCK, q_maxmsg q, q_msgsize q, q_curmsgs q);
          res = (if uoldattr \<noteq> 0 \<and> (uoldattr \<ge> 0x0000800000000000 \<or> \<not> copied) then Inl EFAULT else Inr old)
      in if unewattr = 0 then (res, f_flags)
         else if unewattr \<ge> 0x0000800000000000 then (Inl EFAULT, f_flags)
         else (case newflags of None \<Rightarrow> (Inl EFAULT, f_flags)
           | Some nf \<Rightarrow>
               if nf AND NOT 0x800 \<noteq> 0 then (Inl EINVAL, f_flags)
               else (res, if nf AND 0x800 \<noteq> 0 then f_flags OR O_NONBLOCK
                          else f_flags AND NOT O_NONBLOCK)))"

definition mqueue_drop_proc :: "mq_table \<Rightarrow> u32 \<Rightarrow> mq_table" where
  "mqueue_drop_proc tbl pid =
     (if pid = 0 then tbl
      else map (\<lambda>q. if q_used q \<and> q_notify_pid q = pid then mq_clear_notify q else q) tbl)"

definition mq_poll_op :: "mq_queue \<Rightarrow> u32" where
  "mq_poll_op q =
     (if q_curmsgs q > 0 then 0x0001 OR 0x0040 else 0) OR
     (if q_curmsgs q < q_maxmsg q then 0x0004 OR 0x0100 else 0)"

section \<open>Delivery order\<close>

text \<open>The sort key under which "highest priority first" is ascending.\<close>

definition mq_key :: "mq_msg \<Rightarrow> int" where
  "mq_key m = - int (unat (m_prio m))"

abbreviation (input) mq_sorted :: "mq_msg list \<Rightarrow> bool" where
  "mq_sorted msgs \<equiv> sorted (map mq_key msgs)"

lemma prio_ge_key: "m_prio a \<ge> m_prio b \<longleftrightarrow> mq_key a \<le> mq_key b"
  by (simp add: mq_key_def word_le_def)

lemma prio_less_key: "m_prio a < m_prio b \<longleftrightarrow> mq_key b < mq_key a"
  by (simp add: mq_key_def word_less_def)

text \<open>Insertion behind all messages of at least the same priority.\<close>

fun insert_behind :: "mq_msg list \<Rightarrow> mq_msg \<Rightarrow> mq_msg list" where
  "insert_behind [] m = [m]"
| "insert_behind (x # xs) m = (if mq_key x \<le> mq_key m then x # insert_behind xs m else m # x # xs)"

lemma insert_behind_all: "(\<And>x. x \<in> set xs \<Longrightarrow> mq_key x \<le> mq_key m) \<Longrightarrow> insert_behind xs m = xs @ [m]"
  by (induction xs) auto

lemma mq_walk_behind:
  "msgs \<noteq> [] \<Longrightarrow> mq_key (hd msgs) \<le> mq_key m \<Longrightarrow> mq_walk msgs m = insert_behind msgs m"
  by (induction msgs m rule: mq_walk.induct) (auto simp: prio_ge_key)

lemma mq_insert_behind:
  assumes "mq_sorted msgs"
  shows "mq_insert msgs m = insert_behind msgs m"
proof (cases "msgs = []")
  case False
  show ?thesis
  proof (cases "mq_key (last msgs) \<le> mq_key m")
    case True
    have "mq_key x \<le> mq_key m" if "x \<in> set msgs" for x
    proof -
      have "mq_key x \<le> mq_key (last msgs)"
        using assms that False by (cases msgs rule: rev_cases) (auto simp: sorted_append)
      with True show ?thesis by simp
    qed
    then have "insert_behind msgs m = msgs @ [m]" by (rule insert_behind_all)
    with True False show ?thesis by (simp add: mq_insert_def prio_ge_key)
  next
    case nl: False
    show ?thesis
      using False nl mq_walk_behind [of msgs m]
      by (cases msgs) (auto simp: mq_insert_def prio_ge_key prio_less_key not_le)
  qed
qed (simp add: mq_insert_def)

lemma insert_behind_mset [simp]: "mset (insert_behind xs m) = add_mset m (mset xs)"
  by (induction xs) auto

lemma insert_behind_set [simp]: "set (insert_behind xs m) = insert m (set xs)"
  by (induction xs) auto

lemma insert_behind_sorted: "mq_sorted xs \<Longrightarrow> mq_sorted (insert_behind xs m)"
  by (induction xs) auto

lemma insert_behind_filter:
  "mq_sorted xs \<Longrightarrow> filter (\<lambda>x. k = mq_key x) (insert_behind xs m) =
     filter (\<lambda>x. k = mq_key x) xs @ (if k = mq_key m then [m] else [])"
proof (induction xs)
  case (Cons x xs)
  have "filter (\<lambda>y. k = mq_key y) (x # xs) = []" if "k = mq_key m" "\<not> mq_key x \<le> mq_key m"
    using that Cons.prems by (auto simp: filter_empty_conv)
  with Cons show ?case by auto
qed simp

lemma mq_insert_sort: "mq_insert (sort_key mq_key xs) m = sort_key mq_key (xs @ [m])"
proof -
  have s: "mq_sorted (sort_key mq_key xs)" by simp
  have k: "filter (\<lambda>x. k = mq_key x) (sort_key mq_key ys) = filter (\<lambda>x. k = mq_key x) ys" for k ys
    using sort_key_stable [of mq_key k ys] by (simp add: eq_commute)
  have "sort_key mq_key (xs @ [m]) = insert_behind (sort_key mq_key xs) m"
    by (rule properties_for_sort_key) (simp_all add: insert_behind_filter [OF s] k insert_behind_sorted)
  then show ?thesis by (simp add: mq_insert_behind)
qed

text \<open>What POSIX promises: a bounded queue of the messages in the order they were sent, of which
  a receiver takes, among those with the highest priority, the one that was sent first.\<close>

datatype mq_op = Send mq_msg bool bool bool | Recv bool bool

datatype mq_out = Sent "unit turn" | Got "mq_msg turn"

definition top_prio :: "mq_msg list \<Rightarrow> u32" where
  "top_prio xs = fold max (map m_prio xs) 0"

fun pq_op :: "int \<Rightarrow> mq_op \<Rightarrow> mq_msg list \<Rightarrow> mq_msg list \<times> mq_out" where
  "pq_op cap (Send m nonblock timed_out sig) xs =
     (if int (length xs) < cap then (xs @ [m], Sent (Return (Inr ())))
      else (xs, Sent (if nonblock then Return (Inl EAGAIN) else if timed_out then Return (Inl ETIMEDOUT)
                      else if sig then Return (Inl EINTR) else Retry)))"
| "pq_op cap (Recv nonblock timed_out) xs =
     (let lower = (\<lambda>x. m_prio x \<noteq> top_prio xs)
      in case dropWhile lower xs of
           m # rest \<Rightarrow> (takeWhile lower xs @ rest, Got (Return (Inr m)))
         | [] \<Rightarrow> (xs, Got (if nonblock then Return (Inl EAGAIN) else if timed_out then Return (Inl ETIMEDOUT) else Retry)))"

text \<open>The same calls on slot \<open>i\<close> of the table.\<close>

fun mq_op_turn :: "nat \<Rightarrow> mq_op \<Rightarrow> mq_table \<Rightarrow> mq_table \<times> mq_out" where
  "mq_op_turn i (Send m nonblock timed_out sig) tbl =
     (case mq_send_turn tbl i m nonblock timed_out sig of (tbl', _, r) \<Rightarrow> (tbl', Sent r))"
| "mq_op_turn i (Recv nonblock timed_out) tbl =
     (case mq_recv_turn tbl i nonblock timed_out of (tbl', r) \<Rightarrow> (tbl', Got r))"

fun outputs :: "(mq_op \<Rightarrow> 's \<Rightarrow> 's \<times> mq_out) \<Rightarrow> mq_op list \<Rightarrow> 's \<Rightarrow> mq_out list" where
  "outputs f [] s = []"
| "outputs f (a # as) s = (case f a s of (s', r) \<Rightarrow> r # outputs f as s')"

lemma top_prio_max: "m \<in> set xs \<Longrightarrow> m_prio m \<le> top_prio xs"
  "xs \<noteq> [] \<Longrightarrow> \<exists>m \<in> set xs. m_prio m = top_prio xs"
proof -
  have f: "fold max ps (a :: u32) = Max (insert a (set ps))" for ps a
    by (simp only: Max.set_eq_fold [symmetric] list.set)
  have t: "top_prio xs = Max (insert 0 (m_prio ` set xs))" by (simp add: top_prio_def f)
  show "m \<in> set xs \<Longrightarrow> m_prio m \<le> top_prio xs" unfolding t by simp
  assume "xs \<noteq> []"
  then have "top_prio xs = Max (m_prio ` set xs)" unfolding t by (subst Max_insert) (auto simp: max_def)
  moreover have "Max (m_prio ` set xs) \<in> m_prio ` set xs" by (rule Max_in) (use \<open>xs \<noteq> []\<close> in simp_all)
  ultimately show "\<exists>m \<in> set xs. m_prio m = top_prio xs" by (metis imageE)
qed

lemma sort_take_first:
  assumes "\<forall>y \<in> set ys. mq_key m < mq_key y" "\<forall>z \<in> set zs. mq_key m \<le> mq_key z"
  shows "sort_key mq_key (ys @ m # zs) = m # sort_key mq_key (ys @ zs)"
proof (rule properties_for_sort_key)
  have k: "filter (\<lambda>x. k = mq_key x) (sort_key mq_key xs) = filter (\<lambda>x. k = mq_key x) xs" for k xs
    using sort_key_stable [of mq_key k xs] by (simp add: eq_commute)
  have "filter (\<lambda>x. mq_key m = mq_key x) ys = []" using assms(1) by (auto simp: filter_empty_conv)
  then show "filter (\<lambda>x. mq_key a = mq_key x) (m # sort_key mq_key (ys @ zs)) = filter (\<lambda>x. mq_key a = mq_key x) (ys @ m # zs)" for a
    using assms by (cases "mq_key a = mq_key m") (auto simp: k)
  show "mq_sorted (m # sort_key mq_key (ys @ zs))" using assms by (auto intro: less_imp_le)
qed simp

definition queue_holds :: "mq_queue \<Rightarrow> int \<Rightarrow> mq_msg list \<Rightarrow> bool" where
  "queue_holds q cap xs \<longleftrightarrow> q_used q \<and> q_maxmsg q = cap \<and> q_curmsgs q = int (length xs) \<and> q_msgs q = sort_key mq_key xs"

lemma mq_op_simulates:
  assumes i: "i < length tbl" and q: "queue_holds (tbl ! i) cap xs"
  shows "\<exists>tbl' xs' r. mq_op_turn i a tbl = (tbl', r) \<and> pq_op cap a xs = (xs', r) \<and> length tbl' = length tbl \<and>
    queue_holds (tbl' ! i) cap xs'"
proof (cases a)
  case (Send m nb timed sig)
  show ?thesis
  proof (cases "int (length xs) < cap")
    case True
    let ?q1 = "(tbl ! i)\<lparr>q_msgs := mq_insert (q_msgs (tbl ! i)) m, q_curmsgs := q_curmsgs (tbl ! i) + 1,
                       q_curbytes := q_curbytes (tbl ! i) + length (m_data m)\<rparr>"
    obtain q2 sg where n: "mq_take_notify ?q1 (q_curmsgs (tbl ! i) = 0) = (q2, sg)" by fastforce
    have "q_msgs q2 = q_msgs ?q1" "q_curmsgs q2 = q_curmsgs ?q1" "q_maxmsg q2 = q_maxmsg ?q1" "q_used q2 = q_used ?q1"
      using n by (auto simp: mq_take_notify_def mq_clear_notify_def split: if_splits)
    then show ?thesis using q True i n by (simp add: Send queue_holds_def mq_send_turn_def Let_def mq_insert_sort)
  qed (use q i in \<open>auto simp: Send queue_holds_def mq_send_turn_def Let_def\<close>)
next
  case (Recv nb timed)
  show ?thesis
  proof (cases "xs = []")
    case True
    then show ?thesis using q i by (auto simp: Recv queue_holds_def mq_recv_turn_def Let_def)
  next
    case False
    let ?lower = "\<lambda>x. m_prio x \<noteq> top_prio xs"
    obtain m rest where d: "dropWhile ?lower xs = m # rest"
      using top_prio_max(2) [OF False] by (cases "dropWhile ?lower xs") auto
    have xs: "xs = takeWhile ?lower xs @ m # rest" using takeWhile_dropWhile_id [of ?lower xs] d by simp
    have mt: "m_prio m = top_prio xs" using hd_dropWhile [of ?lower xs] d by auto
    have le: "mq_key m \<le> mq_key x" if "x \<in> set xs" for x
      using top_prio_max(1) [OF that] mt by (simp add: prio_ge_key [symmetric])
    have sub: "set rest \<subseteq> set xs" "set (takeWhile ?lower xs) \<subseteq> set xs"
      using arg_cong [OF xs, of set] set_takeWhileD [of _ ?lower xs] by auto
    have low: "m_prio y \<noteq> m_prio m" if "y \<in> set (takeWhile ?lower xs)" for y using set_takeWhileD [OF that] mt by simp
    have "sort_key mq_key (takeWhile ?lower xs @ m # rest) = m # sort_key mq_key (takeWhile ?lower xs @ rest)"
    proof (rule sort_take_first)
      show "\<forall>y \<in> set (takeWhile ?lower xs). mq_key m < mq_key y"
      proof
        fix y assume y: "y \<in> set (takeWhile ?lower xs)"
        have "mq_key m \<noteq> mq_key y" using low [OF y] by (metis mq_key_def neg_equal_iff_equal of_nat_eq_iff word_unat_eq_iff)
        moreover have "mq_key m \<le> mq_key y" using le sub(2) y by blast
        ultimately show "mq_key m < mq_key y" by simp
      qed
      show "\<forall>z \<in> set rest. mq_key m \<le> mq_key z" using le sub by blast
    qed
    then have srt: "sort_key mq_key xs = m # sort_key mq_key (takeWhile ?lower xs @ rest)" using xs by simp
    have "length xs = Suc (length (takeWhile ?lower xs @ rest))" by (subst xs) simp
    then show ?thesis using q i d srt by (simp add: Recv queue_holds_def mq_recv_turn_def Let_def)
  qed
qed

lemma mq_ops_simulate:
  "i < length tbl \<Longrightarrow> queue_holds (tbl ! i) cap xs \<Longrightarrow> outputs (mq_op_turn i) ops tbl = outputs (pq_op cap) ops xs"
proof (induction ops arbitrary: tbl xs)
  case (Cons a ops)
  obtain tbl' xs' r where "mq_op_turn i a tbl = (tbl', r)" "pq_op cap a xs = (xs', r)" "length tbl' = length tbl"
      "queue_holds (tbl' ! i) cap xs'"
    using mq_op_simulates [OF Cons.prems] by blast
  then show ?case using Cons.IH [of tbl' xs'] Cons.prems(1) by simp
qed simp

text \<open>C33: Any sequence of sends and receives on a queue that starts empty gives the results of a
  bounded queue that keeps the messages in the order they were sent and from which a
  receiver takes, among the messages of the highest priority, the one sent first.\<close>

theorem mq_delivery_order:
  assumes "i < length tbl" and "q_used (tbl ! i)" and "q_msgs (tbl ! i) = []" and "q_curmsgs (tbl ! i) = 0"
  shows "outputs (mq_op_turn i) ops tbl = outputs (pq_op (q_maxmsg (tbl ! i))) ops []"
  by (rule mq_ops_simulate [OF assms(1)]) (simp add: queue_holds_def assms)

section \<open>The queues' invariant\<close>

definition mq_content_ok :: "mq_queue \<Rightarrow> bool" where
  "mq_content_ok q \<longleftrightarrow> mq_sorted (q_msgs q) \<and> q_curmsgs q = int (length (q_msgs q)) \<and>
     q_curbytes q = sum_list (map (length \<circ> m_data) (q_msgs q)) \<and> q_curmsgs q \<le> q_maxmsg q \<and>
     0 < q_maxmsg q \<and> 0 < q_msgsize q \<and> q_maxmsg q * q_msgsize q \<le> MQ_QUEUE_BYTES_MAX \<and>
     (\<forall>m \<in> set (q_msgs q). int (length (m_data m)) \<le> q_msgsize q)"

text \<open>\<open>n\<close> is the number of references from outside: descriptors and opens in progress.\<close>

definition queue_ok :: "mq_queue \<Rightarrow> nat \<Rightarrow> bool" where
  "queue_ok q n \<longleftrightarrow>
     (if q_used q then q_refs q = of_bool (q_linked q) + n \<and> 0 < q_refs q \<and> mq_content_ok q
      else n = 0 \<and> q_refs q = 0 \<and> \<not> q_linked q)"

definition put_q :: "mq_queue \<Rightarrow> mq_queue" where
  "put_q q = (if q_refs q = 0 then q
     else let q1 = q\<lparr>q_refs := q_refs q - 1\<rparr>
          in if q_refs q1 > 0 \<or> q_linked q1 then q1
             else q1\<lparr>q_msgs := [], q_used := False, q_name := []\<rparr>)"

lemma mq_put_locked_upd: "mq_put_locked tbl i = tbl[i := put_q (tbl ! i)]"
  by (simp add: mq_put_locked_def put_q_def Let_def)

lemma put_q_ok:
  assumes "q_used q" and "q_refs q = of_bool (q_linked q) + n + 1" and "mq_content_ok q"
  shows "queue_ok (put_q q) n"
  using assms by (auto simp: put_q_def queue_ok_def Let_def mq_content_ok_def)

lemma put_q_other [simp]: "q_name (put_q q) = (if q_used (put_q q) then q_name q else q_name (put_q q))"
  by (auto simp: put_q_def Let_def)

lemma put_q_linked: "q_linked (put_q q) = q_linked q" "q_used (put_q q) \<Longrightarrow> q_used q"
    "q_used (put_q q) \<Longrightarrow> q_name (put_q q) = q_name q"
  by (auto simp: put_q_def Let_def split: if_splits)

lemma content_ok_notify [simp]: "mq_content_ok (mq_clear_notify q) = mq_content_ok q"
  by (simp add: mq_content_ok_def mq_clear_notify_def)

lemma clear_notify_simps [simp]:
  "q_used (mq_clear_notify q) = q_used q" "q_linked (mq_clear_notify q) = q_linked q"
  "q_refs (mq_clear_notify q) = q_refs q" "q_name (mq_clear_notify q) = q_name q"
  by (simp_all add: mq_clear_notify_def)

lemma take_notify_simps:
  assumes "mq_take_notify q e = (q', r)"
  shows "q_used q' = q_used q" "q_linked q' = q_linked q" "q_refs q' = q_refs q" "q_name q' = q_name q"
    "mq_content_ok q' = mq_content_ok q"
  using assms by (auto simp: mq_take_notify_def split: if_splits)

lemma send_content_ok:
  assumes "mq_content_ok q" and "q_curmsgs q < q_maxmsg q" and "int (length (m_data m)) \<le> q_msgsize q"
  shows "mq_content_ok (q\<lparr>q_msgs := mq_insert (q_msgs q) m, q_curmsgs := q_curmsgs q + 1,
     q_curbytes := q_curbytes q + length (m_data m)\<rparr>)"
proof -
  have s: "mq_sorted (q_msgs q)" using assms by (simp add: mq_content_ok_def)
  have "mset (mq_insert (q_msgs q) m) = add_mset m (mset (q_msgs q))"
    by (simp add: mq_insert_behind [OF s])
  then have "length (mq_insert (q_msgs q) m) = Suc (length (q_msgs q))"
    and "sum_list (map (length \<circ> m_data) (mq_insert (q_msgs q) m)) =
      length (m_data m) + sum_list (map (length \<circ> m_data) (q_msgs q))"
    by (metis size_mset size_add_mset,
        metis (no_types, lifting) mset_map sum_mset_sum_list image_mset_add_mset sum_mset.add_mset comp_apply)
  with assms s show ?thesis
    by (auto simp: mq_content_ok_def mq_insert_behind insert_behind_sorted)
qed

lemma recv_content_ok:
  assumes "mq_content_ok q" and "q_msgs q = m # rest"
  shows "mq_content_ok (q\<lparr>q_msgs := rest, q_curmsgs := q_curmsgs q - 1,
     q_curbytes := q_curbytes q - length (m_data m)\<rparr>)"
  using assms by (auto simp: mq_content_ok_def)

text \<open>The tables: each queue has the references \<open>h\<close> counts, and no two share a name.\<close>

definition named :: "mq_table \<Rightarrow> nat \<Rightarrow> bool" where
  "named tbl i \<longleftrightarrow> i < length tbl \<and> q_used (tbl ! i) \<and> q_linked (tbl ! i)"

definition tbl_ok :: "mq_table \<Rightarrow> (nat \<Rightarrow> nat) \<Rightarrow> bool" where
  "tbl_ok tbl h \<longleftrightarrow> (\<forall>i < length tbl. queue_ok (tbl ! i) (h i)) \<and> (\<forall>i \<ge> length tbl. h i = 0) \<and>
     inj_on (\<lambda>i. q_name (tbl ! i)) {i. named tbl i}"

lemma tbl_okD:
  assumes "tbl_ok tbl h"
  shows "i < length tbl \<Longrightarrow> queue_ok (tbl ! i) (h i)" "0 < h i \<Longrightarrow> i < length tbl"
    "0 < h i \<Longrightarrow> q_used (tbl ! i)"
proof -
  show *: "i < length tbl \<Longrightarrow> queue_ok (tbl ! i) (h i)" using assms by (simp add: tbl_ok_def)
  show l: "0 < h i \<Longrightarrow> i < length tbl"
    using assms by (cases "i < length tbl") (auto simp: tbl_ok_def)
  show "0 < h i \<Longrightarrow> q_used (tbl ! i)" using * l by (auto simp: queue_ok_def split: if_splits)
qed

lemma tbl_ok_update:
  assumes t: "tbl_ok tbl h" and i: "i < length tbl" and q: "queue_ok q n"
    and keep: "q_used q \<Longrightarrow> q_linked q \<Longrightarrow> named tbl i \<and> q_name q = q_name (tbl ! i)"
  shows "tbl_ok (tbl[i := q]) (h(i := n))"
proof -
  have "inj_on (\<lambda>j. q_name (tbl[i := q] ! j)) {j. named (tbl[i := q]) j}"
  proof (rule inj_onI)
    fix j k
    assume jk: "j \<in> {j. named (tbl[i := q]) j}" "k \<in> {j. named (tbl[i := q]) j}"
      "q_name (tbl[i := q] ! j) = q_name (tbl[i := q] ! k)"
    have "named tbl l \<and> q_name (tbl[i := q] ! l) = q_name (tbl ! l)" if "named (tbl[i := q]) l" for l
      using that keep i by (cases "l = i") (auto simp: named_def)
    with jk have "named tbl j" "named tbl k" "q_name (tbl ! j) = q_name (tbl ! k)" by auto
    with t show "j = k" by (auto simp: tbl_ok_def inj_on_def)
  qed
  with t i q show ?thesis by (auto simp: tbl_ok_def nth_list_update)
qed

lemma tbl_ok_fresh:
  assumes t: "tbl_ok tbl h" and i: "i < length tbl" and q: "queue_ok q n"
    and new: "\<And>j. named tbl j \<Longrightarrow> q_name (tbl ! j) \<noteq> q_name q"
  shows "tbl_ok (tbl[i := q]) (h(i := n))"
proof -
  have "inj_on (\<lambda>j. q_name (tbl[i := q] ! j)) {j. named (tbl[i := q]) j}"
  proof (rule inj_onI)
    fix j k
    assume jk: "j \<in> {j. named (tbl[i := q]) j}" "k \<in> {j. named (tbl[i := q]) j}"
      "q_name (tbl[i := q] ! j) = q_name (tbl[i := q] ! k)"
    have n: "named tbl l" if "l \<noteq> i" "named (tbl[i := q]) l" for l
      using that by (auto simp: named_def)
    show "j = k"
    proof (cases "j = i \<or> k = i")
      case True
      with jk i n new show ?thesis by (auto simp: nth_list_update split: if_splits) metis+
    next
      case False
      with jk n t show ?thesis by (auto simp: tbl_ok_def inj_on_def)
    qed
  qed
  with t i q show ?thesis by (auto simp: tbl_ok_def nth_list_update)
qed

lemma mq_find_from_Some:
  "mq_find_from k tbl name = Some i \<Longrightarrow>
     k \<le> i \<and> i - k < length tbl \<and> q_used (tbl ! (i - k)) \<and> q_linked (tbl ! (i - k)) \<and> q_name (tbl ! (i - k)) = name"
  by (induction tbl arbitrary: k) (fastforce simp: nth_Cons' Suc_diff_Suc split: if_splits)+

lemma mq_find_Some: "mq_find tbl name = Some i \<Longrightarrow> named tbl i \<and> q_name (tbl ! i) = name"
  using mq_find_from_Some [of 0 tbl name i] by (auto simp: mq_find_def named_def)

lemma mq_find_from_None: "mq_find_from k tbl name = None \<Longrightarrow> named tbl j \<Longrightarrow> q_name (tbl ! j) \<noteq> name"
proof (induction tbl arbitrary: k j)
  case (Cons q tbl)
  then show ?case by (cases j) (auto simp: named_def split: if_splits)
qed (simp add: named_def)

lemma mq_find_None: "mq_find tbl name = None \<Longrightarrow> named tbl j \<Longrightarrow> q_name (tbl ! j) \<noteq> name"
  by (auto simp: mq_find_def dest: mq_find_from_None)

lemma mq_free_slot_Some:
  "mq_free_slot k tbl = Some i \<Longrightarrow> k \<le> i \<and> i - k < length tbl \<and> \<not> q_used (tbl ! (i - k))"
  by (induction tbl arbitrary: k) (fastforce simp: nth_Cons' Suc_diff_Suc split: if_splits)+

lemma mq_open_attr_ok:
  assumes "mq_open_attr oflag uattr attr = Inr (a, b)"
  shows "0 < a \<and> 0 < b \<and> a * b \<le> MQ_QUEUE_BYTES_MAX"
  using assms
  by (auto simp: mq_open_attr_def MQ_MAXMSG_DEFAULT_def MQ_MSGSIZE_DEFAULT_def MQ_QUEUE_BYTES_MAX_def
      split: if_splits option.splits)

lemma fresh_content_ok:
  assumes "0 < a" "0 < b" "a * b \<le> MQ_QUEUE_BYTES_MAX"
  shows "mq_content_ok (mq_blank\<lparr>q_name := nm, q_used := True, q_linked := True, q_refs := r,
    q_uid := u, q_gid := g, q_mode := md, q_maxmsg := a, q_msgsize := b, q_notify_type := ty\<rparr>)"
  using assms by (simp add: mq_content_ok_def mq_blank_def)

section \<open>Every operation keeps it\<close>

lemma open_locked_ok:
  assumes t: "tbl_ok tbl h" and a: "0 < fst at" "0 < snd at" "fst at * snd at \<le> MQ_QUEUE_BYTES_MAX"
    and o: "mq_open_locked tbl p name oflag mode at = (t', Inr (i, c))"
  shows "tbl_ok t' (h(i := Suc (h i)))"
proof (cases "mq_find tbl name")
  case None
  then obtain sl: "mq_free_slot 0 tbl = Some i" and t': "t' = tbl[i := mq_blank\<lparr>q_name := name, q_used := True,
      q_linked := True, q_refs := 2, q_uid := c_euid p, q_gid := c_egid p,
      q_mode := mode AND NOT (c_umask p) AND 0x1FF,
      q_maxmsg := fst at, q_msgsize := snd at, q_notify_type := SIGEV_NONE\<rparr>]"
    using o by (auto simp: mq_open_locked_def split: if_splits option.splits)
  have i: "i < length tbl" "\<not> q_used (tbl ! i)" using mq_free_slot_Some [OF sl] by auto
  then have "h i = 0" using tbl_okD(1) [OF t i(1)] by (simp add: queue_ok_def)
  then show ?thesis unfolding t'
    by (intro tbl_ok_fresh [OF t i(1)])
      (use fresh_content_ok [OF a] mq_find_None [OF None] in \<open>auto simp: queue_ok_def mq_blank_def\<close>)
next
  case (Some j)
  then have n: "named tbl j" using mq_find_Some by blast
  from Some o have "i = j" "t' = tbl[i := (tbl ! i)\<lparr>q_refs := q_refs (tbl ! i) + 1\<rparr>]"
    by (auto simp: mq_open_locked_def Let_def split: if_splits)
  moreover have "queue_ok ((tbl ! j)\<lparr>q_refs := q_refs (tbl ! j) + 1\<rparr>) (Suc (h j))"
    using tbl_okD(1) [OF t, of j] n by (simp add: queue_ok_def named_def mq_content_ok_def)
  ultimately show ?thesis using n t by (auto intro!: tbl_ok_update simp: named_def)
qed

lemma open_impl_ok:
  assumes "tbl_ok tbl h" and "mq_open_impl tbl p uptr uname oflag mode uattr attr = (t', Inr (i, c))"
  shows "tbl_ok t' (h(i := Suc (h i)))"
  using assms
  by (auto simp: mq_open_impl_def split: sum.splits if_splits dest!: mq_open_attr_ok elim!: open_locked_ok)

lemma put_locked_ok:
  assumes t: "tbl_ok tbl h" and h: "0 < h i"
  shows "tbl_ok (mq_put_locked tbl i) (h(i := h i - 1))"
proof -
  note d = tbl_okD [OF t]
  have "queue_ok (put_q (tbl ! i)) (h i - 1)"
    using d(1) [of i] d(2,3) [OF h] h by (intro put_q_ok) (auto simp: queue_ok_def)
  then show ?thesis unfolding mq_put_locked_upd
    by (intro tbl_ok_update [OF t d(2) [OF h]])
      (use d(2,3) [OF h] in \<open>auto simp: named_def put_q_linked\<close>)
qed

text \<open>Dropping a name and its reference.\<close>

lemma unlink_put_ok:
  assumes t: "tbl_ok tbl h" and n: "named tbl i"
  shows "tbl_ok (mq_put_locked (tbl[i := (tbl ! i)\<lparr>q_linked := False\<rparr>]) i) h"
proof -
  have q: "queue_ok (tbl ! i) (h i)" "q_used (tbl ! i)" "q_linked (tbl ! i)" "i < length tbl"
    using tbl_okD [OF t] n by (auto simp: named_def)
  have "queue_ok (put_q ((tbl ! i)\<lparr>q_linked := False\<rparr>)) (h i)"
    using q by (intro put_q_ok) (auto simp: queue_ok_def mq_content_ok_def)
  then have "tbl_ok (tbl[i := put_q ((tbl ! i)\<lparr>q_linked := False\<rparr>)]) (h(i := h i))"
    by (intro tbl_ok_update [OF t q(4)]) (auto simp: put_q_linked)
  with q show ?thesis by (simp add: mq_put_locked_upd)
qed

lemma undo_ok:
  assumes t: "tbl_ok tbl h" and h: "0 < h i" and c: "c \<Longrightarrow> q_linked (tbl ! i)"
  shows "tbl_ok (mq_open_undo tbl i c) (h(i := h i - 1))"
proof (cases c)
  case True
  then have "named tbl i" using c tbl_okD(2,3) [OF t h] by (simp add: named_def)
  with True h put_locked_ok [OF unlink_put_ok [OF t]] show ?thesis by (simp add: mq_open_undo_def)
qed (use put_locked_ok [OF t h] in \<open>simp add: mq_open_undo_def\<close>)

lemma unlink_impl_ok:
  assumes "tbl_ok tbl h"
  shows "tbl_ok (fst (mq_unlink_impl tbl p uptr uname)) h"
  using assms by (auto simp: mq_unlink_impl_def mq_unlink_locked_def split: sum.splits option.splits
      dest!: mq_find_Some intro: unlink_put_ok)

text \<open>A change of one queue that concerns neither its references nor its name.\<close>

lemma tbl_ok_content:
  assumes t: "tbl_ok tbl h"
    and q: "q_used q = q_used (tbl ! i)" "q_linked q = q_linked (tbl ! i)" "q_refs q = q_refs (tbl ! i)"
      "q_name q = q_name (tbl ! i)"
    and c: "i < length tbl \<Longrightarrow> q_used (tbl ! i) \<Longrightarrow> mq_content_ok (tbl ! i) \<Longrightarrow> mq_content_ok q"
  shows "tbl_ok (tbl[i := q]) h"
proof (cases "i < length tbl")
  case True
  have "queue_ok q (h i)" using tbl_okD(1) [OF t True] q c True by (auto simp: queue_ok_def)
  with tbl_ok_update [OF t True, of q "h i"] q True show ?thesis by (simp add: named_def)
qed (use t in \<open>simp add: list_update_beyond\<close>)

lemma release_ok:
  assumes t: "tbl_ok tbl h" and h: "0 < h i"
  shows "tbl_ok (mq_release_op tbl pid i) (h(i := h i - 1))"
proof -
  have "tbl_ok (tbl[i := if q_notify_pid (tbl ! i) = pid then mq_clear_notify (tbl ! i) else tbl ! i]) h"
    by (rule tbl_ok_content [OF t]) auto
  from put_locked_ok [OF this h] show ?thesis by (simp add: mq_release_op_def Let_def)
qed

lemma sint_user_len:
  fixes len :: u64
  assumes "uint umsg + uint len < 0x0000800000000000"
  shows "sint len = uint len"
proof -
  have "0 \<le> uint umsg" by simp
  then have "uint len < 0x8000000000000000" using assms by linarith
  then have "signed_take_bit 63 (uint len) = uint len"
    by (intro signed_take_bit_int_eq_self) (auto intro: order_trans [of _ 0])
  then show ?thesis by (simp add: sint_uint)
qed

lemma send_enter_len:
  assumes "mq_send_enter q fl umsg len prio dl mem data = Inr (d, m)"
    and "0 < q_msgsize q"
  shows "int (length (m_data m)) \<le> q_msgsize q \<and> unat (m_prio m) < MQ_PRIO_MAX"
proof -
  have "int (min n (unat len)) \<le> q_msgsize q" if "uint umsg + uint len < 0x0000800000000000" "sint len \<le> q_msgsize q" for n
  proof -
    have "int (min n (unat len)) \<le> int (unat len)" by (simp only: of_nat_le_iff min.cobounded2)
    with sint_user_len [OF that(1)] that(2) show ?thesis by (simp del: of_nat_min)
  qed
  then show ?thesis using assms
    by (auto simp: mq_send_enter_def not_le not_less split: if_splits sum.splits option.splits)
qed

lemma take_notify_eq:
  "mq_content_ok (fst (mq_take_notify q e)) = mq_content_ok q" "q_used (fst (mq_take_notify q e)) = q_used q"
  "q_linked (fst (mq_take_notify q e)) = q_linked q" "q_refs (fst (mq_take_notify q e)) = q_refs q"
  "q_name (fst (mq_take_notify q e)) = q_name q"
  by (simp_all add: mq_take_notify_def)

lemma send_turn_ok:
  assumes t: "tbl_ok tbl h" and e: "mq_send_enter (tbl ! i) fl umsg len prio dl mem data = Inr (d, m)"
  shows "tbl_ok (fst (mq_send_turn tbl i m nb tmo sig)) h"
proof -
  let ?q = "(tbl ! i)\<lparr>q_msgs := mq_insert (q_msgs (tbl ! i)) m, q_curmsgs := q_curmsgs (tbl ! i) + 1,
     q_curbytes := q_curbytes (tbl ! i) + length (m_data m)\<rparr>"
  have "tbl_ok (tbl[i := fst (mq_take_notify ?q z)]) h"
    if "q_curmsgs (tbl ! i) < q_maxmsg (tbl ! i)" for z
    by (rule tbl_ok_content [OF t])
      (use that send_enter_len [OF e] in \<open>auto simp: take_notify_eq intro!: send_content_ok\<close>,
       simp add: mq_content_ok_def)
  with t show ?thesis by (auto simp: mq_send_turn_def Let_def case_prod_beta)
qed

lemma recv_turn_ok:
  assumes t: "tbl_ok tbl h"
  shows "tbl_ok (fst (mq_recv_turn tbl i nb tmo)) h"
proof (cases "q_msgs (tbl ! i)")
  case Nil
  have "tbl_ok (tbl[i := (tbl ! i)\<lparr>q_recv_waiters := q_recv_waiters (tbl ! i) + 1\<rparr>]) h"
    by (rule tbl_ok_content [OF t]) (auto simp: mq_content_ok_def)
  with Nil t show ?thesis by (simp add: mq_recv_turn_def Let_def)
next
  case (Cons m rest)
  have "tbl_ok (tbl[i := (tbl ! i)\<lparr>q_msgs := rest, q_curmsgs := q_curmsgs (tbl ! i) - 1,
     q_curbytes := q_curbytes (tbl ! i) - length (m_data m)\<rparr>]) h"
    by (rule tbl_ok_content [OF t]) (use Cons in \<open>auto intro: recv_content_ok\<close>)
  with Cons t show ?thesis by (simp add: mq_recv_turn_def Let_def)
qed

lemma recv_wake_ok: "tbl_ok tbl h \<Longrightarrow> tbl_ok (fst (mq_recv_wake tbl i sig)) h"
  unfolding mq_recv_wake_def fst_conv by (rule tbl_ok_content) (auto simp: mq_content_ok_def)

lemma notify_ok:
  assumes "tbl_ok tbl h" shows "tbl_ok (fst (mq_notify_impl tbl i pid usev sev)) h"
proof -
  have "tbl_ok (tbl[i := (tbl ! i)\<lparr>q_notify_pid := a, q_notify_type := b, q_notify_signo := c\<rparr>]) h" for a b c
    by (rule tbl_ok_content [OF assms]) (auto simp: mq_content_ok_def)
  moreover have "tbl_ok (tbl[i := mq_clear_notify (tbl ! i)]) h"
    by (rule tbl_ok_content [OF assms]) auto
  ultimately show ?thesis using assms
    by (auto simp: mq_notify_impl_def Let_def split: option.splits)
qed

lemma drop_proc_ok:
  assumes "tbl_ok tbl h" shows "tbl_ok (mqueue_drop_proc tbl pid) h"
proof -
  define f where "f q = (if q_used q \<and> q_notify_pid q = pid then mq_clear_notify q else q)" for q
  have "queue_ok (f q) n = queue_ok q n" "q_name (f q) = q_name q" "q_used (f q) = q_used q"
    "q_linked (f q) = q_linked q" for q n by (simp_all add: f_def queue_ok_def)
  then have "tbl_ok (map f tbl) h"
    using assms by (auto simp: tbl_ok_def inj_on_def named_def)
  moreover have "mqueue_drop_proc tbl pid = (if pid = 0 then tbl else map f tbl)"
    by (simp add: mqueue_drop_proc_def f_def)
  ultimately show ?thesis using assms by simp
qed

section \<open>Interleavings\<close>

text \<open>The open file descriptions by the queue they refer to, and the calls of \<^verbatim>\<open>mq_open\<close>
  between their two parts.\<close>

record mq_sys =
  ms_tbl :: mq_table
  ms_files :: "nat list"
  ms_opening :: "(nat \<times> bool) list"

definition mq_boot :: mq_sys where
  "mq_boot = \<lparr>ms_tbl = mqueue_init, ms_files = [], ms_opening = []\<rparr>"

text \<open>The steps of all processes. With \<open>racy\<close> false, an \<^verbatim>\<open>mq_open\<close> that created its queue
  and fails afterwards still finds it under its name.\<close>

inductive mq_step :: "bool \<Rightarrow> mq_sys \<Rightarrow> mq_sys \<Rightarrow> bool" for racy :: bool where
  st_open: "mq_open_impl (ms_tbl s) p uptr uname oflag mode uattr attr = (t, Inr (i, c)) \<Longrightarrow>
    mq_step racy s (s\<lparr>ms_tbl := t, ms_opening := (i, c) # ms_opening s\<rparr>)"
| st_install: "(i, c) \<in> set (ms_opening s) \<Longrightarrow> mq_open_finish (ms_tbl s) i c None = (t, r) \<Longrightarrow>
    mq_step racy s (s\<lparr>ms_tbl := t, ms_files := i # ms_files s, ms_opening := remove1 (i, c) (ms_opening s)\<rparr>)"
| st_undo: "(i, c) \<in> set (ms_opening s) \<Longrightarrow> racy \<or> \<not> c \<or> q_linked (ms_tbl s ! i) \<Longrightarrow>
    mq_open_finish (ms_tbl s) i c (Some e) = (t, r) \<Longrightarrow>
    mq_step racy s (s\<lparr>ms_tbl := t, ms_opening := remove1 (i, c) (ms_opening s)\<rparr>)"
| st_unlink: "mq_unlink_impl (ms_tbl s) p uptr uname = (t, r) \<Longrightarrow> mq_step racy s (s\<lparr>ms_tbl := t\<rparr>)"
| st_close: "i \<in> set (ms_files s) \<Longrightarrow>
    mq_step racy s (s\<lparr>ms_tbl := mq_release_op (ms_tbl s) pid i, ms_files := remove1 i (ms_files s)\<rparr>)"
| st_send: "i \<in> set (ms_files s) \<Longrightarrow>
    mq_send_enter (ms_tbl s ! i) fl umsg len prio dl mem data = Inr (d, m) \<Longrightarrow>
    mq_send_turn (ms_tbl s) i m nb tmo sig = (t, r) \<Longrightarrow> mq_step racy s (s\<lparr>ms_tbl := t\<rparr>)"
| st_recv: "i \<in> set (ms_files s) \<Longrightarrow>
    mq_recv_turn (ms_tbl s) i nb tmo = (t, r) \<Longrightarrow> mq_step racy s (s\<lparr>ms_tbl := t\<rparr>)"
| st_wake: "i \<in> set (ms_files s) \<Longrightarrow> mq_step racy s (s\<lparr>ms_tbl := fst (mq_recv_wake (ms_tbl s) i sig)\<rparr>)"
| st_notify: "i \<in> set (ms_files s) \<Longrightarrow>
    mq_notify_impl (ms_tbl s) i pid usev sev = (t, r) \<Longrightarrow> mq_step racy s (s\<lparr>ms_tbl := t\<rparr>)"
| st_drop: "mq_step racy s (s\<lparr>ms_tbl := mqueue_drop_proc (ms_tbl s) pid\<rparr>)"

definition mq_holders :: "mq_sys \<Rightarrow> nat \<Rightarrow> nat" where
  "mq_holders s i = count_list (ms_files s @ map fst (ms_opening s)) i"

lemma count_list_remove1: "count_list (remove1 x xs) y = (if x = y then count_list xs y - 1 else count_list xs y)"
  by (induction xs) (auto simp: count_list_0_iff)

lemma count_list_remove1_fst:
  "(i, c) \<in> set xs \<Longrightarrow>
     count_list (map fst (remove1 (i, c) xs)) j = (if i = j then count_list (map fst xs) j - 1 else count_list (map fst xs) j)"
proof (induction xs)
  case (Cons a xs)
  have "0 < count_list (map fst xs) i" if "(i, c) \<in> set xs"
    using that by (force simp: count_list_0_iff neq0_conv [symmetric])
  with Cons show ?case by (cases "a = (i, c)") auto
qed simp

lemma holders_pos:
  "i \<in> set (ms_files s) \<Longrightarrow> 0 < mq_holders s i" "(i, c) \<in> set (ms_opening s) \<Longrightarrow> 0 < mq_holders s i"
  by (force simp: mq_holders_def count_list_0_iff neq0_conv [symmetric])+


definition mq_sys_ok :: "mq_sys \<Rightarrow> bool" where
  "mq_sys_ok s \<longleftrightarrow> tbl_ok (ms_tbl s) (mq_holders s)"

lemma holders_upd:
  "mq_holders (s\<lparr>ms_tbl := t\<rparr>) = mq_holders s"
  "mq_holders (s\<lparr>ms_tbl := t, ms_opening := (i, c) # ms_opening s\<rparr>) =
     (mq_holders s)(i := Suc (mq_holders s i))"
  "i \<in> set (ms_files s) \<Longrightarrow> mq_holders (s\<lparr>ms_tbl := t, ms_files := remove1 i (ms_files s)\<rparr>) =
     (mq_holders s)(i := mq_holders s i - 1)"
  "(i, c) \<in> set (ms_opening s) \<Longrightarrow>
     mq_holders (s\<lparr>ms_tbl := t, ms_opening := remove1 (i, c) (ms_opening s)\<rparr>) =
     (mq_holders s)(i := mq_holders s i - 1)"
proof -
  have pf: "0 < count_list (ms_files s) i" if "i \<in> set (ms_files s)"
    using that by (force simp: count_list_0_iff neq0_conv [symmetric])
  have po: "0 < count_list (map fst (ms_opening s)) i" if "(i, c) \<in> set (ms_opening s)"
    using that by (force simp: count_list_0_iff neq0_conv [symmetric])
  show "mq_holders (s\<lparr>ms_tbl := t\<rparr>) = mq_holders s"
    "mq_holders (s\<lparr>ms_tbl := t, ms_opening := (i, c) # ms_opening s\<rparr>) = (mq_holders s)(i := Suc (mq_holders s i))"
    by (auto simp: mq_holders_def fun_eq_iff)
  show "mq_holders (s\<lparr>ms_tbl := t, ms_files := remove1 i (ms_files s)\<rparr>) = (mq_holders s)(i := mq_holders s i - 1)"
    if "i \<in> set (ms_files s)"
    using pf [OF that] by (auto simp: mq_holders_def fun_eq_iff count_list_remove1)
  show "mq_holders (s\<lparr>ms_tbl := t, ms_opening := remove1 (i, c) (ms_opening s)\<rparr>) =
      (mq_holders s)(i := mq_holders s i - 1)" if "(i, c) \<in> set (ms_opening s)"
    using po [OF that] that by (auto simp: mq_holders_def fun_eq_iff count_list_remove1_fst)
qed

lemma holders_install:
  assumes "(i, c) \<in> set (ms_opening s)"
  shows "mq_holders (s\<lparr>ms_tbl := t, ms_files := i # ms_files s, ms_opening := remove1 (i, c) (ms_opening s)\<rparr>) =
    mq_holders s"
proof -
  have "0 < count_list (map fst (ms_opening s)) i"
    using assms by (force simp: count_list_0_iff neq0_conv [symmetric])
  then show ?thesis using assms by (auto simp: mq_holders_def fun_eq_iff count_list_remove1_fst)
qed

lemma step_sys_ok:
  assumes "mq_step False s s'" and "mq_sys_ok s"
  shows "mq_sys_ok s'"
  using assms
proof (induction rule: mq_step.induct)
  case (st_open s p uptr uname oflag mode uattr attr t i c)
  then show ?case using open_impl_ok by (simp add: mq_sys_ok_def holders_upd)
next
  case (st_install i c s t r)
  then show ?case by (simp add: mq_sys_ok_def holders_install mq_open_finish_def)
next
  case (st_undo i c s e t r)
  then show ?case using undo_ok [of "ms_tbl s" "mq_holders s" i c] holders_pos(2) [of i c s]
    by (auto simp: mq_sys_ok_def holders_upd mq_open_finish_def)
next
  case (st_unlink s p uptr uname t r)
  then show ?case using unlink_impl_ok [of "ms_tbl s" "mq_holders s" p uptr uname]
    by (simp add: mq_sys_ok_def holders_upd)
next
  case (st_close i s pid)
  then show ?case using release_ok holders_pos(1) by (simp add: mq_sys_ok_def holders_upd)
next
  case (st_send i s fl umsg len prio dl mem data d m nb tmo sig t r)
  then show ?case using send_turn_ok [of "ms_tbl s" "mq_holders s" i fl umsg len prio dl mem data d m nb tmo sig]
    by (simp add: mq_sys_ok_def holders_upd)
next
  case (st_recv i s nb tmo t r)
  then show ?case using recv_turn_ok [of "ms_tbl s" "mq_holders s" i nb tmo]
    by (simp add: mq_sys_ok_def holders_upd)
next
  case (st_wake i s sig)
  then show ?case by (simp add: mq_sys_ok_def holders_upd recv_wake_ok)
next
  case (st_notify i s pid usev sev t r)
  then show ?case using notify_ok [of "ms_tbl s" "mq_holders s" i pid usev sev]
    by (simp add: mq_sys_ok_def holders_upd)
next
  case (st_drop s pid)
  then show ?case by (simp add: mq_sys_ok_def holders_upd drop_proc_ok)
qed

lemma boot_sys_ok: "mq_sys_ok mq_boot"
  by (auto simp: mq_sys_ok_def mq_boot_def mqueue_init_def tbl_ok_def queue_ok_def mq_holders_def
      mq_blank_def named_def inj_on_def)

lemma reach_sys_ok:
  assumes "(mq_step False)\<^sup>*\<^sup>* mq_boot s"
  shows "mq_sys_ok s"
  using assms by (induction rule: rtranclp_induct) (auto intro: boot_sys_ok step_sys_ok)

section \<open>Properties of the interleavings\<close>

text \<open>C34: In every interleaving of opens, closes, unlinks, sends, receives, notifications and
  exits in which no failing \<^verbatim>\<open>mq_open\<close> has lost the name of the queue it created, each queue's
  reference count is the number of its descriptors and opens in progress plus one for its
  name; its messages are in priority order, counted and measured right, at most \<^verbatim>\<open>maxmsg\<close>
  of at most \<^verbatim>\<open>msgsize\<close> bytes; every descriptor refers to a live queue, and no two live
  queues share a name.\<close>

theorem mq_reachable_ok:
  assumes "(mq_step False)\<^sup>*\<^sup>* mq_boot s"
  shows "(\<forall>i < length (ms_tbl s). queue_ok (ms_tbl s ! i) (mq_holders s i)) \<and>
    set (ms_files s) \<subseteq> {i. i < length (ms_tbl s) \<and> q_used (ms_tbl s ! i)} \<and>
    inj_on (\<lambda>i. q_name (ms_tbl s ! i)) {i. named (ms_tbl s) i}"
proof -
  have t: "tbl_ok (ms_tbl s) (mq_holders s)" using reach_sys_ok [OF assms] by (simp add: mq_sys_ok_def)
  then have "set (ms_files s) \<subseteq> {i. i < length (ms_tbl s) \<and> q_used (ms_tbl s ! i)}"
    using tbl_okD(2,3) [OF t] holders_pos(1) by blast
  with t show ?thesis by (simp add: tbl_ok_def)
qed

definition root_cred :: cred where
  "root_cred = \<lparr>c_pid = 1, c_euid = 0, c_egid = 0, c_groups = [], c_umask = 0\<rparr>"

definition name_at :: "string \<Rightarrow> nat \<Rightarrow> char option" where
  "name_at str i = Some (if i < length str then str ! i else CHR 0x00)"

definition mq_a_state :: "mq_sys" where
  "mq_a_state = \<lparr>ms_tbl = fst (mq_open_impl mqueue_init root_cred 1 (name_at ''/a'') 0x42 0x1FF 0 None),
     ms_files = [0], ms_opening = []\<rparr>"

lemma copy_a: "mq_copy_name 1 (name_at ''/a'') = Inr ''a''"
  by code_simp

lemma open_a:
  "mq_open_impl mqueue_init root_cred 1 (name_at ''/a'') 0x42 0x1FF 0 None =
     (fst (mq_open_impl mqueue_init root_cred 1 (name_at ''/a'') 0x42 0x1FF 0 None), Inr (0, True))"
  by code_simp

lemma ms_boot_tbl: "ms_tbl mq_boot = mqueue_init"
  by (simp add: mq_boot_def)

lemma mq_a_reach: "(mq_step r)\<^sup>*\<^sup>* mq_boot mq_a_state"
proof -
  let ?s = "\<lparr>ms_tbl = fst (mq_open_impl mqueue_init root_cred 1 (name_at ''/a'') 0x42 0x1FF 0 None),
     ms_files = [], ms_opening = [(0, True)]\<rparr>"
  have "mq_step r mq_boot ?s"
    using st_open [where racy = r, OF open_a [folded ms_boot_tbl]]
    by (simp add: mq_boot_def)
  moreover have "mq_step r ?s mq_a_state"
    using st_install [of 0 True ?s "ms_tbl ?s" "Inr ()" r]
    by (simp add: mq_open_finish_def mq_a_state_def)
  ultimately show ?thesis by (meson converse_rtranclp_into_rtranclp rtranclp.rtrancl_refl)
qed

theorem mq_delivery_order_witness:
  "let m = (\<lambda>p. \<lparr>m_prio = p, m_data = []\<rparr>);
       ops = [Send (m 1) True False False, Send (m 5) True False False, Send (m 5) True False False, Recv True False, Recv True False]
   in outputs (mq_op_turn 0) ops (ms_tbl mq_a_state) =
     [Sent (Return (Inr ())), Sent (Return (Inr ())), Sent (Return (Inr ())), Got (Return (Inr (m 5))), Got (Return (Inr (m 5)))]"
proof -
  have q: "0 < length (ms_tbl mq_a_state)" "q_used (ms_tbl mq_a_state ! 0)" "q_msgs (ms_tbl mq_a_state ! 0) = []"
    "q_curmsgs (ms_tbl mq_a_state ! 0) = 0" "q_maxmsg (ms_tbl mq_a_state ! 0) = 10" by code_simp+
  show ?thesis unfolding Let_def mq_delivery_order [OF q(1-4)] q(5) by (simp add: top_prio_def max_def word_le_nat_alt)
qed

theorem mq_reachable_ok_witness:
  "(mq_step False)\<^sup>*\<^sup>* mq_boot mq_a_state \<and> q_refs (ms_tbl mq_a_state ! 0) = 2 \<and>
     queue_ok (ms_tbl mq_a_state ! 0) (mq_holders mq_a_state 0)"
proof (intro conjI)
  show "q_refs (ms_tbl mq_a_state ! 0) = 2" by code_simp
  have "0 < length (ms_tbl mq_a_state)" by code_simp
  then show "queue_ok (ms_tbl mq_a_state ! 0) (mq_holders mq_a_state 0)"
    using mq_reachable_ok [OF mq_a_reach] by blast
qed (rule mq_a_reach)

text \<open>C35: Without that restriction a descriptor can outlive its queue. Process A creates a
  queue and its \<^verbatim>\<open>mq_open\<close> is about to fail for want of a descriptor; B opens the queue
  meanwhile and C unlinks it; \<^verbatim>\<open>mq_open_undo\<close> then drops the name's reference a second time
  and the queue is freed while B still has it open.\<close>

theorem mq_open_undo_race:
  "\<exists>s. (mq_step True)\<^sup>*\<^sup>* mq_boot s \<and> ms_files s = [0] \<and> ms_opening s = [] \<and> \<not> q_used (ms_tbl s ! 0)"
proof -
  define t1 where "t1 = fst (mq_open_impl mqueue_init root_cred 1 (name_at ''/a'') 0x42 0x1FF 0 None)"
  define t2 where "t2 = fst (mq_open_impl t1 root_cred 1 (name_at ''/a'') 0x2 0 0 None)"
  define t3 where "t3 = fst (mq_unlink_impl t2 root_cred 1 (name_at ''/a''))"
  define t4 where "t4 = mq_open_undo t3 0 True"
  let ?s1 = "\<lparr>ms_tbl = t1, ms_files = [], ms_opening = [(0, True)]\<rparr>"
  let ?s2 = "\<lparr>ms_tbl = t2, ms_files = [], ms_opening = [(0, False), (0, True)]\<rparr>"
  let ?s3 = "\<lparr>ms_tbl = t2, ms_files = [0], ms_opening = [(0, True)]\<rparr>"
  let ?s4 = "\<lparr>ms_tbl = t3, ms_files = [0], ms_opening = [(0, True)]\<rparr>"
  let ?s5 = "\<lparr>ms_tbl = t4, ms_files = [0], ms_opening = []\<rparr>"
  have o2: "mq_open_impl t1 root_cred 1 (name_at ''/a'') 0x2 0 0 None = (t2, Inr (0, False))"
    unfolding t2_def t1_def by code_simp
  have "mq_step True mq_boot ?s1"
    using st_open [where racy = True, OF open_a [folded ms_boot_tbl]]
    by (simp add: mq_boot_def t1_def)
  moreover have "mq_step True ?s1 ?s2"
    using st_open [where racy = True and s = ?s1 and t = t2] o2 by auto
  moreover have "mq_step True ?s2 ?s3"
    using st_install [of 0 False ?s2 t2 "Inr ()" True] by (simp add: mq_open_finish_def)
  moreover have "mq_step True ?s3 ?s4"
    using st_unlink [of ?s3 root_cred 1 "name_at ''/a''" t3 "snd (mq_unlink_impl t2 root_cred 1 (name_at ''/a''))"]
    by (simp add: t3_def)
  moreover have "mq_step True ?s4 ?s5"
    using st_undo [of 0 True ?s4 True ENOMEM t4 "Inl ENOMEM"] by (simp add: mq_open_finish_def t4_def)
  moreover have "\<not> q_used (t4 ! 0)"
    unfolding t4_def t3_def t2_def t1_def by code_simp
  ultimately show ?thesis
    by (intro exI [of _ ?s5]) (auto intro: converse_rtranclp_into_rtranclp)
qed

text \<open>In the same states \<^verbatim>\<open>poll\<close> tells the truth about a descriptor: it reports the
  queue readable exactly when a receive would take a message at once, and writable exactly
  when a send would be accepted at once.\<close>

lemma mq_poll_truthful:
  assumes "(mq_step False)\<^sup>*\<^sup>* mq_boot s" and "i \<in> set (ms_files s)"
  shows "(mq_poll_op (ms_tbl s ! i) AND 0x0001 \<noteq> 0) =
      (\<exists>msg. snd (mq_recv_turn (ms_tbl s) i True tmo) = Return (Inr msg)) \<and>
    (mq_poll_op (ms_tbl s ! i) AND 0x0004 \<noteq> 0) =
      (snd (snd (mq_send_turn (ms_tbl s) i m True tmo sig)) = Return (Inr ()))"
proof
  have t: "tbl_ok (ms_tbl s) (mq_holders s)" using reach_sys_ok [OF assms(1)] by (simp add: mq_sys_ok_def)
  have h: "0 < mq_holders s i" using holders_pos(1) assms(2) by blast
  let ?q = "ms_tbl s ! i"
  have q: "q_used ?q" "mq_content_ok ?q"
    using tbl_okD(1) [OF t tbl_okD(2) [OF t h]] tbl_okD(3) [OF t h] by (auto simp: queue_ok_def)
  then have c: "q_curmsgs ?q > 0 \<longleftrightarrow> q_msgs ?q \<noteq> []" by (simp add: mq_content_ok_def)
  show "(mq_poll_op ?q AND 0x0001 \<noteq> 0) =
      (\<exists>msg. snd (mq_recv_turn (ms_tbl s) i True tmo) = Return (Inr msg))"
    using q c by (auto simp: mq_poll_op_def mq_recv_turn_def Let_def split: list.splits)
  show "(mq_poll_op ?q AND 0x0004 \<noteq> 0) =
      (snd (snd (mq_send_turn (ms_tbl s) i m True tmo sig)) = Return (Inr ()))"
    using q by (auto simp: mq_poll_op_def mq_send_turn_def Let_def case_prod_beta)
qed

end
