(* ===== verification/RBTree.thy ===== *)
theory RBTree
  imports Az_Prelude "HOL-Library.Monad_Syntax"
begin

text \<open>
  The intrusive red-black tree (\<^verbatim>\<open>kernel/lib/rbtree.c\<close>) on an explicit store: a node is an
  address, the store has its parent, children and colour, and \<open>0\<close> is the null pointer. Every
  function of the file is translated statement by statement. Reading or writing a node
  through a null pointer and a loop that does not end both give \<open>None\<close>, so that a theorem
  with the result \<open>Some\<close> says that neither happens.

  The source writes each case twice, with left and right exchanged. Here a direction \<open>d\<close>
  stands for the side: \<^verbatim>\<open>rb_left\<close> is the child on side \<open>L\<close>, \<open>__rb_rotate_left\<close> is
  \<open>rb_rotate L\<close>, and a branch for \<open>d = L\<close> is the first of the two in the source.
\<close>

section \<open>The store\<close>

type_synonym addr = nat

datatype color = Red | Black

datatype dir = L | R

fun opp :: "dir \<Rightarrow> dir" where
  "opp L = R"
| "opp R = L"

record rb_heap =
  rb_parent :: "addr \<Rightarrow> addr"
  rb_child :: "dir \<Rightarrow> addr \<Rightarrow> addr"
  rb_color :: "addr \<Rightarrow> color"
  rb_root :: addr

definition rb_empty :: rb_heap where
  "rb_empty = \<lparr>rb_parent = (\<lambda>_. 0), rb_child = (\<lambda>_ _. 0), rb_color = (\<lambda>_. Red), rb_root = 0\<rparr>"

definition set_parent :: "addr \<Rightarrow> addr \<Rightarrow> rb_heap \<Rightarrow> rb_heap" where
  "set_parent a v h = h\<lparr>rb_parent := (rb_parent h)(a := v)\<rparr>"

definition set_child :: "dir \<Rightarrow> addr \<Rightarrow> addr \<Rightarrow> rb_heap \<Rightarrow> rb_heap" where
  "set_child d a v h = h\<lparr>rb_child := (rb_child h)(d := (rb_child h d)(a := v))\<rparr>"

definition set_color :: "addr \<Rightarrow> color \<Rightarrow> rb_heap \<Rightarrow> rb_heap" where
  "set_color a v h = h\<lparr>rb_color := (rb_color h)(a := v)\<rparr>"

definition set_root :: "addr \<Rightarrow> rb_heap \<Rightarrow> rb_heap" where
  "set_root v h = h\<lparr>rb_root := v\<rparr>"

text \<open>The parent, or the root without one, gets \<open>new\<close> in the place of its child \<open>node\<close>; the
  side the code tests first is \<open>d\<close>.\<close>

definition rb_replace_child :: "dir \<Rightarrow> addr \<Rightarrow> addr \<Rightarrow> addr \<Rightarrow> rb_heap \<Rightarrow> rb_heap" where
  "rb_replace_child d parent node new h =
     (if parent \<noteq> 0 then
        (if node = rb_child h d parent then set_child d parent new h else set_child (opp d) parent new h)
      else set_root new h)"

definition rb_rotate :: "dir \<Rightarrow> addr \<Rightarrow> rb_heap \<Rightarrow> rb_heap option" where
  "rb_rotate d node h =
     (let right = rb_child h (opp d) node; parent = rb_parent h node
      in if node = 0 \<or> right = 0 then None
         else let h1 = set_child (opp d) node (rb_child h d right) h;
                  h2 = (if rb_child h d right \<noteq> 0 then set_parent (rb_child h1 d right) node h1 else h1);
                  h3 = set_child d right node h2;
                  h4 = set_parent right parent h3;
                  h5 = rb_replace_child d parent node right h4
              in Some (set_parent node right h5))"

section \<open>Insertion\<close>

text \<open>\<^verbatim>\<open>rb_link_node\<close>: the link is the child on side \<open>d\<close> of the parent, or the root.\<close>

definition rb_link_node :: "addr \<Rightarrow> addr \<Rightarrow> dir \<Rightarrow> rb_heap \<Rightarrow> rb_heap" where
  "rb_link_node node parent d h =
     (let h1 = set_child L node 0 (set_child R node 0 (set_color node Red (set_parent node parent h)))
      in if parent = 0 then set_root node h1 else set_child d parent node h1)"

partial_function (option) rb_insert_loop :: "addr \<Rightarrow> rb_heap \<Rightarrow> rb_heap option" where
  "rb_insert_loop node h =
     (let parent = rb_parent h node
      in if parent = 0 \<or> rb_color h parent \<noteq> Red then Some h
         else let gparent = rb_parent h parent
           in if gparent = 0 then None
              else let d = (if parent = rb_child h L gparent then L else R);
                       uncle = rb_child h (opp d) gparent
                in if uncle \<noteq> 0 \<and> rb_color h uncle = Red then
                     rb_insert_loop gparent (set_color gparent Red (set_color parent Black (set_color uncle Black h)))
                   else
                     do { (h1, parent1, node1) \<leftarrow>
                            (if rb_child h (opp d) parent = node
                             then do { h' \<leftarrow> rb_rotate d parent h; Some (h', node, parent) }
                             else Some (h, parent, node));
                          h2 \<leftarrow> rb_rotate (opp d) gparent (set_color gparent Red (set_color parent1 Black h1));
                          rb_insert_loop node1 h2 })"

definition rb_insert_color :: "addr \<Rightarrow> rb_heap \<Rightarrow> rb_heap option" where
  "rb_insert_color node h =
     do { h1 \<leftarrow> rb_insert_loop node h;
          if rb_root h1 = 0 then None else Some (set_color (rb_root h1) Black h1) }"

section \<open>Deletion\<close>

definition rb_is_black :: "rb_heap \<Rightarrow> addr \<Rightarrow> bool" where
  "rb_is_black h a \<longleftrightarrow> a = 0 \<or> rb_color h a = Black"

text \<open>The loop of \<^verbatim>\<open>__rb_erase_color\<close>: the node it ends with and the store.\<close>

partial_function (option) rb_erase_loop :: "addr \<Rightarrow> addr \<Rightarrow> rb_heap \<Rightarrow> (addr \<times> rb_heap) option" where
  "rb_erase_loop node parent h =
     (if \<not> (rb_is_black h node \<and> node \<noteq> rb_root h) then Some (node, h)
      else if parent = 0 then None
      else let d = (if rb_child h L parent = node then L else R);
               other = rb_child h (opp d) parent
        in if other = 0 then None
           else do { (h1, other1) \<leftarrow>
                       (if rb_color h other = Red
                        then do { h' \<leftarrow> rb_rotate d parent (set_color parent Red (set_color other Black h));
                                  Some (h', rb_child h' (opp d) parent) }
                        else Some (h, other));
                     if other1 = 0 then None
                     else if rb_is_black h1 (rb_child h1 L other1) \<and> rb_is_black h1 (rb_child h1 R other1) then
                       (let h2 = set_color other1 Red h1 in rb_erase_loop parent (rb_parent h2 parent) h2)
                     else
                       do { (h2, other2) \<leftarrow>
                              (if rb_is_black h1 (rb_child h1 (opp d) other1)
                               then if rb_child h1 d other1 = 0 then None
                                    else do { h' \<leftarrow> rb_rotate (opp d) other1
                                                (set_color other1 Red (set_color (rb_child h1 d other1) Black h1));
                                              Some (h', rb_child h' (opp d) parent) }
                               else Some (h1, other1));
                            if other2 = 0 \<or> rb_child h2 (opp d) other2 = 0 then None
                            else do { h3 \<leftarrow> rb_rotate d parent
                                        (set_color (rb_child h2 (opp d) other2) Black
                                          (set_color parent Black (set_color other2 (rb_color h2 parent) h2)));
                                      Some (rb_root h3, h3) } } })"

definition rb_erase_color :: "addr \<Rightarrow> addr \<Rightarrow> rb_heap \<Rightarrow> rb_heap option" where
  "rb_erase_color node parent h =
     do { (n, h1) \<leftarrow> rb_erase_loop node parent h;
          Some (if n \<noteq> 0 then set_color n Black h1 else h1) }"

text \<open>\<^verbatim>\<open>while (n->rb_left) n = n->rb_left\<close>, on either side.\<close>

partial_function (option) rb_far :: "dir \<Rightarrow> rb_heap \<Rightarrow> addr \<Rightarrow> addr option" where
  "rb_far d h n = (if rb_child h d n = 0 then Some n else rb_far d h (rb_child h d n))"

text \<open>The node \<open>old\<close> with two children: its successor \<open>s\<close> takes its place. First it is unhooked
  from below its own parent (the second component is where rebalancing starts), then it
  takes over the parent, the colour and the left subtree of the old node.\<close>

definition unhook :: "addr \<Rightarrow> addr \<Rightarrow> rb_heap \<Rightarrow> rb_heap \<times> addr" where
  "unhook old s h1 =
     (let child = rb_child h1 R s; parent = rb_parent h1 s
      in if parent = old then (h1, s)
         else let ha = (if child \<noteq> 0 then set_parent child parent h1 else h1);
                  hb = set_child L parent child ha;
                  hc = set_child R s (rb_child hb R old) hb
              in (set_parent (rb_child hc R old) s hc, parent))"

definition take_over :: "addr \<Rightarrow> addr \<Rightarrow> rb_heap \<Rightarrow> rb_heap" where
  "take_over old s h2 =
     (let h3 = set_parent s (rb_parent h2 old) h2;
          h4 = set_color s (rb_color h3 old) h3;
          h5 = set_child L s (rb_child h4 L old) h4
      in set_parent (rb_child h5 L old) s h5)"

definition rb_erase_two :: "addr \<Rightarrow> rb_heap \<Rightarrow> rb_heap option" where
  "rb_erase_two old h =
     do { node \<leftarrow> rb_far L h (rb_child h R old);
          let h1 = rb_replace_child L (rb_parent h old) old node h;
              child = rb_child h1 R node;
              color = rb_color h1 node;
              (h2, parent) = unhook old node h1;
              h3 = take_over old node h2
          in if color = Black then rb_erase_color child parent h3 else Some h3 }"

definition rb_erase :: "addr \<Rightarrow> rb_heap \<Rightarrow> rb_heap option" where
  "rb_erase node h =
     (if node = 0 then None
      else if rb_child h L node \<noteq> 0 \<and> rb_child h R node \<noteq> 0 then rb_erase_two node h
      else let child = (if rb_child h L node = 0 then rb_child h R node else rb_child h L node);
               parent = rb_parent h node;
               color = rb_color h node;
               h1 = (if child \<noteq> 0 then set_parent child parent h else h);
               h2 = rb_replace_child L parent node child h1
           in if color = Black then rb_erase_color child parent h2 else Some h2)"

section \<open>Walking\<close>

text \<open>The result \<open>Some 0\<close> is the null pointer.\<close>

definition rb_first :: "rb_heap \<Rightarrow> addr option" where
  "rb_first h = (if rb_root h = 0 then Some 0 else rb_far L h (rb_root h))"

partial_function (option) rb_climb :: "dir \<Rightarrow> rb_heap \<Rightarrow> addr \<Rightarrow> addr option" where
  "rb_climb d h node =
     (let parent = rb_parent h node
      in if parent \<noteq> 0 \<and> node = rb_child h d parent then rb_climb d h parent else Some parent)"

text \<open>\<^verbatim>\<open>rb_next\<close> is \<open>rb_step R\<close>, \<^verbatim>\<open>rb_prev\<close> is \<open>rb_step L\<close>.\<close>

definition rb_step :: "dir \<Rightarrow> rb_heap \<Rightarrow> addr \<Rightarrow> addr option" where
  "rb_step d h node =
     (if rb_parent h node = node then Some 0
      else if rb_child h d node \<noteq> 0 then rb_far (opp d) h (rb_child h d node)
      else rb_climb d h node)"

definition rb_next :: "rb_heap \<Rightarrow> addr \<Rightarrow> addr option" where
  "rb_next = rb_step R"

definition rb_prev :: "rb_heap \<Rightarrow> addr \<Rightarrow> addr option" where
  "rb_prev = rb_step L"

end
