(* ===== verification/RBTree_Repr.thy ===== *)
theory RBTree_Repr
  imports RBTree
begin

text \<open>
  What a store of tree nodes represents: abstract coloured trees, positions in them, the
  predicate \<open>repr\<close> that ties the root pointer, the parent and child pointers and the colours of
  a store to a tree, and the effect of rotations and recolourings at a position. The
  balance invariant \<open>rb_ok\<close> is stated for trees and for paths.
\<close>

section \<open>Abstract trees\<close>

datatype rbt = Lf | Nd color rbt addr rbt

text \<open>A node whose child on side \<open>d\<close> is \<open>t\<close> and whose other child is \<open>s\<close>.\<close>

fun mk :: "dir \<Rightarrow> color \<Rightarrow> rbt \<Rightarrow> addr \<Rightarrow> rbt \<Rightarrow> rbt" where
  "mk L c t a s = Nd c t a s"
| "mk R c t a s = Nd c s a t"

fun nodes :: "rbt \<Rightarrow> addr list" where
  "nodes Lf = []"
| "nodes (Nd c l a r) = nodes l @ a # nodes r"

text \<open>A position in a tree is the subtree there and the path to the root: for each ancestor
  the side the path comes from, its colour, its address and its other subtree.\<close>

datatype frame = Fr dir color addr rbt

fun plug :: "rbt \<Rightarrow> frame list \<Rightarrow> rbt" where
  "plug t [] = t"
| "plug t (Fr d c a s # p) = plug (mk d c t a s) p"

fun path_nodes :: "frame list \<Rightarrow> addr list" where
  "path_nodes [] = []"
| "path_nodes (Fr d c a s # p) = a # nodes s @ path_nodes p"

fun up :: "addr \<Rightarrow> frame list \<Rightarrow> addr" where
  "up tp [] = tp"
| "up tp (Fr d c a s # p) = a"

section \<open>What a store represents\<close>

fun tree_at :: "rb_heap \<Rightarrow> addr \<Rightarrow> addr \<Rightarrow> rbt \<Rightarrow> bool" where
  "tree_at h p x Lf \<longleftrightarrow> x = 0"
| "tree_at h p x (Nd c l a r) \<longleftrightarrow>
     x = a \<and> a \<noteq> 0 \<and> rb_parent h a = p \<and> rb_color h a = c \<and>
     tree_at h a (rb_child h L a) l \<and> tree_at h a (rb_child h R a) r"

text \<open>The path from the node \<open>x\<close> up to the node \<open>y\<close>, whose parent is \<open>tp\<close>.\<close>

fun path_at :: "rb_heap \<Rightarrow> addr \<Rightarrow> addr \<Rightarrow> frame list \<Rightarrow> addr \<Rightarrow> bool" where
  "path_at h tp x [] y \<longleftrightarrow> x = y"
| "path_at h tp x (Fr d c a s # p) y \<longleftrightarrow>
     a \<noteq> 0 \<and> rb_child h d a = x \<and> rb_parent h a = up tp p \<and> rb_color h a = c \<and>
     tree_at h a (rb_child h (opp d) a) s \<and> path_at h tp a p y"

lemma opp_neq [simp]: "opp d \<noteq> d" "d \<noteq> opp d" "opp (opp d) = d"
  by (cases d; simp)+

lemma tree_at_mk [simp]:
  "tree_at h p x (mk d c t a s) \<longleftrightarrow>
     x = a \<and> a \<noteq> 0 \<and> rb_parent h a = p \<and> rb_color h a = c \<and>
     tree_at h a (rb_child h d a) t \<and> tree_at h a (rb_child h (opp d) a) s"
  by (cases d) auto

lemma set_nodes_mk [simp]: "set (nodes (mk d c t a s)) = insert a (set (nodes t) \<union> set (nodes s))"
  by (cases d) auto

lemma distinct_nodes_mk [simp]:
  "distinct (nodes (mk d c t a s)) \<longleftrightarrow>
     a \<notin> set (nodes t) \<and> a \<notin> set (nodes s) \<and> distinct (nodes t) \<and> distinct (nodes s) \<and>
     set (nodes t) \<inter> set (nodes s) = {}"
  by (cases d) auto

lemma tree_at_plug:
  "tree_at h tp y (plug t p) \<longleftrightarrow> (\<exists>x. tree_at h (up tp p) x t \<and> path_at h tp x p y)"
  by (induction t p rule: plug.induct) auto

lemma set_nodes_plug [simp]: "set (nodes (plug t p)) = set (nodes t) \<union> set (path_nodes p)"
  by (induction t p rule: plug.induct) auto

lemma distinct_nodes_plug:
  "distinct (nodes (plug t p)) \<longleftrightarrow>
     distinct (nodes t) \<and> distinct (path_nodes p) \<and> set (nodes t) \<inter> set (path_nodes p) = {}"
  by (induction t p rule: plug.induct) auto

lemma tree_at_root: "tree_at h p x t \<Longrightarrow> x = 0 \<longleftrightarrow> t = Lf"
  by (cases t) auto

lemma tree_at_in: "tree_at h p x t \<Longrightarrow> x \<noteq> 0 \<Longrightarrow> x \<in> set (nodes t)"
  by (cases t) auto

lemma nodes_not_0: "tree_at h p x t \<Longrightarrow> 0 \<notin> set (nodes t)"
  by (induction t arbitrary: p x) auto

lemma path_not_0: "path_at h tp x p y \<Longrightarrow> 0 \<notin> set (path_nodes p)"
  by (induction h tp x p y rule: path_at.induct) (auto dest: nodes_not_0)

section \<open>Assignments and what they leave alone\<close>

named_theorems rb_upd

lemma rb_set_simps [rb_upd]:
  "rb_parent (set_parent a v h) = (rb_parent h)(a := v)" "rb_child (set_parent a v h) = rb_child h"
  "rb_color (set_parent a v h) = rb_color h" "rb_root (set_parent a v h) = rb_root h"
  "rb_parent (set_child d a v h) = rb_parent h" "rb_color (set_child d a v h) = rb_color h"
  "rb_root (set_child d a v h) = rb_root h"
  "rb_child (set_child d a v h) e b = (if e = d \<and> b = a then v else rb_child h e b)"
  "rb_parent (set_color a k h) = rb_parent h" "rb_child (set_color a k h) = rb_child h"
  "rb_color (set_color a k h) = (rb_color h)(a := k)" "rb_root (set_color a k h) = rb_root h"
  "rb_parent (set_root v h) = rb_parent h" "rb_child (set_root v h) = rb_child h"
  "rb_color (set_root v h) = rb_color h" "rb_root (set_root v h) = v"
  by (simp_all add: set_parent_def set_child_def set_color_def set_root_def)

definition same_on :: "addr set \<Rightarrow> rb_heap \<Rightarrow> rb_heap \<Rightarrow> bool" where
  "same_on A h h' \<longleftrightarrow> (\<forall>a \<in> A. rb_parent h' a = rb_parent h a \<and> (\<forall>d. rb_child h' d a = rb_child h d a) \<and>
     rb_color h' a = rb_color h a)"

lemma same_onD:
  assumes "same_on A h h'" "a \<in> A"
  shows "rb_parent h' a = rb_parent h a" "rb_child h' d a = rb_child h d a" "rb_color h' a = rb_color h a"
  using assms by (auto simp: same_on_def)

lemma same_on_mono: "same_on A h h' \<Longrightarrow> B \<subseteq> A \<Longrightarrow> same_on B h h'"
  by (auto simp: same_on_def)

lemma tree_at_same: "same_on (set (nodes t)) h h' \<Longrightarrow> tree_at h p x t \<Longrightarrow> tree_at h' p x t"
proof (induction t arbitrary: p x)
  case (Nd c l a r)
  then have "same_on (set (nodes l)) h h'" "same_on (set (nodes r)) h h'"
    by (auto elim!: same_on_mono)
  with Nd show ?case by (auto simp: same_onD)
qed simp

lemma path_at_same: "same_on (set (path_nodes p)) h h' \<Longrightarrow> path_at h tp x p y \<Longrightarrow> path_at h' tp x p y"
proof (induction h tp x p y rule: path_at.induct)
  case (2 h tp x d c a s p y)
  then have "same_on (set (nodes s)) h h'" "same_on (set (path_nodes p)) h h'"
    by (auto elim!: same_on_mono)
  with 2 tree_at_same [of s h h'] show ?case by (auto simp: same_onD)
qed simp

text \<open>A tree under another parent, a path under another top or with another node at its end.\<close>

lemma tree_at_reparent:
  assumes "tree_at h p x t" and "distinct (nodes t)"
    and "same_on (set (nodes t) - {x}) h h'" and "t \<noteq> Lf \<Longrightarrow> rb_parent h' x = q"
    and "t \<noteq> Lf \<Longrightarrow> rb_color h' x = rb_color h x" and "\<And>d. t \<noteq> Lf \<Longrightarrow> rb_child h' d x = rb_child h d x"
  shows "tree_at h' q x t"
proof (cases t)
  case (Nd c l a r)
  have "same_on (set (nodes l)) h h'" "same_on (set (nodes r)) h h'"
    using assms(1-3) Nd by (auto elim!: same_on_mono)
  with assms Nd show ?thesis by (auto intro: tree_at_same)
qed (use assms in simp)

lemma same_on_set [intro!]:
  "a \<notin> A \<Longrightarrow> same_on A h h' \<Longrightarrow> same_on A h (set_parent a v h')"
  "a \<notin> A \<Longrightarrow> same_on A h h' \<Longrightarrow> same_on A h (set_child d a v h')"
  "a \<notin> A \<Longrightarrow> same_on A h h' \<Longrightarrow> same_on A h (set_color a c h')"
  "same_on A h h' \<Longrightarrow> same_on A h (set_root v h')"
  by (auto simp: same_on_def rb_upd)

lemma same_on_refl [simp]: "same_on A h h"
  by (simp add: same_on_def)

lemma same_on_trans: "same_on A h h' \<Longrightarrow> same_on A h' h'' \<Longrightarrow> same_on A h h''"
  by (auto simp: same_on_def)

lemma replace_child_same:
  assumes "up 0 p \<notin> A \<or> p = []"
  shows "same_on A h (rb_replace_child d (up 0 p) x new h)"
  using assms by (cases p rule: path_nodes.cases) (auto simp: rb_replace_child_def)

lemma up_in_path: "p \<noteq> [] \<Longrightarrow> up tp p \<in> set (path_nodes p)"
  by (cases p rule: path_nodes.cases) auto

lemma replace_child_path:
  assumes p: "path_at h 0 x p (rb_root h)" and d: "distinct (path_nodes p)"
    and x: "x \<noteq> 0" "x \<notin> set (path_nodes p)"
  shows "path_at (rb_replace_child e (up 0 p) x new h) 0 new p (rb_root (rb_replace_child e (up 0 p) x new h))"
proof (cases p rule: path_nodes.cases)
  case 1
  then show ?thesis by (simp add: rb_replace_child_def rb_upd)
next
  case (2 d' c a s q)
  have a: "a \<noteq> 0" "rb_child h d' a = x" and t: "tree_at h a (rb_child h (opp d') a) s"
    and q: "path_at h 0 a q (rb_root h)" using p 2 by auto
  have "rb_child h (opp d') a \<noteq> x"
    using tree_at_in [OF t] x 2 by auto
  then have r: "rb_replace_child e (up 0 p) x new h = set_child d' a new h"
    using a 2 by (cases "e = d'") (auto simp: rb_replace_child_def, (cases e; cases d'; simp)+)
  have "tree_at (set_child d' a new h) a (rb_child h (opp d') a) s"
    using d 2 by (intro tree_at_same [OF _ t]) auto
  moreover have "path_at (set_child d' a new h) 0 a q (rb_root h)"
    using d 2 by (intro path_at_same [OF _ q]) auto
  ultimately show ?thesis unfolding r using p 2 by (simp add: rb_upd)
qed

text \<open>The tree a root represents.\<close>

definition repr :: "rb_heap \<Rightarrow> rbt \<Rightarrow> bool" where
  "repr h t \<longleftrightarrow> tree_at h 0 (rb_root h) t \<and> distinct (nodes t)"

lemma repr_plug:
  "repr h (plug t p) \<longleftrightarrow> (\<exists>x. tree_at h (up 0 p) x t \<and> path_at h 0 x p (rb_root h)) \<and>
     distinct (nodes t) \<and> distinct (path_nodes p) \<and> set (nodes t) \<inter> set (path_nodes p) = {}"
  by (auto simp: repr_def tree_at_plug distinct_nodes_plug)

lemma rotate_repr:
  assumes "repr h (plug (mk d cx A x (mk d cy B y C)) p)"
  obtains h' where "rb_rotate d x h = Some h'" and "repr h' (plug (mk d cy (mk d cx A x B) y C) p)"
proof -
  let ?b = "rb_child h d y"
  have x: "x \<noteq> 0" "rb_parent h x = up 0 p" "rb_color h x = cx" "tree_at h x (rb_child h d x) A"
    and y: "y \<noteq> 0" "rb_child h (opp d) x = y" "rb_parent h y = x" "rb_color h y = cy"
      "tree_at h y ?b B" "tree_at h y (rb_child h (opp d) y) C"
    and pa: "path_at h 0 x p (rb_root h)"
    using assms by (auto simp: repr_plug)
  have ds: "distinct (nodes (mk d cx A x (mk d cy B y C)))" "distinct (path_nodes p)"
    "set (nodes (mk d cx A x (mk d cy B y C))) \<inter> set (path_nodes p) = {}"
    using assms unfolding repr_plug by blast+
  have b: "?b \<in> set (nodes B) \<or> ?b = 0" using tree_at_in [OF y(5)] by blast
  define h2 where "h2 = (if ?b \<noteq> 0 then set_parent ?b x (set_child (opp d) x ?b h) else set_child (opp d) x ?b h)"
  define h4 where "h4 = set_parent y (up 0 p) (set_child d y x h2)"
  define h5 where "h5 = rb_replace_child d (up 0 p) x y h4"
  define h6 where "h6 = set_parent x y h5"
  have rot: "rb_rotate d x h = Some h6"
    using x y by (auto simp: rb_rotate_def Let_def h2_def h4_def h5_def h6_def rb_upd)
  have n0: "0 \<notin> set (path_nodes p)" using path_not_0 [OF pa] .
  have s4: "same_on A' h h4" if "x \<notin> A'" "y \<notin> A'" "?b \<notin> A' \<or> ?b = 0" for A'
    using that by (auto simp: h4_def h2_def)
  have p4: "path_at h4 0 x p (rb_root h4)"
  proof -
    have "rb_root h4 = rb_root h" by (simp add: h4_def h2_def rb_upd)
    then show ?thesis using ds b n0 by (auto intro!: path_at_same [OF s4 pa])
  qed
  have p5: "path_at h5 0 y p (rb_root h5)"
    using replace_child_path [OF p4] x ds unfolding h5_def by auto
  have p6: "path_at h6 0 y p (rb_root h6)"
  proof -
    have "same_on (set (path_nodes p)) h5 h6" using ds by (auto simp: h6_def)
    from path_at_same [OF this p5] show ?thesis by (simp add: h6_def rb_upd)
  qed
  have u: "up 0 p \<notin> set (nodes (mk d cx A x (mk d cy B y C))) \<or> p = []"
    using ds up_in_path [of p 0] by auto
  have s6: "same_on A' h h6"
    if "x \<notin> A'" "y \<notin> A'" "?b \<notin> A' \<or> ?b = 0" "A' \<subseteq> set (nodes (mk d cx A x (mk d cy B y C)))" for A'
  proof -
    have "up 0 p \<notin> A' \<or> p = []" using u that by blast
    then have "same_on A' h4 h5" unfolding h5_def by (rule replace_child_same)
    with s4 [OF that(1-3)] that show ?thesis unfolding h6_def by (auto intro: same_on_trans)
  qed
  have f5: "rb_parent h5 = rb_parent h4" "rb_color h5 = rb_color h4"
    "\<And>e z. z \<noteq> up 0 p \<or> p = [] \<Longrightarrow> rb_child h5 e z = rb_child h4 e z"
    unfolding h5_def rb_replace_child_def by (auto simp: rb_upd; cases p rule: path_nodes.cases; auto)+
  have cy: "rb_child h6 e y = (if e = d then x else rb_child h e y)" for e
    using f5(3) [of y] u ds by (auto simp: h6_def h4_def h2_def rb_upd)
  have cx: "rb_child h6 e x = (if e = d then rb_child h d x else ?b)" for e
    using f5(3) [of x] u ds by (cases e; cases d) (auto simp: h6_def h4_def h2_def rb_upd)
  have "tree_at h6 x (rb_child h d x) A"
    using ds b tree_at_in [OF y(5)] nodes_not_0 [OF x(4)] by (intro tree_at_same [OF s6 x(4)]) auto
  moreover have "tree_at h6 y (rb_child h (opp d) y) C"
    using ds b nodes_not_0 [OF y(6)] by (intro tree_at_same [OF s6 y(6)]) auto
  moreover have "tree_at h6 x ?b B"
  proof (rule tree_at_reparent [OF y(5)])
    show "same_on (set (nodes B) - {?b}) h h6" using ds by (intro s6) auto
    assume "B \<noteq> Lf"
    then have b: "?b \<noteq> 0" "?b \<in> set (nodes B)" using tree_at_root [OF y(5)] b by auto
    then have n: "?b \<noteq> x" "?b \<noteq> y" "?b \<noteq> up 0 p \<or> p = []" using ds u by auto
    show "rb_parent h6 ?b = x" using n b by (simp add: h6_def f5 h4_def h2_def rb_upd)
    show "rb_color h6 ?b = rb_color h ?b" using n b by (simp add: h6_def f5 h4_def h2_def rb_upd)
    show "rb_child h6 e ?b = rb_child h e ?b" for e
      using n b f5(3) [of ?b e] by (auto simp: h6_def h4_def h2_def rb_upd)
  qed (use ds in auto)
  moreover have "rb_parent h6 x = y" "rb_color h6 x = cx" "rb_parent h6 y = up 0 p" "rb_color h6 y = cy"
    using x y ds b by (auto simp: h6_def f5 h4_def h2_def rb_upd)
  ultimately have "tree_at h6 (up 0 p) y (mk d cy (mk d cx A x B) y C)"
    using x y by (simp add: cx cy)
  with p6 ds have "repr h6 (plug (mk d cy (mk d cx A x B) y C) p)"
    unfolding repr_plug by auto
  with rot show ?thesis by (rule that)
qed

section \<open>Reading and recolouring at a position\<close>

fun rt :: "rbt \<Rightarrow> addr" where
  "rt Lf = 0"
| "rt (Nd c l a r) = a"

fun col :: "rbt \<Rightarrow> color" where
  "col Lf = Black"
| "col (Nd c l a r) = c"

fun paint :: "color \<Rightarrow> rbt \<Rightarrow> rbt" where
  "paint c Lf = Lf"
| "paint c (Nd c' l a r) = Nd c l a r"

lemma mk_simps [simp]: "rt (mk d c t a s) = a" "col (mk d c t a s) = c" "paint k (mk d c t a s) = mk d k t a s"
    "mk d c t a s \<noteq> Lf" "Lf \<noteq> mk d c t a s"
  by (cases d; simp)+

lemma mk_opp: "mk (opp d) c s a t = mk d c t a s"
  by (cases d) auto

lemma mk_dest: "t \<noteq> Lf \<Longrightarrow> \<exists>l r. t = mk d (col t) l (rt t) r"
  by (cases d; cases t) auto

lemma nodes_paint [simp]: "nodes (paint c t) = nodes t"
  by (cases t) auto

lemma tree_at_rt: "tree_at h p x t \<Longrightarrow> x = rt t"
  by (cases t) auto

lemma repr_mk:
  assumes "repr h (plug (mk d c t a s) p)"
  shows "a \<noteq> 0" "rb_parent h a = up 0 p" "rb_color h a = c" "rb_child h d a = rt t" "rb_child h (opp d) a = rt s"
  using assms by (auto simp: repr_plug dest: tree_at_rt)

lemma repr_focus:
  assumes "repr h (plug t p)" and "t \<noteq> Lf"
  shows "rt t \<noteq> 0" "rb_parent h (rt t) = up 0 p" "rb_color h (rt t) = col t"
  using assms mk_dest [of t L] repr_mk [of h L] by metis+

lemma repr_rt_0: "repr h (plug t p) \<Longrightarrow> rt t = 0 \<longleftrightarrow> t = Lf"
  using repr_focus(1) rt.simps(1) by blast

lemma repr_is_black:
  assumes "repr h (plug t p)"
  shows "rb_is_black h (rt t) \<longleftrightarrow> col t = Black"
  using assms repr_focus [OF assms] by (cases t) (auto simp: rb_is_black_def)

text \<open>The two subtrees of a node differ, unless both are empty.\<close>

lemma repr_siblings:
  assumes "repr h (plug (mk d c t a s) p)" and "t \<noteq> Lf"
  shows "rt t \<noteq> rt s"
proof -
  have t: "repr h (plug t (Fr d c a s # p))" and s: "repr h (plug s (Fr (opp d) c a t # p))"
    using assms(1) by (simp_all add: mk_opp)
  have "rt t \<noteq> 0" "rt t \<in> set (nodes t)" using repr_focus(1) [OF t assms(2)] assms(2) by (cases t; simp)+
  moreover have "rt s = 0 \<or> rt s \<in> set (nodes s)" by (cases s) auto
  moreover have "set (nodes t) \<inter> set (nodes s) = {}" using assms(1) by (auto simp: repr_plug)
  ultimately show ?thesis by auto
qed

lemma repr_side:
  assumes "repr h (plug (mk d c t a s) p)" and "t \<noteq> Lf"
  shows "(if rt t = rb_child h L a then L else R) = d" "(if rb_child h L a = rt t then L else R) = d"
  using repr_mk [OF assms(1)] repr_siblings [OF assms] by (cases d; auto)+

lemma repr_set_color:
  assumes "repr h (plug t p)" and "t \<noteq> Lf"
  shows "repr (set_color (rt t) c h) (plug (paint c t) p)"
proof (cases t)
  case (Nd k l a r)
  have "path_at (set_color a c h) 0 a p (rb_root h)" "tree_at (set_color a c h) a (rb_child h L a) l"
    "tree_at (set_color a c h) a (rb_child h R a) r"
    using assms(1) Nd by (auto simp: repr_plug intro!: path_at_same [of p h] tree_at_same [of _ h])
  with assms(1) Nd show ?thesis by (auto simp: repr_plug rb_upd)
qed (use assms in simp)

section \<open>Balance\<close>

fun bheight :: "rbt \<Rightarrow> nat" where
  "bheight Lf = 0"
| "bheight (Nd c l a r) = bheight l + of_bool (c = Black)"

text \<open>Equal black heights, and no red node with a red child.\<close>

fun bal :: "rbt \<Rightarrow> bool" where
  "bal Lf \<longleftrightarrow> True"
| "bal (Nd c l a r) \<longleftrightarrow> bal l \<and> bal r \<and> bheight l = bheight r \<and> (c = Red \<longrightarrow> col l = Black \<and> col r = Black)"

definition rb_ok :: "rbt \<Rightarrow> bool" where
  "rb_ok t \<longleftrightarrow> bal t \<and> col t = Black"

text \<open>A path that completes a subtree of black height \<open>n\<close> and root colour \<open>k\<close> to a red-black tree.\<close>

fun path_ok :: "frame list \<Rightarrow> nat \<Rightarrow> color \<Rightarrow> bool" where
  "path_ok [] n k \<longleftrightarrow> k = Black"
| "path_ok (Fr d c a s # p) n k \<longleftrightarrow> bal s \<and> bheight s = n \<and> (c = Red \<longrightarrow> col s = Black \<and> k = Black) \<and>
     path_ok p (n + of_bool (c = Black)) c"

lemma bal_mk [simp]:
  "bal (mk d c t a s) \<longleftrightarrow> bal t \<and> bal s \<and> bheight t = bheight s \<and> (c = Red \<longrightarrow> col t = Black \<and> col s = Black)"
  by (cases d) auto

lemma bheight_mk: "bheight t = bheight s \<Longrightarrow> bheight (mk d c t a s) = bheight t + of_bool (c = Black)"
  by (cases d) auto

lemma rb_ok_plug: "rb_ok (plug t p) \<longleftrightarrow> bal t \<and> path_ok p (bheight t) (col t)"
  by (induction t p rule: plug.induct) (auto simp: rb_ok_def bheight_mk)

lemma path_ok_black: "path_ok p n k \<Longrightarrow> path_ok p n Black"
  by (cases p rule: path_nodes.cases) auto

text \<open>The height is logarithmic in the number of nodes.\<close>

fun depth :: "rbt \<Rightarrow> nat" where
  "depth Lf = 0"
| "depth (Nd c l a r) = Suc (max (depth l) (depth r))"

lemma bal_size: "bal t \<Longrightarrow> 2 ^ bheight t \<le> Suc (length (nodes t))"
  by (induction t) auto

lemma bal_depth: "bal t \<Longrightarrow> depth t \<le> 2 * bheight t + of_bool (col t = Red)"
proof (induction t)
  case (Nd c l a r)
  then show ?case by (cases c; cases "col l"; cases "col r") auto
qed simp

lemma rb_ok_depth: "rb_ok t \<Longrightarrow> 2 ^ (depth t div 2) \<le> Suc (length (nodes t))"
proof -
  assume t: "rb_ok t"
  then have "depth t div 2 \<le> bheight t" using bal_depth [of t] by (auto simp: rb_ok_def)
  then have "(2::nat) ^ (depth t div 2) \<le> 2 ^ bheight t" by (rule power_increasing) simp
  also have "\<dots> \<le> Suc (length (nodes t))" using bal_size [of t] t by (simp add: rb_ok_def)
  finally show ?thesis .
qed

text \<open>Changes at a position keep the order of the nodes.\<close>

lemma nodes_plug_cong: "nodes t = nodes t' \<Longrightarrow> nodes (plug t p) = nodes (plug t' p)"
proof (induction p arbitrary: t t')
  case (Cons f p)
  obtain d c a s where f: "f = Fr d c a s" by (cases f)
  have "nodes (mk d c t a s) = nodes (mk d c t' a s)" using Cons.prems by (cases d) auto
  from Cons.IH [OF this] show ?case by (simp add: f)
qed simp

lemma nodes_rot: "nodes (mk d c1 A x (mk d c2 B y C)) = nodes (mk d c3 (mk d c4 A x B) y C)"
  by (cases d) auto

lemma nodes_mk_paint: "nodes (mk d c t a s) = nodes (mk d c' t a s)"
  by (cases d) auto

end
