(* ===== verification/RBTree_Correct.thy ===== *)
theory RBTree_Correct
  imports RBTree_Repr
begin

text \<open>
  Correctness of the red-black tree: insertion, deletion and walking keep or read the
  represented tree as they should. Each loop is followed along the path of its position:
  upwards for rebalancing and climbing, downwards for the ends of a side.
\<close>

section \<open>Insertion is correct\<close>

lemma insert_loop_stop:
  assumes "repr h (plug t p)" and "t \<noteq> Lf" and "p = [] \<or> (\<exists>d a s q. p = Fr d Black a s # q)"
  shows "rb_insert_loop (rt t) h = Some h"
proof -
  have "rb_parent h (rt t) = up 0 p" using repr_focus [OF assms(1,2)] by simp
  moreover have "rb_color h (up 0 p) \<noteq> Red" if "p \<noteq> []"
    using that assms(1,3) repr_mk(3) [of h _ Black t] by fastforce
  ultimately show ?thesis using assms(3) by (subst rb_insert_loop.simps) auto
qed

text \<open>The end of a turn with a black uncle: recolouring and a rotation at the grandparent.\<close>

lemma insert_rotate:
  assumes r: "repr h (plug (mk d c (mk d k N x S) g u) p)" and N: "N \<noteq> Lf"
  obtains h' where "rb_rotate (opp d) g (set_color g Red (set_color x Black h)) = Some h'"
    and "repr h' (plug (mk d Black N x (mk d Red S g u)) p)"
    and "rb_insert_loop (rt N) h' = Some h'"
proof -
  have "repr h (plug (mk d k N x S) (Fr d c g u # p))" using r by simp
  from repr_set_color [OF this, of Black]
  have "repr (set_color x Black h) (plug (mk d c (mk d Black N x S) g u) p)" by simp
  from repr_set_color [OF this, of Red]
  have "repr (set_color g Red (set_color x Black h)) (plug (mk (opp d) Red u g (mk (opp d) Black S x N)) p)"
    by (simp add: mk_opp)
  from rotate_repr [OF this] obtain h' where h': "rb_rotate (opp d) g (set_color g Red (set_color x Black h)) = Some h'"
      "repr h' (plug (mk (opp d) Black (mk (opp d) Red u g S) x N) p)" .
  then have r': "repr h' (plug (mk d Black N x (mk d Red S g u)) p)" by (simp add: mk_opp)
  then have "repr h' (plug N (Fr d Black x (mk d Red S g u) # p))" by simp
  from insert_loop_stop [OF this N] have "rb_insert_loop (rt N) h' = Some h'" by blast
  with h'(1) r' show ?thesis by (rule that)
qed

text \<open>One turn at a red parent with a black uncle, from the heap's point of view.\<close>

lemma insert_turn_black:
  assumes r: "repr h (plug t (Fr d1 Red a s # Fr d Black g u # p))" and t: "t \<noteq> Lf" and u: "col u = Black"
  shows "rb_insert_loop (rt t) h =
    do { (h1, parent1, node1) \<leftarrow> (if d1 = opp d then do { h' \<leftarrow> rb_rotate d a h; Some (h', rt t, a) } else Some (h, a, rt t));
         h2 \<leftarrow> rb_rotate (opp d) g (set_color g Red (set_color parent1 Black h1));
         rb_insert_loop node1 h2 }"
proof -
  have a: "repr h (plug (mk d1 Red t a s) (Fr d Black g u # p))"
    and g: "repr h (plug (mk d Black (mk d1 Red t a s) g u) p)" using r by simp_all
  have uu: "repr h (plug u (Fr (opp d) Black g (mk d1 Red t a s) # p))" using g by (simp add: mk_opp)
  have "(rb_child h (opp d) a = rt t) = (d1 = opp d)"
    using repr_mk(4,5) [OF a] repr_siblings [OF a t] by (cases d; cases d1) auto
  moreover have "(if a = rb_child h L g then L else R) = d" using repr_side(1) [OF g] by simp
  moreover have "\<not> (rt u \<noteq> 0 \<and> rb_color h (rt u) = Red)"
    using repr_is_black [OF uu] u by (auto simp: rb_is_black_def)
  ultimately show ?thesis
    using repr_focus(2) [OF r t] repr_mk [OF a] repr_mk [OF g]
    by (subst rb_insert_loop.simps) (auto simp: Let_def)
qed

lemma insert_turn_red:
  assumes r: "repr h (plug t (Fr d1 Red a s # Fr d Black g u # p))" and t: "t \<noteq> Lf" and u: "col u = Red"
  obtains h' where "rb_insert_loop (rt t) h = rb_insert_loop g h'"
    and "repr h' (plug (mk d Red (mk d1 Black t a s) g (paint Black u)) p)"
proof -
  have a: "repr h (plug (mk d1 Red t a s) (Fr d Black g u # p))"
    and g: "repr h (plug (mk d Black (mk d1 Red t a s) g u) p)" using r by simp_all
  have uu: "repr h (plug u (Fr (opp d) Black g (mk d1 Red t a s) # p))" using g by (simp add: mk_opp)
  have un: "u \<noteq> Lf" using u by auto
  let ?h1 = "set_color (rt u) Black h" and ?h2 = "set_color a Black (set_color (rt u) Black h)"
  have "repr ?h1 (plug (mk d1 Red t a s) (Fr d Black g (paint Black u) # p))"
    using repr_set_color [OF uu un, of Black] by (simp add: mk_opp)
  from repr_set_color [OF this, of Black]
  have "repr ?h2 (plug (mk d Black (mk d1 Black t a s) g (paint Black u)) p)" by simp
  from repr_set_color [OF this, of Red]
  have "repr (set_color g Red ?h2) (plug (mk d Red (mk d1 Black t a s) g (paint Black u)) p)" by simp
  moreover have "(if a = rb_child h L g then L else R) = d" using repr_side(1) [OF g] by simp
  then have "rb_insert_loop (rt t) h = rb_insert_loop g (set_color g Red ?h2)"
    using repr_focus(2) [OF r t] repr_mk [OF a] repr_mk [OF g] repr_focus [OF uu un] u
    by (subst rb_insert_loop.simps) simp
  ultimately show ?thesis by (intro that)
qed

lemma insert_loop_ok:
  assumes "repr h (plug t p)" and "t \<noteq> Lf" and "col t = Red" and "bal t" and "path_ok p (bheight t) Black"
  shows "\<exists>h' T. rb_insert_loop (rt t) h = Some h' \<and> repr h' T \<and> T \<noteq> Lf \<and> nodes T = nodes (plug t p) \<and> bal T"
  using assms
proof (induction p arbitrary: t h rule: length_induct)
  case (1 p)
  show ?case
  proof (cases "p = [] \<or> (\<exists>d a s q. p = Fr d Black a s # q)")
    case True
    have "bal (plug t p)"
    proof (cases "p = []")
      case False
      then have "rb_ok (plug t p)" using True 1 by (auto simp: rb_ok_plug)
      then show ?thesis by (simp add: rb_ok_def)
    qed (use 1 in simp)
    moreover have "plug t p \<noteq> Lf" using "1.prems"(2)
      by (metis nodes.simps(1) set_nodes_plug Un_empty empty_set nodes.elims append_is_Nil_conv list.distinct(1) set_empty)
    ultimately show ?thesis using insert_loop_stop [OF "1.prems"(1,2) True] "1.prems"(1) by blast
  next
    case False
    obtain d1 a s q where p1: "p = Fr d1 Red a s # q"
    proof (cases p rule: path_nodes.cases)
      case (2 d' c a s q)
      with False show ?thesis by (cases c) (auto intro: that)
    qed (use False in simp)
    have "path_ok q (bheight t) Red" using "1.prems"(5) p1 by simp
    then obtain d g u p2 where p: "p = Fr d1 Red a s # Fr d Black g u # p2"
    proof (cases q rule: path_nodes.cases)
      case (2 d' c a s q')
      with \<open>path_ok q (bheight t) Red\<close> p1 show ?thesis by (cases c) (auto intro: that)
    qed simp
    have bl: "bal s" "bheight s = bheight t" "col s = Black" "bal u" "bheight u = bheight t"
      and po: "path_ok p2 (Suc (bheight t)) Black" using 1 p by auto
    have r: "repr h (plug t (Fr d1 Red a s # Fr d Black g u # p2))" using 1 p by simp
    show ?thesis
    proof (cases "col u")
      case Red
      obtain h' where h': "rb_insert_loop (rt t) h = rb_insert_loop g h'"
        "repr h' (plug (mk d Red (mk d1 Black t a s) g (paint Black u)) p2)"
        using insert_turn_red [OF r "1.prems"(2) Red] .
      let ?t = "mk d Red (mk d1 Black t a s) g (paint Black u)"
      have b: "bal (paint Black u)" "bheight (paint Black u) = Suc (bheight u)" "col (paint Black u) = Black"
        using Red bl by (cases u; simp)+
      with bl "1.prems"(3,4) have "bal ?t" "bheight ?t = Suc (bheight t)" by (simp_all add: bheight_mk)
      moreover have "nodes (plug ?t p2) = nodes (plug (mk d Black (mk d1 Red t a s) g u) p2)"
        by (rule nodes_plug_cong) (cases d; cases d1; simp)
      then have "nodes (plug ?t p2) = nodes (plug t p)" by (simp add: p)
      moreover have "length p2 < length p" using p by simp
      moreover have "path_ok p2 (bheight ?t) Black" using po \<open>bheight ?t = Suc (bheight t)\<close> by simp
      ultimately have "\<exists>h'' T. rb_insert_loop (rt ?t) h' = Some h'' \<and> repr h'' T \<and> T \<noteq> Lf \<and>
          nodes T = nodes (plug t p) \<and> bal T"
        using "1.IH" h'(2) mk_simps(2,4) by metis
      then show ?thesis using h'(1) by simp
    next
      case Black
      let ?sh = "\<lambda>N x S. mk d Black N x (mk d Red S g u)"
      have fin: "?thesis" if N: "repr h1 (plug (mk d Black (mk d k N x S) g u) p2)" "N \<noteq> Lf" "col N = Red" "bal N" "bal S"
          "bheight N = bheight t" "bheight S = bheight t" "col S = Black"
          "nodes (mk d k N x S) = nodes (mk d1 Red t a s)"
          and eq: "rb_insert_loop (rt t) h = do { h2 \<leftarrow> rb_rotate (opp d) g (set_color g Red (set_color x Black h1)); rb_insert_loop (rt N) h2 }"
        for h1 k N x S
      proof -
        obtain h' where h': "rb_rotate (opp d) g (set_color g Red (set_color x Black h1)) = Some h'"
          "repr h' (plug (?sh N x S) p2)" "rb_insert_loop (rt N) h' = Some h'"
          using insert_rotate [OF N(1,2)] .
        have "rb_ok (plug (?sh N x S) p2)"
          using N bl po Black by (auto simp: rb_ok_plug bheight_mk)
        moreover have "plug (?sh N x S) p2 \<noteq> Lf"
          by (metis nodes.simps(1) set_nodes_plug set_nodes_mk empty_set Un_empty insert_not_empty)
        moreover have "nodes (?sh N x S) = nodes (mk d Black (mk d1 Red t a s) g u)"
          using N(9) by (cases d) auto
        then have "nodes (plug (?sh N x S) p2) = nodes (plug (mk d Black (mk d1 Red t a s) g u) p2)"
          by (rule nodes_plug_cong)
        then have "nodes (plug (?sh N x S) p2) = nodes (plug t p)" by (simp add: p)
        ultimately show ?thesis using h' eq by (auto simp: rb_ok_def)
      qed
      note turn = insert_turn_black [OF r "1.prems"(2) Black]
      show ?thesis
      proof (cases "d1 = d")
        case True
        show ?thesis by (rule fin [of h Red t a s]) (use r True turn 1 bl in auto)
      next
        case False
        then have d1: "d1 = opp d" by (cases d; cases d1) auto
        obtain B x C where t: "t = mk d Red B x C" using mk_dest [of t d] "1.prems"(2,3) by metis
        have "repr h (plug (mk d Red s a (mk d Red B x C)) (Fr d Black g u # p2))"
          using r d1 t by (simp add: mk_opp)
        from rotate_repr [OF this] obtain h1 where h1: "rb_rotate d a h = Some h1"
          "repr h1 (plug (mk d Black (mk d Red (mk d Red s a B) x C) g u) p2)" by auto
        have bc: "bal B" "bal C" "bheight B = bheight C" "col B = Black" "col C = Black"
          using "1.prems"(4) t by auto
        have "bheight t = bheight B" using bc t by (simp add: bheight_mk)
        moreover have "nodes (mk d Red (mk d Red s a B) x C) = nodes (mk d1 Red t a s)"
          by (simp add: t d1 mk_opp nodes_rot [symmetric])
        ultimately show ?thesis using h1 turn d1 bl bc
          by (intro fin [of h1 Red "mk d Red s a B" x C]) (auto simp: bheight_mk t)
      qed
    qed
  qed
qed

lemma repr_root: "repr h t \<Longrightarrow> rb_root h = rt t"
  by (auto simp: repr_def dest: tree_at_rt)

lemma repr_root_black:
  assumes "repr h t" and "t \<noteq> Lf"
  shows "repr (set_color (rb_root h) Black h) (paint Black t)"
  using repr_set_color [of h t "[]" Black] assms by (simp add: repr_root)

lemma bal_paint: "bal t \<Longrightarrow> bal (paint Black t)"
  by (cases t) auto

lemma col_paint [simp]: "t \<noteq> Lf \<Longrightarrow> col (paint c t) = c"
  by (cases t) auto

lemma link_repr:
  assumes r: "repr h (plug Lf p)" and n: "node \<noteq> 0" "node \<notin> set (path_nodes p)"
    and d: "\<And>e c a s q. p = Fr e c a s # q \<Longrightarrow> e = d"
  shows "repr (rb_link_node node (up 0 p) d h) (plug (Nd Red Lf node Lf) p)"
proof -
  let ?h1 = "set_child L node 0 (set_child R node 0 (set_color node Red (set_parent node (up 0 p) h)))"
  have pa: "path_at h 0 0 p (rb_root h)" and dp: "distinct (path_nodes p)" using r by (auto simp: repr_plug)
  have p1: "path_at ?h1 0 0 p (rb_root h)" using n by (intro path_at_same [OF _ pa]) auto
  have n1: "rb_parent ?h1 node = up 0 p" "rb_child ?h1 e node = 0" "rb_color ?h1 node = Red" for e
    by (cases e; simp add: rb_upd)+
  show ?thesis
  proof (cases p rule: path_nodes.cases)
    case 1
    then show ?thesis using n n1 by (simp add: repr_def rb_link_node_def rb_upd)
  next
    case (2 e c a s q)
    then have e: "e = d" using d by blast
    let ?h2 = "set_child d a node ?h1"
    have a: "a \<noteq> 0" "a \<noteq> node" "a \<notin> set (nodes s)" "a \<notin> set (path_nodes q)" using pa dp n 2 by auto
    have t1: "tree_at ?h1 a (rb_child ?h1 (opp d) a) s" and q1: "path_at ?h1 0 a q (rb_root h)"
      using p1 2 e by auto
    have "tree_at ?h2 a (rb_child ?h1 (opp d) a) s" 
      by (rule tree_at_same [OF same_on_set(2) [OF a(3) same_on_refl] t1])
    moreover have "path_at ?h2 0 a q (rb_root h)" 
      by (rule path_at_same [OF same_on_set(2) [OF a(4) same_on_refl] q1])
    moreover have "rb_child ?h2 (opp d) a = rb_child ?h1 (opp d) a" "rb_child ?h2 d a = node"
      "rb_parent ?h2 = rb_parent ?h1" "rb_color ?h2 = rb_color ?h1" by (simp_all add: rb_upd)
    ultimately have "path_at ?h2 0 node p (rb_root h)" using p1 2 e by simp
    moreover have "rb_link_node node (up 0 p) d h = ?h2" using 2 a by (simp add: rb_link_node_def)
    ultimately show ?thesis using n n1 a 2 e dp by (auto simp: repr_plug rb_upd)
  qed
qed

text \<open>Linking a new red leaf at a position and rebalancing.\<close>

lemma insert_at_ok:
  assumes "repr h (plug Lf p)" and "rb_ok (plug Lf p)" and "node \<noteq> 0" "node \<notin> set (path_nodes p)"
    and "\<And>e c a s q. p = Fr e c a s # q \<Longrightarrow> e = d"
  shows "\<exists>h' t. rb_insert_color node (rb_link_node node (up 0 p) d h) = Some h' \<and> repr h' t \<and> rb_ok t \<and>
    nodes t = nodes (plug (Nd Red Lf node Lf) p)"
proof -
  let ?t = "Nd Red Lf node Lf"
  have r: "repr (rb_link_node node (up 0 p) d h) (plug ?t p)" using link_repr assms by blast
  have "path_ok p (bheight ?t) Black" using assms(2) path_ok_black by (auto simp: rb_ok_plug)
  from insert_loop_ok [OF r _ _ _ this] obtain h' T where
    h': "rb_insert_loop node (rb_link_node node (up 0 p) d h) = Some h'" "repr h' T" "T \<noteq> Lf"
      "nodes T = nodes (plug ?t p)" "bal T" by auto
  have "rb_root h' \<noteq> 0" using repr_root [OF h'(2)] repr_focus(1) [of h' T "[]"] h' by simp
  moreover have "rb_ok (paint Black T)" using h' bal_paint by (simp add: rb_ok_def)
  ultimately show ?thesis using repr_root_black [OF h'(2,3)] h' by (auto simp: rb_insert_color_def)
qed

section \<open>Rebalancing after a deletion is correct\<close>

lemma plug_not_Lf: "plug t p = Lf \<longleftrightarrow> p = [] \<and> t = Lf"
  by (induction t p rule: plug.induct) auto

lemma repr_side':
  assumes "repr h (plug (mk d c t a s) p)" and "s \<noteq> Lf"
  shows "(if rb_child h L a = rt t then L else R) = d"
proof -
  have s: "repr h (plug (mk (opp d) c s a t) p)" using assms by (simp add: mk_opp)
  show ?thesis using repr_mk [OF assms(1)] repr_siblings [OF s assms(2)] by (cases d) auto
qed

text \<open>The outcome of the loop: after the final assignment of black the tree is balanced and
  has the nodes it had.\<close>

definition erase_good :: "(addr \<times> rb_heap) option \<Rightarrow> addr list \<Rightarrow> bool" where
  "erase_good res ns \<longleftrightarrow> (\<exists>n h t. res = Some (n, h) \<and>
     repr (if n \<noteq> 0 then set_color n Black h else h) t \<and> rb_ok t \<and> nodes t = ns)"

lemma erase_stop:
  assumes r: "repr h (plug t p)" and "bal (paint Black t)" and "path_ok p (Suc (bheight t)) Black"
    and c: "col t = Red \<or> p = []"
  shows "erase_good (rb_erase_loop (rt t) (up 0 p) h) (nodes (plug t p))"
proof -
  have "\<not> (rb_is_black h (rt t) \<and> rt t \<noteq> rb_root h)"
    using c repr_is_black [OF r] repr_root [of h t] r by auto
  then have l: "rb_erase_loop (rt t) (up 0 p) h = Some (rt t, h)" by (subst rb_erase_loop.simps) simp
  show ?thesis
  proof (cases "t = Lf")
    case True
    with r c l show ?thesis by (auto simp: erase_good_def rb_ok_def)
  next
    case False
    have "rb_ok (plug (paint Black t) p)"
      using assms False by (cases t) (auto simp: rb_ok_plug)
    moreover have "nodes (plug (paint Black t) p) = nodes (plug t p)" by (rule nodes_plug_cong) simp
    ultimately show ?thesis
      using l repr_set_color [OF r False, of Black] repr_focus(1) [OF r False] by (auto simp: erase_good_def)
  qed
qed

text \<open>The last rotation, with a red far nephew.\<close>

lemma erase_final:
  assumes r: "repr h (plug (mk d c t a (mk d k y1 e y2)) q)"
    and "col y2 = Red" "bal t" "bal y1" "bal (paint Black y2)" "bheight y1 = bheight t" "bheight y2 = bheight t"
    and "path_ok q (Suc (bheight t) + of_bool (c = Black)) c"
  shows "erase_good
    (if e = 0 \<or> rb_child h (opp d) e = 0 then None
     else do { h3 \<leftarrow> rb_rotate d a
                 (set_color (rb_child h (opp d) e) Black (set_color a Black (set_color e (rb_color h a) h)));
               Some (rb_root h3, h3) })
    (nodes (plug (mk d c t a (mk d k y1 e y2)) q))"
proof -
  have y2: "y2 \<noteq> Lf" using assms(2) by auto
  have e: "repr h (plug (mk d k y1 e y2) (Fr (opp d) c a t # q))" using r by (simp add: mk_opp)
  then have ye: "repr h (plug y2 (Fr (opp d) k e y1 # Fr (opp d) c a t # q))" by (simp add: mk_opp)
  have ne: "e \<noteq> 0" "rb_child h (opp d) e = rt y2" "rt y2 \<noteq> 0" "rb_color h a = c"
    using repr_mk [OF e] repr_mk [OF r] repr_focus(1) [OF ye y2] by auto
  let ?h1 = "set_color e c h" and ?h2 = "set_color a Black (set_color e c h)"
  have "repr ?h1 (plug (mk d c t a (mk d c y1 e y2)) q)"
    using repr_set_color [OF e, of c] by (simp add: mk_opp)
  from repr_set_color [OF this, of Black]
  have "repr ?h2 (plug y2 (Fr (opp d) c e y1 # Fr (opp d) Black a t # q))" by (simp add: mk_opp)
  from repr_set_color [OF this y2, of Black]
  have "repr (set_color (rt y2) Black ?h2) (plug (mk d Black t a (mk d c y1 e (paint Black y2))) q)"
    by (simp add: mk_opp)
  from rotate_repr [OF this] obtain h3 where h3: "rb_rotate d a (set_color (rt y2) Black ?h2) = Some h3"
    and r3: "repr h3 (plug (mk d c (mk d Black t a y1) e (paint Black y2)) q)" .
  let ?T = "plug (mk d c (mk d Black t a y1) e (paint Black y2)) q"
  have b2: "bheight (paint Black y2) = Suc (bheight t)" "col (paint Black y2) = Black"
    using assms(2,7) by (cases y2; simp)+
  then have ok: "rb_ok ?T" using assms by (auto simp: rb_ok_plug bheight_mk)
  then have "paint Black ?T = ?T" by (cases ?T) (auto simp: rb_ok_def)
  moreover have "?T \<noteq> Lf" by (simp add: plug_not_Lf)
  ultimately have "repr (set_color (rb_root h3) Black h3) ?T" "rb_root h3 \<noteq> 0"
    using repr_root_black [OF r3] repr_root [OF r3] repr_focus(1) [of h3 ?T "[]"] r3 by auto
  moreover have "nodes ?T = nodes (plug (mk d c t a (mk d k y1 e y2)) q)"
    by (rule nodes_plug_cong) (cases d; simp)
  ultimately show ?thesis using ne h3 ok by (auto simp: erase_good_def)
qed


text \<open>A turn from the point where the sibling is black.\<close>

definition erase_half :: "dir \<Rightarrow> addr \<Rightarrow> rb_heap \<Rightarrow> addr \<Rightarrow> (addr \<times> rb_heap) option" where
  "erase_half d parent h1 other1 =
     (if other1 = 0 then None
      else if rb_is_black h1 (rb_child h1 L other1) \<and> rb_is_black h1 (rb_child h1 R other1) then
        (let h2 = set_color other1 Red h1 in rb_erase_loop parent (rb_parent h2 parent) h2)
      else
        do { (h2, other2) \<leftarrow>
               (if rb_is_black h1 (rb_child h1 (opp d) other1)
                then if rb_child h1 d other1 = 0 then None
                     else do { h' \<leftarrow> rb_rotate (opp d) other1
                                 (set_color other1 Red (set_color (rb_child h1 d other1) Black h1));
                               Some (h', rb_child h' (opp d) parent) }
                else Some (h1, other1));
             if other2 = 0 \<or> rb_child h2 (opp d) other2 = 0 then None
             else do { h3 \<leftarrow> rb_rotate d parent
                         (set_color (rb_child h2 (opp d) other2) Black
                           (set_color parent Black (set_color other2 (rb_color h2 parent) h2)));
                       Some (rb_root h3, h3) } })"

lemma erase_half_ok:
  assumes r: "repr h (plug (mk d c t a s) q)" and t: "bal t" and s: "bal s" "bheight s = Suc (bheight t)" "col s = Black"
    and q: "path_ok q (Suc (bheight t) + of_bool (c = Black)) c"
    and up: "\<And>h'. repr h' (plug (mk d c t a (paint Red s)) q) \<Longrightarrow> bal (paint Black (mk d c t a (paint Red s))) \<Longrightarrow>
      erase_good (rb_erase_loop a (up 0 q) h') (nodes (plug (mk d c t a (paint Red s)) q))"
  shows "erase_good (erase_half d a h (rt s)) (nodes (plug (mk d c t a s) q))"
proof -
  have sn: "s \<noteq> Lf" using s by auto
  then obtain s1 b s2 where ss: "s = mk d Black s1 b s2" using mk_dest [of s d] s(3) by metis
  have b1: "bal s1" "bal s2" "bheight s1 = bheight t" "bheight s2 = bheight t"
    using s ss by (auto simp: bheight_mk)
  have rs: "repr h (plug s (Fr (opp d) c a t # q))" using r by (simp add: mk_opp)
  have rb: "repr h (plug (mk d Black s1 b s2) (Fr (opp d) c a t # q))" using rs ss by simp
  have r1: "repr h (plug s1 (Fr d Black b s2 # Fr (opp d) c a t # q))" using rb by simp
  have r2: "repr h (plug s2 (Fr (opp d) Black b s1 # Fr (opp d) c a t # q))" using rb by (simp add: mk_opp)
  have ch: "b \<noteq> 0" "rb_child h d b = rt s1" "rb_child h (opp d) b = rt s2" using repr_mk [OF rb] by auto
  have bl: "rb_is_black h (rb_child h L b) \<and> rb_is_black h (rb_child h R b) \<longleftrightarrow> col s1 = Black \<and> col s2 = Black"
    using repr_is_black [OF r1] repr_is_black [OF r2] ch by (cases d) auto
  show ?thesis
  proof (cases "col s1 = Black \<and> col s2 = Black")
    case True
    let ?h2 = "set_color b Red h"
    have r': "repr ?h2 (plug (mk d c t a (paint Red s)) q)"
      using repr_set_color [OF rs sn, of Red] ss by (simp add: mk_opp)
    moreover have "bal (paint Black (mk d c t a (paint Red s)))"
      using t b1 True ss by (auto simp: bheight_mk)
    ultimately have "erase_good (rb_erase_loop a (up 0 q) ?h2) (nodes (plug (mk d c t a (paint Red s)) q))" by (rule up)
    moreover have "erase_half d a h (rt s) = rb_erase_loop a (up 0 q) ?h2"
      using True bl ch ss repr_mk(2) [OF r'] by (simp add: erase_half_def)
    moreover have "nodes (plug (mk d c t a (paint Red s)) q) = nodes (plug (mk d c t a s) q)"
      by (rule nodes_plug_cong) (cases d; simp)
    ultimately show ?thesis by simp
  next
    case False
    then have nb: "(rb_is_black h (rb_child h L b) \<and> rb_is_black h (rb_child h R b)) = False" using bl by simp
    show ?thesis
    proof (cases "col s2 = Red")
      case True
      then have "\<not> rb_is_black h (rt s2)" using repr_is_black [OF r2] by simp
      then have "erase_half d a h (rt s) = (if b = 0 \<or> rb_child h (opp d) b = 0 then None
         else do { h3 \<leftarrow> rb_rotate d a
                 (set_color (rb_child h (opp d) b) Black (set_color a Black (set_color b (rb_color h a) h)));
               Some (rb_root h3, h3) })"
        using ss ch by (simp add: erase_half_def nb)
      moreover have "erase_good \<dots> (nodes (plug (mk d c t a (mk d Black s1 b s2)) q))"
        by (rule erase_final) (use r ss True t b1 q bal_paint in auto)
      ultimately show ?thesis using ss by simp
    next
      case nf: False
      then have s2: "col s2 = Black" and s1: "col s1 = Red" using False by (metis color.exhaust)+
      then obtain x1 e x2 where se: "s1 = mk d Red x1 e x2" using mk_dest [of s1 d] by (metis col.simps(1) color.distinct(1))
      have bx: "bal x1" "bal x2" "bheight x1 = bheight t" "bheight x2 = bheight t" "col x1 = Black" "col x2 = Black"
        using b1 se by (auto simp: bheight_mk)
      have en: "e \<noteq> 0" using repr_focus(1) [OF r1] se by auto
      have "repr (set_color e Black h) (plug (mk d Black (mk d Black x1 e x2) b s2) (Fr (opp d) c a t # q))"
        using repr_set_color [OF r1, of Black] se by simp
      from repr_set_color [OF this, of Red]
      have "repr (set_color b Red (set_color e Black h))
          (plug (mk (opp d) Red s2 b (mk (opp d) Black x2 e x1)) (Fr (opp d) c a t # q))" by (simp add: mk_opp)
      from rotate_repr [OF this] obtain h2 where
        h2: "rb_rotate (opp d) b (set_color b Red (set_color e Black h)) = Some h2"
        and r2': "repr h2 (plug (mk (opp d) Black (mk (opp d) Red s2 b x2) e x1) (Fr (opp d) c a t # q))" .
      have rr: "repr h2 (plug (mk d c t a (mk d Black x1 e (mk d Red x2 b s2))) q)"
        using r2' by (simp add: mk_opp)
      have o2: "rb_child h2 (opp d) a = e" using repr_mk(5) [OF rr] by simp
      have "rb_is_black h (rt s2)" "\<not> rb_is_black h (rt s1)" using repr_is_black [OF r2] repr_is_black [OF r1] s1 s2 by simp_all
      then have "erase_half d a h (rt s) = (if e = 0 \<or> rb_child h2 (opp d) e = 0 then None
         else do { h3 \<leftarrow> rb_rotate d a
                 (set_color (rb_child h2 (opp d) e) Black (set_color a Black (set_color e (rb_color h2 a) h2)));
               Some (rb_root h3, h3) })"
        using ss ch se en h2 o2 by (simp add: erase_half_def nb)
      moreover have "erase_good \<dots> (nodes (plug (mk d c t a (mk d Black x1 e (mk d Red x2 b s2))) q))"
        by (rule erase_final) (use rr t bx b1 q in \<open>auto simp: bheight_mk\<close>)
      moreover have "nodes (plug (mk d c t a (mk d Black x1 e (mk d Red x2 b s2))) q) = nodes (plug (mk d c t a s) q)"
        by (rule nodes_plug_cong) (cases d; simp add: ss se)
      ultimately show ?thesis by simp
    qed
  qed
qed

lemma erase_loop_ok:
  assumes "repr h (plug t p)" and "bal (paint Black t)" and "path_ok p (Suc (bheight t)) Black"
  shows "erase_good (rb_erase_loop (rt t) (up 0 p) h) (nodes (plug t p))"
  using assms
proof (induction p arbitrary: t h)
  case Nil
  then show ?case using erase_stop [of h t "[]"] by simp
next
  case (Cons f q)
  obtain d c a s where f: "f = Fr d c a s" by (cases f)
  show ?case
  proof (cases "col t = Red")
    case True
    then show ?thesis using erase_stop [OF Cons.prems] by simp
  next
    case False
    then have ct: "col t = Black" by (metis color.exhaust)
    have bt: "bal t" using Cons.prems(2) ct by (cases t) auto
    have s: "bal s" "bheight s = Suc (bheight t)" "c = Red \<Longrightarrow> col s = Black"
      and q: "path_ok q (Suc (bheight t) + of_bool (c = Black)) c" using Cons.prems(3) f by auto
    have sn: "s \<noteq> Lf" using s by auto
    have r: "repr h (plug (mk d c t a s) q)" using Cons.prems(1) f by simp
    have rs: "repr h (plug s (Fr (opp d) c a t # q))" using r by (simp add: mk_opp)
    note side = repr_side' [OF r sn]
    have go: "rb_is_black h (rt t) \<and> rt t \<noteq> rb_root h"
    proof -
      have "rb_root h = rt (plug (mk d c t a s) q)" by (rule repr_root [OF r])
      moreover have "rt t \<noteq> rt (plug (mk d c t a s) q)"
      proof
        assume e: "rt t = rt (plug (mk d c t a s) q)"
        have "rt (plug (mk d c t a s) q) \<noteq> 0" using repr_focus(1) [of h "plug (mk d c t a s) q" "[]"] r by (simp add: plug_not_Lf)
        with e have "t \<noteq> Lf" by auto
        have tr: "repr h (plug t (Fr d c a s # q))" using r by simp
        have "rb_parent h (rt t) = a" "a \<noteq> 0" using repr_focus(2) [OF tr \<open>t \<noteq> Lf\<close>] repr_mk(1) [OF r] by auto
        moreover have "rb_parent h (rt (plug (mk d c t a s) q)) = 0"
          using repr_focus(2) [of h "plug (mk d c t a s) q" "[]"] r by (simp add: plug_not_Lf)
        ultimately show False using e by simp
      qed
      moreover have "rb_is_black h (rt t)" using repr_is_black [OF Cons.prems(1)] ct by simp
      ultimately show ?thesis by simp
    qed
    have np: "a \<noteq> 0" "rb_child h (opp d) a = rt s" "rt s \<noteq> 0" using repr_mk [OF r] repr_focus(1) [OF rs sn] by auto
    show ?thesis
    proof (cases "col s")
      case Black
      have "rb_color h (rt s) \<noteq> Red" using repr_focus(3) [OF rs sn] Black by simp
      then have "rb_erase_loop (rt t) a h = erase_half d a h (rt s)"
        using go side np by (subst rb_erase_loop.simps) (simp add: erase_half_def Let_def)
      moreover have "erase_good (erase_half d a h (rt s)) (nodes (plug (mk d c t a s) q))"
      proof (rule erase_half_ok [OF r bt s(1,2) Black q])
        fix h' assume r': "repr h' (plug (mk d c t a (paint Red s)) q)" and b': "bal (paint Black (mk d c t a (paint Red s)))"
        have "bheight (paint Red s) = bheight t" using s(2) Black by (cases s) auto
        then have "path_ok q (Suc (bheight (mk d c t a (paint Red s)))) Black"
          using path_ok_black [OF q] by (simp add: bheight_mk)
        from Cons.IH [OF r' b' this] show "erase_good (rb_erase_loop a (up 0 q) h') (nodes (plug (mk d c t a (paint Red s)) q))" by simp
      qed
      ultimately show ?thesis using f by simp
    next
      case Red
      have cB: "c = Black" using Red s(3) by (cases c) auto
      obtain s1 b s2 where ss: "s = mk d Red s1 b s2" using mk_dest [OF sn, of d] Red by metis
      have b1: "bal s1" "bal s2" "bheight s1 = Suc (bheight t)" "bheight s2 = Suc (bheight t)" "col s1 = Black" "col s2 = Black"
        using s ss by (auto simp: bheight_mk)
      let ?q = "Fr d Black b s2 # q"
      have "repr (set_color b Black h) (plug (mk d c t a (mk d Black s1 b s2)) q)"
        using repr_set_color [OF rs sn, of Black] ss by (simp add: mk_opp)
      from repr_set_color [OF this, of Red]
      have "repr (set_color a Red (set_color b Black h)) (plug (mk d Red t a (mk d Black s1 b s2)) q)" by simp
      from rotate_repr [OF this] obtain h1 where h1: "rb_rotate d a (set_color a Red (set_color b Black h)) = Some h1"
        and r1: "repr h1 (plug (mk d Black (mk d Red t a s1) b s2) q)" .
      have r1': "repr h1 (plug (mk d Red t a s1) ?q)" using r1 by simp
      have "rb_color h (rt s) = Red" using repr_focus(3) [OF rs sn] Red by simp
      then have "rb_erase_loop (rt t) a h = erase_half d a h1 (rt s1)"
        using go side np ss h1 repr_mk(5) [OF r1']
        by (subst rb_erase_loop.simps) (simp add: erase_half_def Let_def)
      moreover have "erase_good (erase_half d a h1 (rt s1)) (nodes (plug (mk d Red t a s1) ?q))"
      proof (rule erase_half_ok [OF r1' bt b1(1,3,5)])
        show "path_ok ?q (Suc (bheight t) + of_bool (Red = Black)) Red" using b1 q cB by simp
        fix h' assume r': "repr h' (plug (mk d Red t a (paint Red s1)) ?q)"
          and b': "bal (paint Black (mk d Red t a (paint Red s1)))"
        have "bheight (paint Red s1) = bheight t" using b1(3,5) by (cases s1) auto
        then have "path_ok ?q (Suc (bheight (mk d Red t a (paint Red s1)))) Black"
          using b1 q cB by (simp add: bheight_mk)
        from erase_stop [OF r' b' this]
        show "erase_good (rb_erase_loop a (up 0 ?q) h') (nodes (plug (mk d Red t a (paint Red s1)) ?q))" by simp
      qed
      moreover have "nodes (plug (mk d Red t a s1) ?q) = nodes (plug t (f # q))"
        unfolding f plug.simps by (rule nodes_plug_cong) (cases d; simp add: ss)
      ultimately show ?thesis using f by simp
    qed
  qed
qed

lemma erase_color_ok:
  assumes "repr h (plug t p)" and "bal (paint Black t)" and "path_ok p (Suc (bheight t)) Black"
  shows "\<exists>h' T. rb_erase_color (rt t) (up 0 p) h = Some h' \<and> repr h' T \<and> rb_ok T \<and> nodes T = nodes (plug t p)"
  using erase_loop_ok [OF assms] by (auto simp: erase_good_def rb_erase_color_def)

section \<open>Deletion is correct\<close>

lemma replace_child_fields:
  "rb_parent (rb_replace_child e pp x new h) = rb_parent h" "rb_color (rb_replace_child e pp x new h) = rb_color h"
  "z \<noteq> pp \<Longrightarrow> rb_child (rb_replace_child e pp x new h) d z = rb_child h d z"
  by (auto simp: rb_replace_child_def rb_upd)

text \<open>A node with one empty side is replaced by its other subtree.\<close>

lemma splice_repr:
  assumes r: "repr h (plug (mk d c t x Lf) p)"
  shows "repr (rb_replace_child L (up 0 p) x (rt t) (if rt t \<noteq> 0 then set_parent (rt t) (up 0 p) h else h)) (plug t p)"
proof -
  let ?h1 = "if rt t \<noteq> 0 then set_parent (rt t) (up 0 p) h else h"
  let ?h2 = "rb_replace_child L (up 0 p) x (rt t) ?h1"
  have x: "x \<noteq> 0" and tt: "tree_at h x (rb_child h d x) t" and pa: "path_at h 0 x p (rb_root h)"
    and ds: "distinct (nodes t)" "distinct (path_nodes p)" "x \<notin> set (path_nodes p)"
      "set (nodes t) \<inter> set (path_nodes p) = {}"
    using r by (auto simp: repr_plug)
  have t: "tree_at h x (rt t) t" using tt tree_at_rt [OF tt] by simp
  have inn: "rt t \<in> set (nodes t) \<or> rt t = 0" using tree_at_in [OF t] by blast
  have "same_on (set (path_nodes p)) h ?h1" using ds inn by auto
  from path_at_same [OF this pa] have "path_at ?h1 0 x p (rb_root ?h1)" by (simp add: rb_upd split: if_splits)
  from replace_child_path [OF this ds(2) x ds(3)] have p2: "path_at ?h2 0 (rt t) p (rb_root ?h2)" .
  have u: "up 0 p \<notin> set (nodes t) \<or> p = []" using ds up_in_path by blast
  have s2: "same_on (set (nodes t)) ?h1 ?h2" using replace_child_same [OF u] .
  have "tree_at ?h1 (up 0 p) (rt t) t"
    using ds(1) tree_at_root [OF t] by (intro tree_at_reparent [OF t]) (auto simp: rb_upd)
  from tree_at_same [OF s2 this] p2 ds show ?thesis by (auto simp: repr_plug)
qed

text \<open>The end of a side: \<open>rb_far\<close> finds the outermost node.\<close>

lemma far_ok:
  assumes "tree_at h pp x t" and "t \<noteq> Lf"
  shows "\<exists>q c s u. rb_far d h x = Some s \<and> t = plug (mk d c Lf s u) q \<and> (\<forall>f \<in> set q. \<exists>c a s. f = Fr d c a s)"
  using assms
proof (induction t arbitrary: pp x)
  case (Nd c l a r)
  obtain t u where t: "Nd c l a r = mk d c t a u" by (cases d) auto
  then have at: "x = a" "a \<noteq> 0" "tree_at h a (rb_child h d a) t" using Nd.prems by (metis tree_at_mk)+
  show ?case
  proof (cases "t = Lf")
    case True
    then show ?thesis using at t by (intro exI [of _ "[]"] exI [of _ c] exI [of _ a] exI [of _ u])
      (simp add: rb_far.simps [of d h a])
  next
    case False
    have "t = l \<or> t = r" using t by (cases d) auto
    then obtain q c' s v where q: "rb_far d h (rb_child h d a) = Some s" "t = plug (mk d c' Lf s v) q"
      "\<forall>f \<in> set q. \<exists>c a s. f = Fr d c a s"
      using Nd.IH at(3) False by metis
    have "rb_far d h a = Some s" using q tree_at_root [OF at(3)] False by (subst rb_far.simps) simp
    moreover have "Nd c l a r = plug (mk d c' Lf s v) (q @ [Fr d c a u])"
    proof -
      have "plug z (q @ [Fr d c a u]) = mk d c (plug z q) a u" for z
        by (induction z q rule: plug.induct) auto
      then show ?thesis using t q by simp
    qed
    ultimately show ?thesis using q at(1)
      by (intro exI [of _ "q @ [Fr d c a u]"] exI [of _ c'] exI [of _ s] exI [of _ v]) auto
  qed
qed simp

lemma path_top_in: "path_at h tp x q y \<Longrightarrow> q \<noteq> [] \<Longrightarrow> y \<in> set (path_nodes q)"
proof (induction h tp x q y rule: path_at.induct)
  case (2 h tp x d c a s p y)
  then show ?case by (cases "p = []") auto
qed simp

lemma path_set_bottom:
  assumes "path_at h tp x (Fr d c a s # q) y" and "a \<notin> set (nodes s)" "a \<notin> set (path_nodes q)"
  shows "path_at (set_child d a new h) tp new (Fr d c a s # q) y"
  using assms tree_at_same [OF same_on_set(2) [OF assms(2) same_on_refl]]
    path_at_same [OF same_on_set(2) [OF assms(3) same_on_refl]]
  by (auto simp: rb_upd)

lemma path_retop:
  assumes "path_at h tp x q y" and "q \<noteq> []" and "distinct (path_nodes q)"
  shows "path_at (set_parent y tp' h) tp' x q y"
  using assms
proof (induction h tp x q y rule: path_at.induct)
  case (2 h tp x d c a s p y)
  show ?case
  proof (cases "p = []")
    case True
    with 2 show ?thesis by (auto simp: rb_upd intro!: tree_at_same [of s h])
  next
    case False
    then have y: "y \<in> set (path_nodes p)" using 2 path_top_in by auto
    have "up tp p = up tp' p" using False by (cases p rule: path_nodes.cases) auto
    moreover have "tree_at (set_parent y tp' h) a (rb_child h (opp d) a) s"
      using y "2.prems" by (auto intro!: tree_at_same [of s h])
    moreover have "path_at (set_parent y tp' h) tp' a p y" using 2 False by auto
    ultimately show ?thesis using 2 y by (auto simp: rb_upd)
  qed
qed simp

lemma path_start: "path_at h tp x q y \<Longrightarrow> q \<noteq> [] \<Longrightarrow> rb_child h (case hd q of Fr d c a s \<Rightarrow> d) (up tp q) = x"
  by (cases q rule: path_nodes.cases) auto

lemma erase_two_parts:
  assumes "rb_far L h (rb_child h R x) = Some s" and "h1 = rb_replace_child L (rb_parent h x) x s h"
    and "unhook x s h1 = (h2, par)"
  shows "rb_erase_two x h =
    (if rb_color h1 s = Black then rb_erase_color (rb_child h1 R s) par (take_over x s h2) else Some (take_over x s h2))"
  using assms(3) by (simp add: rb_erase_two_def assms(1) assms(2) [symmetric] Let_def)

lemma take_over_repr:
  assumes p: "path_at h2 0 s p (rb_root h2)" and l: "tree_at h2 x (rb_child h2 L x) l" "l \<noteq> Lf"
    and x: "rb_parent h2 x = up 0 p" "rb_color h2 x = c" and s: "s \<noteq> 0" "s \<noteq> x"
    and t: "tree_at h2 s (rb_child h2 R s) t"
    and ds: "distinct (nodes l)" "distinct (nodes t)" "distinct (path_nodes p)" "s \<notin> set (nodes l)"
      "s \<notin> set (nodes t)" "s \<notin> set (path_nodes p)" "set (nodes l) \<inter> set (nodes t) = {}"
      "set (nodes l) \<inter> set (path_nodes p) = {}" "set (nodes t) \<inter> set (path_nodes p) = {}" "x \<notin> set (nodes l)"
  shows "repr (take_over x s h2) (plug (Nd c l s t) p)"
proof -
  have rl: "rb_child h2 L x = rt l" using tree_at_rt [OF l(1)] .
  have rln: "rt l \<in> set (nodes l)" "rt l \<noteq> 0" using l tree_at_root [OF l(1)] rl by (cases l; simp)+
  let ?h = "take_over x s h2"
  have h: "?h = set_parent (rt l) s (set_child L s (rt l) (set_color s c (set_parent s (up 0 p) h2)))"
    using x s rl by (simp add: take_over_def Let_def rb_upd)
  have same: "same_on A h2 ?h" if "s \<notin> A" "rt l \<notin> A" for A using that unfolding h by auto
  have p': "path_at ?h 0 s p (rb_root ?h)"
    using path_at_same [OF same p] ds rln by (auto simp: h rb_upd)
  have t': "tree_at ?h s (rb_child h2 R s) t" using tree_at_same [OF same t] ds rln by auto
  have "tree_at ?h s (rt l) l"
  proof (rule tree_at_reparent [of h2 x])
    show "tree_at h2 x (rt l) l" using l(1) rl by simp
    show "same_on (set (nodes l) - {rt l}) h2 ?h" using ds(4) by (intro same) auto
    have "rt l \<noteq> s" using ds(4) rln by auto
    then show "rb_parent ?h (rt l) = s" "rb_color ?h (rt l) = rb_color h2 (rt l)"
      "rb_child ?h d (rt l) = rb_child h2 d (rt l)" for d by (simp_all add: h rb_upd)
  qed (rule ds(1))
  moreover have "rb_child ?h L s = rt l" "rb_child ?h R s = rb_child h2 R s" "rb_parent ?h s = up 0 p" "rb_color ?h s = c"
    using ds rln by (auto simp: h rb_upd)
  ultimately have "tree_at ?h (up 0 p) s (Nd c l s t)" using s t' by simp
  with p' ds show ?thesis by (auto simp: repr_plug)
qed

lemma nodes_plug_left: "\<forall>f \<in> set q. \<exists>c a s. f = Fr L c a s \<Longrightarrow> \<exists>ys. \<forall>t. nodes (plug t q) = nodes t @ ys"
proof (induction q)
  case (Cons f q)
  then obtain c a s ys where "f = Fr L c a s" "\<forall>t. nodes (plug t q) = nodes t @ ys" by auto
  then show ?case by (intro exI [of _ "a # nodes s @ ys"]) simp
qed simp

lemma erase_two_step:
  assumes r: "repr h (plug (Nd c l x r) p)" and "l \<noteq> Lf" "r \<noteq> Lf"
  obtains q cs s u h6 ys where "r = plug (Nd cs Lf s u) q" and "\<forall>t. nodes (plug t q) = nodes t @ ys" and "repr h6 (plug (Nd c l s (plug u q)) p)"
    and "rb_far L h (rb_child h R x) = Some s" and "\<forall>f \<in> set q. \<exists>c a s. f = Fr L c a s"
    and "h6 = take_over x s (fst (unhook x s (rb_replace_child L (rb_parent h x) x s h)))"
    and "rb_erase_two x h = (if cs = Black then rb_erase_color (rt u) (up 0 (q @ Fr R c s l # p)) h6 else Some h6)"
proof -
  have x: "x \<noteq> 0" "rb_parent h x = up 0 p" "rb_color h x = c"
    and l: "tree_at h x (rb_child h L x) l" and rr: "tree_at h x (rb_child h R x) r"
    and pa: "path_at h 0 x p (rb_root h)" using r by (auto simp: repr_plug)
  have dl: "distinct (nodes l)" "x \<notin> set (nodes l)" "x \<notin> set (nodes r)" "distinct (nodes r)" "distinct (path_nodes p)"
    "x \<notin> set (path_nodes p)" "set (nodes l) \<inter> set (nodes r) = {}" "set (nodes l) \<inter> set (path_nodes p) = {}"
    "set (nodes r) \<inter> set (path_nodes p) = {}" using r by (auto simp: repr_plug)
  obtain q cs s u where far: "rb_far L h (rb_child h R x) = Some s" and rq: "r = plug (Nd cs Lf s u) q"
    and qL: "\<forall>f \<in> set q. \<exists>c a s. f = Fr L c a s"
    using far_ok [OF rr assms(3), of L] by auto
  obtain ys where ys: "\<forall>t. nodes (plug t q) = nodes t @ ys" using nodes_plug_left [OF qL] by blast
  have "tree_at h x (rb_child h R x) (plug (Nd cs Lf s u) q)" using rr rq by simp
  then have s: "s \<noteq> 0" "rb_parent h s = up x q" "rb_color h s = cs" "rb_child h L s = 0" "tree_at h s (rb_child h R s) u"
    and pq: "path_at h x s q (rb_child h R x)" by (auto simp: tree_at_plug)
  have nr: "set (nodes r) = insert s (set (nodes u) \<union> set (path_nodes q))" and
    dq: "distinct (nodes u)" "distinct (path_nodes q)" "s \<notin> set (nodes u)" "s \<notin> set (path_nodes q)"
      "set (nodes u) \<inter> set (path_nodes q) = {}"
    using rq dl(4) by (auto simp: distinct_nodes_plug)
  have sx: "s \<noteq> x" using nr dl by auto
  have u: "rb_child h R s = rt u" using tree_at_rt [OF s(5)] .
  define h1 where "h1 = rb_replace_child L (up 0 p) x s h"
  have p1: "path_at h1 0 s p (rb_root h1)" unfolding h1_def by (rule replace_child_path [OF pa dl(5) x(1) dl(6)])
  have upp: "up 0 p \<in> set (path_nodes p) \<or> up 0 p = 0" by (cases p rule: path_nodes.cases) auto
  have f1: "rb_parent h1 = rb_parent h" "rb_color h1 = rb_color h"
    "\<And>d z. z \<noteq> 0 \<Longrightarrow> z \<notin> set (path_nodes p) \<Longrightarrow> rb_child h1 d z = rb_child h d z"
    unfolding h1_def by (simp add: replace_child_fields, simp add: replace_child_fields,
      rule replace_child_fields(3), use upp in auto)
  have s1: "same_on A h h1" if "A \<inter> set (path_nodes p) = {}" for A
    unfolding h1_def using that up_in_path [of p 0] by (intro replace_child_same) auto
  have l1: "tree_at h1 x (rb_child h1 L x) l"
    using tree_at_same [OF s1 l] dl f1(3) [OF x(1) dl(6)] by auto
  have sp: "s \<notin> set (path_nodes p)" "s \<notin> set (nodes l)" using nr dl by auto
  have ch1: "rb_child h1 R s = rt u" using f1(3) [OF s(1) sp(1)] u by simp
  have ur1: "tree_at h1 s (rb_child h1 R s) u"
    using tree_at_same [OF s1 s(5)] nr dl ch1 u by auto
  show ?thesis
  proof (cases "q = []")
    case True
    have r6: "repr (take_over x s h1) (plug (Nd c l s u) p)"
      by (rule take_over_repr [OF p1 l1 assms(2)]) (use x s sx f1 ur1 dl dq sp nr in auto)
    have "unhook x s h1 = (h1, s)" using True s f1 by (simp add: unhook_def)
    from erase_two_parts [OF far _ this]
    have "rb_erase_two x h = (if cs = Black then rb_erase_color (rt u) s (take_over x s h1) else Some (take_over x s h1))"
      using x s f1 ch1 by (simp add: h1_def)
    moreover have "take_over x s h1 = take_over x s (fst (unhook x s (rb_replace_child L (rb_parent h x) x s h)))"
      using \<open>unhook x s h1 = (h1, s)\<close> x(2) by (simp add: h1_def)
    ultimately show ?thesis using r6 True rq ys far qL by (intro that [of cs s u "[]" ys "take_over x s h1"]) auto
  next
    case False
    then obtain ca a sa q' where q: "q = Fr L ca a sa # q'" using qL by (cases q rule: path_nodes.cases) auto
    define ha where "ha = (if rt u \<noteq> 0 then set_parent (rt u) a h1 else h1)"
    define hb where "hb = set_child L a (rt u) ha"
    define hd where "hd = set_parent (rt r) s (set_child R s (rt r) hb)"
    have rtr: "rb_child h R x = rt r" using tree_at_rt [OF rr] .
    have rn: "rt r \<in> set (path_nodes q)" using path_top_in [OF pq False] rtr by simp
    have an: "a \<in> set (path_nodes q)" "a \<noteq> 0" using q path_not_0 [OF pq] by auto
    have un: "rt u \<in> set (nodes u) \<or> rt u = 0" by (cases u) auto
    have nq: "set (path_nodes q) \<inter> set (path_nodes p) = {}" "set (nodes u) \<inter> set (path_nodes p) = {}"
      "x \<notin> set (path_nodes q)" "x \<notin> set (nodes u)" using nr dl by auto
    have sd: "same_on A h1 hd" if "s \<notin> A" "rt r \<notin> A" "a \<notin> A" "rt u \<notin> A \<or> rt u = 0" for A
      using that unfolding hd_def hb_def ha_def by auto
    have n0: "0 \<notin> set (path_nodes q)" "0 \<notin> set (nodes u)" "0 \<notin> set (path_nodes p)" "0 \<notin> set (nodes l)"
      using path_not_0 [OF pq] nodes_not_0 [OF s(5)] path_not_0 [OF pa] nodes_not_0 [OF l] by auto
    have pd: "path_at hd 0 s p (rb_root hd)"
    proof -
      have "same_on (set (path_nodes p)) h1 hd" using sp nq rn an un n0 by (intro sd) auto
      moreover have "rb_root hd = rb_root h1" by (simp add: hd_def hb_def ha_def rb_upd)
      ultimately show ?thesis using path_at_same [OF _ p1] by simp
    qed
    have cx: "rb_child hd d x = rb_child h1 d x" "rb_parent hd x = rb_parent h x" "rb_color hd x = rb_color h x" for d
    proof -
      have "rt u \<noteq> x" using un nq x by auto
      then show "rb_child hd d x = rb_child h1 d x" "rb_parent hd x = rb_parent h x" "rb_color hd x = rb_color h x"
        using sx nq an rn f1 by (auto simp: hd_def hb_def ha_def rb_upd)
    qed
    have ld: "tree_at hd x (rb_child hd L x) l"
    proof -
      have "same_on (set (nodes l)) h1 hd" using sp dl nr rn an un n0 by (intro sd) auto
      from tree_at_same [OF this l1] show ?thesis by (simp add: cx)
    qed
    have ur2: "tree_at h1 s (rt u) u" using ur1 ch1 by simp
    have tb: "tree_at ha a (rt u) u"
    proof (rule tree_at_reparent [OF ur2 dq(1)])
      show "same_on (set (nodes u) - {rt u}) h1 ha" unfolding ha_def by auto
      assume "u \<noteq> Lf"
      then have "rt u \<noteq> 0" using tree_at_root [OF ur2] by simp
      then show "rb_parent ha (rt u) = a" "rb_color ha (rt u) = rb_color h1 (rt u)"
        "rb_child ha d (rt u) = rb_child h1 d (rt u)" for d by (simp_all add: ha_def rb_upd)
    qed
    have q1: "path_at h1 x s q (rt r)" using path_at_same [OF s1 pq] nq rtr by auto
    have qa: "path_at ha x s q (rt r)"
    proof -
      have "same_on (set (path_nodes q)) h1 ha" unfolding ha_def using un dq by auto
      from path_at_same [OF this q1] show ?thesis .
    qed
    have "path_at hb x (rt u) q (rt r)"
      using path_set_bottom [of ha x s L ca a sa q' "rt r" "rt u"] qa dq(2) unfolding q hb_def by auto
    then have qd: "path_at (set_parent (rt r) s hb) s (rt u) q (rt r)" using path_retop False dq(2) by blast
    have hd': "hd = set_child R s (rt r) (set_parent (rt r) s hb)"
      by (simp add: hd_def set_child_def set_parent_def)
    have qd': "path_at hd s (rt u) q (rt r)"
      unfolding hd' by (rule path_at_same [OF same_on_set(2) [OF dq(4) same_on_refl] qd])
    have "same_on (set (nodes u)) ha hd"
      unfolding hd_def hb_def using dq nr rn an un by auto
    from tree_at_same [OF this tb] have "tree_at hd (up s q) (rt u) u" using q by simp
    with qd' have tr: "tree_at hd s (rt r) (plug u q)" by (auto simp: tree_at_plug)
    have crs: "rb_child hd R s = rt r" by (simp add: hd_def rb_upd)
    have r6: "repr (take_over x s hd) (plug (Nd c l s (plug u q)) p)"
    proof (rule take_over_repr [OF pd ld assms(2)])
      show "tree_at hd s (rb_child hd R s) (plug u q)" using tr crs by simp
      show "set (nodes l) \<inter> set (nodes (plug u q)) = {}" "set (nodes (plug u q)) \<inter> set (path_nodes p) = {}"
        "s \<notin> set (nodes (plug u q))" using dl nr dq by auto
      show "distinct (nodes (plug u q))" using dq by (simp add: distinct_nodes_plug)
    qed (use x s sx cx dl sp in auto)
    have au: "rb_parent h1 s = a" using s(2) f1 q by simp
    have ax: "a \<noteq> x" using an nq by auto
    have rcx: "rb_child hb R x = rt r" "rb_child h1 R x = rt r"
      using f1(3) [OF x(1) dl(6)] rtr ax by (simp_all add: hb_def ha_def rb_upd)
    have "unhook x s h1 = (hd, a)"
      using rcx sx au ax ch1 unfolding unhook_def Let_def ha_def hb_def hd_def by (simp add: rb_upd)
    from erase_two_parts [OF far _ this]
    have "rb_erase_two x h = (if cs = Black then rb_erase_color (rt u) a (take_over x s hd) else Some (take_over x s hd))"
      using x s f1 ch1 by (simp add: h1_def)
    moreover have "take_over x s hd = take_over x s (fst (unhook x s (rb_replace_child L (rb_parent h x) x s h)))"
      using \<open>unhook x s h1 = (hd, a)\<close> x(2) by (simp add: h1_def)
    ultimately show ?thesis using r6 rq q ys far qL by (intro that [of cs s u q ys "take_over x s hd"]) auto
  qed
qed

lemma plug_append: "plug t (q @ p) = plug (plug t q) p"
  by (induction t q rule: plug.induct) auto

lemma path_ok_append:
  "rb_ok (plug (plug t q) p) \<longleftrightarrow> bal t \<and> path_ok (q @ p) (bheight t) (col t)"
  using rb_ok_plug [of t "q @ p"] by (simp add: plug_append)

text \<open>Replacing the node above a path by another of the same colour.\<close>

lemma path_ok_rename: "path_ok (q @ Fr d c a s # p) n k = path_ok (q @ Fr d c b s # p) n k"
  by (induction q n k rule: path_ok.induct) auto

lemma erase_one_ok:
  assumes r: "repr h (plug (mk d c t x Lf) p)" and ok: "rb_ok (plug (mk d c t x Lf) p)"
    and e: "rb_erase x h = (let h2 = rb_replace_child L (up 0 p) x (rt t) (if rt t \<noteq> 0 then set_parent (rt t) (up 0 p) h else h)
       in if c = Black then rb_erase_color (rt t) (up 0 p) h2 else Some h2)"
  shows "\<exists>h' T. rb_erase x h = Some h' \<and> repr h' T \<and> rb_ok T \<and> nodes T = nodes (plug t p)"
proof -
  let ?h2 = "rb_replace_child L (up 0 p) x (rt t) (if rt t \<noteq> 0 then set_parent (rt t) (up 0 p) h else h)"
  have r2: "repr ?h2 (plug t p)" by (rule splice_repr [OF r])
  have b: "bal t" "bheight t = 0" "c = Red \<Longrightarrow> col t = Black" "path_ok p (of_bool (c = Black)) c"
    using ok by (auto simp: rb_ok_plug bheight_mk)
  show ?thesis
  proof (cases c)
    case Red
    then have "rb_ok (plug t p)" using b path_ok_black by (auto simp: rb_ok_plug)
    with r2 e Red show ?thesis by auto
  next
    case Black
    then have "path_ok p (Suc (bheight t)) Black" using b by simp
    from erase_color_ok [OF r2 bal_paint [OF b(1)] this] e Black show ?thesis by auto
  qed
qed

lemma nodes_plug_split: "\<exists>xs ys. \<forall>t. nodes (plug t p) = xs @ nodes t @ ys"
proof (induction p)
  case Nil
  show ?case by (intro exI [of _ "[]"]) simp
next
  case (Cons f p)
  obtain d c a s where f: "f = Fr d c a s" by (cases f)
  obtain xs ys where "\<forall>t. nodes (plug t p) = xs @ nodes t @ ys" using Cons.IH by blast
  then show ?case unfolding f
    by (cases d) (intro exI [of _ xs] exI [of _ "a # nodes s @ ys"], simp,
      intro exI [of _ "xs @ nodes s @ [a]"] exI [of _ ys], simp)
qed

lemma nodes_plug_minus:
  assumes "distinct (nodes (plug t p))" and "nodes t' = remove1 x (nodes t)" and "x \<in> set (nodes t)"
  shows "nodes (plug t' p) = remove1 x (nodes (plug t p))"
proof -
  obtain xs ys where n: "\<forall>t. nodes (plug t p) = xs @ nodes t @ ys" using nodes_plug_split by blast
  with assms have "x \<notin> set xs" by auto
  then show ?thesis using n assms by (simp add: remove1_append)
qed

lemma erase_at_ok:
  assumes r: "repr h (plug (Nd c l x r) p)" and ok: "rb_ok (plug (Nd c l x r) p)"
  shows "\<exists>h' T. rb_erase x h = Some h' \<and> repr h' T \<and> rb_ok T \<and> nodes T = remove1 x (nodes (plug (Nd c l x r) p))"
proof -
  have rL: "repr h (plug (mk L c l x r) p)" using r by simp
  note m = repr_mk [OF rL]
  have d: "distinct (nodes (plug (Nd c l x r) p))" using r by (simp add: repr_def)
  have dx: "x \<notin> set (nodes l)" using r by (auto simp: repr_plug)
  have l: "rt l = 0 \<longleftrightarrow> l = Lf" using repr_rt_0 [of h l "Fr L c x r # p"] r by simp
  have rr: "rt r = 0 \<longleftrightarrow> r = Lf" using repr_rt_0 [of h r "Fr R c x l # p"] r by simp
  consider "l = Lf" | "l \<noteq> Lf" "r = Lf" | "l \<noteq> Lf" "r \<noteq> Lf" by blast
  then show ?thesis
  proof cases
    case 1
    have "rb_erase x h = (let h2 = rb_replace_child L (up 0 p) x (rt r) (if rt r \<noteq> 0 then set_parent (rt r) (up 0 p) h else h)
       in if c = Black then rb_erase_color (rt r) (up 0 p) h2 else Some h2)"
      using m 1 by (simp add: rb_erase_def Let_def)
    from erase_one_ok [of h R c r x p, OF _ _ this] r ok 1
    obtain h' T where "rb_erase x h = Some h'" "repr h' T" "rb_ok T" "nodes T = nodes (plug r p)" by auto
    moreover have "nodes (plug r p) = remove1 x (nodes (plug (Nd c l x r) p))"
      by (rule nodes_plug_minus [OF d]) (auto simp: 1)
    ultimately show ?thesis by auto
  next
    case 2
    have "rb_erase x h = (let h2 = rb_replace_child L (up 0 p) x (rt l) (if rt l \<noteq> 0 then set_parent (rt l) (up 0 p) h else h)
       in if c = Black then rb_erase_color (rt l) (up 0 p) h2 else Some h2)"
      using m 2 l by (simp add: rb_erase_def Let_def)
    from erase_one_ok [of h L c l x p, OF _ _ this] r ok 2
    obtain h' T where "rb_erase x h = Some h'" "repr h' T" "rb_ok T" "nodes T = nodes (plug l p)" by auto
    moreover have "nodes (plug l p) = remove1 x (nodes (plug (Nd c l x r) p))"
      by (rule nodes_plug_minus [OF d]) (auto simp: 2 dx remove1_append)
    ultimately show ?thesis by auto
  next
    case 3
    have e: "rb_erase x h = rb_erase_two x h" using m 3 l rr by (simp add: rb_erase_def)
    obtain q cs s u h6 ys where rq: "r = plug (Nd cs Lf s u) q" and ys: "\<forall>t. nodes (plug t q) = nodes t @ ys"
      and r6: "repr h6 (plug (Nd c l s (plug u q)) p)"
      and two: "rb_erase_two x h = (if cs = Black then rb_erase_color (rt u) (up 0 (q @ Fr R c s l # p)) h6 else Some h6)"
      by (rule erase_two_step [OF r 3])
    let ?P = "q @ Fr R c s l # p"
    have pl: "plug (Nd c l s (plug u q)) p = plug u ?P" by (simp add: plug_append)
    have "plug (Nd c l x r) p = plug (plug (Nd cs Lf s u) q) (Fr R c x l # p)" using rq by simp
    then have "bal (Nd cs Lf s u) \<and> path_ok (q @ Fr R c x l # p) (bheight (Nd cs Lf s u)) cs"
      using ok path_ok_append by (metis col.simps(2))
    then have b: "bal u" "bheight u = 0" "cs = Red \<Longrightarrow> col u = Black" and po: "path_ok ?P (of_bool (cs = Black)) cs"
      by (auto simp: path_ok_rename [of q R c x l p _ _ s])
    have nn: "nodes (plug (Nd c l s (plug u q)) p) = remove1 x (nodes (plug (Nd c l x r) p))"
      by (rule nodes_plug_minus [OF d]) (auto simp: rq ys dx remove1_append)
    have r6': "repr h6 (plug u ?P)" using r6 pl by simp
    show ?thesis
    proof (cases cs)
      case Red
      then have "rb_ok (plug u ?P)" using b po path_ok_black by (auto simp: rb_ok_plug)
      with r6' e two Red nn pl show ?thesis by auto
    next
      case Black
      then have "path_ok ?P (Suc (bheight u)) Black" using b po by simp
      from erase_color_ok [OF r6' bal_paint [OF b(1)] this] e two Black nn pl show ?thesis by auto
    qed
  qed
qed

text \<open>Every node has a position.\<close>

lemma node_position: "x \<in> set (nodes t) \<Longrightarrow> \<exists>c l r p. t = plug (Nd c l x r) p"
proof (induction t)
  case (Nd c l a r)
  consider "x = a" | "x \<in> set (nodes l)" | "x \<in> set (nodes r)" using Nd.prems by auto
  then show ?case
  proof cases
    case 1
    then show ?thesis by (intro exI [of _ c] exI [of _ l] exI [of _ r] exI [of _ "[]"]) simp
  next
    case 2
    with Nd.IH(1) obtain c' l' r' p where "l = plug (Nd c' l' x r') p" by blast
    then show ?thesis by (intro exI [of _ c'] exI [of _ l'] exI [of _ r'] exI [of _ "p @ [Fr L c a r]"])
      (simp add: plug_append)
  next
    case 3
    with Nd.IH(2) obtain c' l' r' p where "r = plug (Nd c' l' x r') p" by blast
    then show ?thesis by (intro exI [of _ c'] exI [of _ l'] exI [of _ r'] exI [of _ "p @ [Fr R c a l]"])
      (simp add: plug_append)
  qed
qed simp

section \<open>The operations on the order of the nodes\<close>

text \<open>The new node goes right before the node it is linked to on the left of, right behind the
  one it is linked to on the right of.\<close>

fun ins_next :: "dir \<Rightarrow> addr \<Rightarrow> addr \<Rightarrow> addr list \<Rightarrow> addr list" where
  "ins_next d a n [] = [n]"
| "ins_next d a n (x # xs) =
     (if x = a then (if d = L then n # x # xs else x # n # xs) else x # ins_next d a n xs)"

lemma ins_next_split:
  "a \<notin> set xs \<Longrightarrow> ins_next d a n (xs @ a # ys) = xs @ (if d = L then n # a # ys else a # n # ys)"
  by (induction xs) auto

lemma hole_position:
  assumes r: "repr h t" and a: "a \<in> set (nodes t)" and z: "rb_child h d a = 0"
  obtains c s p where "t = plug Lf (Fr d c a s # p)"
proof -
  obtain c l r p where t: "t = plug (Nd c l a r) p" using node_position [OF a] by blast
  obtain u s where us: "Nd c l a r = mk d c u a s" by (cases d) auto
  have m: "repr h (plug (mk d c u a s) p)" using r t us by simp
  then have "repr h (plug u (Fr d c a s # p))" by simp
  from repr_rt_0 [OF this] have "u = Lf" using repr_mk(4) [OF m] z by simp
  with t us that [of c s p] show ?thesis by simp
qed

text \<open>A slot for a new node: the empty root, or an empty side of a node.\<close>

definition free_slot :: "rb_heap \<Rightarrow> rbt \<Rightarrow> addr \<Rightarrow> dir \<Rightarrow> bool" where
  "free_slot h t parent d \<longleftrightarrow> (t = Lf \<and> parent = 0) \<or> (parent \<in> set (nodes t) \<and> rb_child h d parent = 0)"

lemma insert_ok:
  assumes r: "repr h t" and ok: "rb_ok t" and n: "node \<noteq> 0" "node \<notin> set (nodes t)"
    and slot: "free_slot h t parent d"
  shows "\<exists>h' t'. rb_insert_color node (rb_link_node node parent d h) = Some h' \<and> repr h' t' \<and> rb_ok t' \<and>
    nodes t' = ins_next d parent node (nodes t)"
proof (cases "t = Lf")
  case True
  then have "parent = 0" using slot by (auto simp: free_slot_def)
  with insert_at_ok [of h "[]" node d] r ok n True show ?thesis by simp
next
  case False
  then have a: "parent \<in> set (nodes t)" "rb_child h d parent = 0" using slot by (auto simp: free_slot_def)
  obtain c s p where t: "t = plug Lf (Fr d c parent s # p)" using hole_position [OF r a] .
  let ?p = "Fr d c parent s # p"
  have "\<exists>h' t'. rb_insert_color node (rb_link_node node (up 0 ?p) d h) = Some h' \<and> repr h' t' \<and> rb_ok t' \<and>
    nodes t' = nodes (plug (Nd Red Lf node Lf) ?p)"
    by (rule insert_at_ok) (use r ok n t in auto)
  moreover have "nodes (plug (Nd Red Lf node Lf) ?p) = ins_next d parent node (nodes t)"
  proof -
    obtain xs ys where n: "\<forall>t. nodes (plug t p) = xs @ nodes t @ ys" using nodes_plug_split by blast
    have "distinct (nodes t)" using r by (simp add: repr_def)
    then have "parent \<notin> set xs" "parent \<notin> set (nodes s)" using t n by (cases d; auto)+
    with t n show ?thesis
      using ins_next_split [of parent "xs" d node] ins_next_split [of parent "xs @ nodes s" d node] by (cases d) auto
  qed
  ultimately show ?thesis by auto
qed

lemma erase_ok:
  assumes "repr h t" and "rb_ok t" and "x \<in> set (nodes t)"
  shows "\<exists>h' t'. rb_erase x h = Some h' \<and> repr h' t' \<and> rb_ok t' \<and> nodes t' = remove1 x (nodes t)"
  using node_position [OF assms(3)] erase_at_ok assms(1,2) by metis

section \<open>Walking is correct\<close>

text \<open>The nodes in the order of a walk towards side \<open>d\<close>, and those behind a position.\<close>

definition ord :: "dir \<Rightarrow> rbt \<Rightarrow> addr list" where
  "ord d t = (if d = R then nodes t else rev (nodes t))"

fun behind :: "dir \<Rightarrow> frame list \<Rightarrow> addr list" where
  "behind d [] = []"
| "behind d (Fr e c a s # p) = (if e = d then behind d p else a # ord d s @ behind d p)"

definition hd0 :: "addr list \<Rightarrow> addr" where
  "hd0 xs = (if xs = [] then 0 else hd xs)"

lemma ord_mk: "ord d (mk d c t a s) = ord d s @ a # ord d t"
  by (cases d) (auto simp: ord_def)

lemma ord_plug: "\<exists>xs. \<forall>t. ord d (plug t p) = xs @ ord d t @ behind d p"
proof (induction p)
  case Nil
  show ?case by (intro exI [of _ "[]"]) simp
next
  case (Cons f p)
  obtain e c a s where f: "f = Fr e c a s" by (cases f)
  obtain xs where xs: "\<forall>t. ord d (plug t p) = xs @ ord d t @ behind d p" using Cons.IH by blast
  show ?case
  proof (cases "e = d")
    case True
    then show ?thesis using xs f by (intro exI [of _ "xs @ ord d s @ [a]"]) (simp add: ord_mk)
  next
    case False
    then have e: "e = opp d" by (cases d; cases e) auto
    then show ?thesis using xs f by (intro exI [of _ xs]) (simp add: ord_mk mk_opp)
  qed
qed

lemma far_hd:
  assumes "tree_at h pp x t" and "t \<noteq> Lf"
  shows "rb_far (opp d) h x = Some (hd (ord d t))"
proof -
  obtain q c s u where q: "rb_far (opp d) h x = Some s" "t = plug (mk (opp d) c Lf s u) q"
      "\<forall>f \<in> set q. \<exists>c a s. f = Fr (opp d) c a s" using far_ok [OF assms] by blast
  have "\<exists>ys. \<forall>t. ord d (plug t q) = ord d t @ ys" using q(3)
  proof (induction q)
    case (Cons f q)
    then obtain c a s ys where "f = Fr (opp d) c a s" "\<forall>t. ord d (plug t q) = ord d t @ ys" by auto
    then show ?case by (intro exI [of _ "a # ord d s @ ys"]) (simp add: mk_opp ord_mk)
  qed simp
  then show ?thesis using q by (auto simp: mk_opp ord_mk) (simp add: ord_def)
qed

lemma climb_ok:
  assumes "repr h (plug t p)" and "t \<noteq> Lf"
  shows "rb_climb d h (rt t) = Some (hd0 (behind d p))"
  using assms
proof (induction p arbitrary: t)
  case Nil
  then show ?case using repr_focus(2) [of h t "[]"] by (subst rb_climb.simps) (simp add: hd0_def)
next
  case (Cons f p)
  obtain e c a s where f: "f = Fr e c a s" by (cases f)
  have m: "repr h (plug (mk e c t a s) p)" using Cons.prems f by simp
  note k = repr_mk [OF m] repr_siblings [OF m Cons.prems(2)]
  have pa: "rb_parent h (rt t) = a" using repr_focus(2) [OF Cons.prems] f by simp
  show ?case
  proof (cases "e = d")
    case True
    then have "rb_climb d h (rt t) = rb_climb d h a" using pa k by (subst rb_climb.simps) simp
    then show ?thesis using Cons.IH [OF m] True f by simp
  next
    case False
    then have "e = opp d" by (cases d; cases e) auto
    then have "rb_climb d h (rt t) = Some a" using pa k by (subst rb_climb.simps) simp
    then show ?thesis using False f by (simp add: hd0_def)
  qed
qed

lemma step_ok:
  assumes r: "repr h (plug (mk d c t x s) p)"
  shows "rb_step d h x = Some (hd0 (ord d t @ behind d p))"
proof -
  note m = repr_mk [OF r]
  have "tree_at h x (rb_child h d x) t" using r by (auto simp: repr_plug)
  then have t: "tree_at h x (rt t) t" using m(4) by simp
  have "x \<noteq> up 0 p" using r m(1) up_in_path [of p 0] by (cases "p = []") (auto simp: repr_plug)
  then have np: "rb_parent h x \<noteq> x" using m by simp
  show ?thesis
  proof (cases "t = Lf")
    case True
    then show ?thesis using climb_ok [OF r, of d] m np by (simp add: rb_step_def ord_def)
  next
    case False
    then have "ord d t \<noteq> []" by (cases t) (auto simp: ord_def)
    then show ?thesis
      using far_hd [OF t False, of d] False m np tree_at_root [OF t] by (simp add: rb_step_def hd0_def)
  qed
qed

lemma step_split:
  assumes "repr h t" and "ord d t = xs @ x # ys"
  shows "rb_step d h x = Some (hd0 ys)"
proof -
  have ds: "distinct (ord d t)" using assms(1) by (simp add: ord_def repr_def)
  have "x \<in> set (ord d t)" using assms(2) by simp
  then have "x \<in> set (nodes t)" by (simp add: ord_def split: if_splits)
  then obtain c l r p where t: "t = plug (Nd c l x r) p" using node_position by blast
  obtain u s where us: "Nd c l x r = mk d c u x s" by (cases d) auto
  obtain zs where "\<forall>t. ord d (plug t p) = zs @ ord d t @ behind d p" using ord_plug by blast
  then have "xs @ x # ys = (zs @ ord d s) @ x # (ord d u @ behind d p)" using assms(2) t us by (simp add: ord_mk)
  moreover have "x \<notin> set xs" "x \<notin> set ys" using ds assms(2) by auto
  ultimately have "ys = ord d u @ behind d p" by (metis append_Cons_eq_iff)
  then show ?thesis using step_ok [of h d c u x s p] assms(1) t us by simp
qed

section \<open>Properties\<close>

text \<open>C12: Linking a new node into a free slot of a red-black tree and calling
  \<^verbatim>\<open>rb_insert_color\<close> returns, without following a null pointer, a red-black tree with
  consistent parent pointers whose nodes are the old ones with the new one next to the node
  it was linked to, on that side.\<close>

theorem rb_insert_ok:
  assumes "repr h t" and "rb_ok t" and "node \<noteq> 0" and "node \<notin> set (nodes t)" and "free_slot h t parent d"
  shows "\<exists>h' t'. rb_insert_color node (rb_link_node node parent d h) = Some h' \<and> repr h' t' \<and> rb_ok t' \<and>
    nodes t' = ins_next d parent node (nodes t)"
  by (rule insert_ok [OF assms])

definition three_heap :: rb_heap where
  "three_heap = \<lparr>rb_parent = (\<lambda>_. 0)(1 := 2, 3 := 2),
     rb_child = (\<lambda>d. case d of L \<Rightarrow> (\<lambda>_. 0)(2 := 1) | R \<Rightarrow> (\<lambda>_. 0)(2 := 3)),
     rb_color = (\<lambda>_. Black)(1 := Red, 3 := Red), rb_root = 2\<rparr>"

definition three_tree :: rbt where
  "three_tree = Nd Black (Nd Red Lf 1 Lf) 2 (Nd Red Lf 3 Lf)"

lemma three_repr: "repr three_heap three_tree" "rb_ok three_tree"
  by (simp_all add: repr_def three_heap_def three_tree_def rb_ok_def)

theorem rb_insert_ok_witness:
  "\<exists>h' t'. rb_insert_color 9 (rb_link_node 9 3 L three_heap) = Some h' \<and> repr h' t' \<and> rb_ok t' \<and>
    nodes t' = [1, 2, 9, 3]"
proof -
  have "free_slot three_heap three_tree 3 L" by (simp add: free_slot_def three_heap_def three_tree_def)
  then have "\<exists>h' t'. rb_insert_color 9 (rb_link_node 9 3 L three_heap) = Some h' \<and> repr h' t' \<and> rb_ok t' \<and>
      nodes t' = ins_next L 3 9 (nodes three_tree)"
    by (intro rb_insert_ok three_repr) (simp_all add: three_tree_def)
  then show ?thesis by (simp add: three_tree_def)
qed

text \<open>C8: \<^verbatim>\<open>rb_erase\<close> of any node of a red-black tree returns, without following a null
  pointer, a red-black tree with consistent parent pointers that has all other nodes in
  their order.\<close>

theorem rb_erase_ok:
  assumes "repr h t" and "rb_ok t" and "x \<in> set (nodes t)"
  shows "\<exists>h' t'. rb_erase x h = Some h' \<and> repr h' t' \<and> rb_ok t' \<and> nodes t' = remove1 x (nodes t)"
  by (rule erase_ok [OF assms])

theorem rb_erase_ok_witness:
  "\<exists>h' t'. rb_erase 2 three_heap = Some h' \<and> repr h' t' \<and> rb_ok t' \<and> nodes t' = [1, 3]"
proof -
  have "2 \<in> set (nodes three_tree)" by (simp add: three_tree_def)
  from rb_erase_ok [OF three_repr this] show ?thesis by (simp add: three_tree_def)
qed

text \<open>The trees a sequence of insertions and deletions builds from the empty one, with their
  nodes in order.\<close>

inductive rb_history :: "rb_heap \<Rightarrow> addr list \<Rightarrow> bool" where
  rh_empty: "rb_root h = 0 \<Longrightarrow> rb_history h []"
| rh_insert: "rb_history h xs \<Longrightarrow> node \<noteq> 0 \<Longrightarrow> node \<notin> set xs \<Longrightarrow>
    (xs = [] \<and> parent = 0) \<or> (parent \<in> set xs \<and> rb_child h d parent = 0) \<Longrightarrow>
    rb_insert_color node (rb_link_node node parent d h) = Some h' \<Longrightarrow>
    rb_history h' (ins_next d parent node xs)"
| rh_erase: "rb_history h xs \<Longrightarrow> x \<in> set xs \<Longrightarrow> rb_erase x h = Some h' \<Longrightarrow> rb_history h' (remove1 x xs)"

lemma history_repr: "rb_history h xs \<Longrightarrow> \<exists>t. repr h t \<and> rb_ok t \<and> nodes t = xs"
proof (induction rule: rb_history.induct)
  case (rh_empty h)
  then show ?case by (intro exI [of _ Lf]) (simp add: repr_def rb_ok_def)
next
  case (rh_insert h xs node parent d h')
  then obtain t where t: "repr h t" "rb_ok t" "nodes t = xs" by blast
  have "free_slot h t parent d" using rh_insert t by (cases t) (auto simp: free_slot_def)
  from insert_ok [OF t(1,2) _ _ this, of node] rh_insert t show ?case by auto
next
  case (rh_erase h xs x h')
  then show ?case using erase_ok by fastforce
qed

text \<open>C3: Whatever insertions and deletions built the tree, it holds the nodes in the order
  they were linked, no path is longer than twice the logarithm of their number, and
  \<^verbatim>\<open>rb_first\<close>, \<^verbatim>\<open>rb_next\<close> and \<^verbatim>\<open>rb_prev\<close> walk the nodes in exactly this order, ending with the
  null pointer.\<close>

theorem rb_history_ordered:
  assumes "rb_history h xs"
  shows "\<exists>t. repr h t \<and> nodes t = xs \<and> 2 ^ (depth t div 2) \<le> length xs + 1 \<and> rb_first h = Some (hd0 xs) \<and>
    (\<forall>ys x zs. xs = ys @ x # zs \<longrightarrow> rb_next h x = Some (hd0 zs) \<and> rb_prev h x = Some (hd0 (rev ys)))"
proof -
  obtain t where t: "repr h t" "rb_ok t" "nodes t = xs" using history_repr [OF assms] by blast
  have "rb_first h = Some (hd0 xs)"
  proof (cases "t = Lf")
    case True
    then show ?thesis using t repr_root [OF t(1)] by (simp add: rb_first_def hd0_def)
  next
    case False
    have a: "tree_at h 0 (rb_root h) t" using t(1) by (simp add: repr_def)
    then have "rb_far L h (rb_root h) = Some (hd (nodes t))" using far_hd [OF a False, of R] by (simp add: ord_def)
    moreover have "nodes t \<noteq> []" using False by (cases t) auto
    ultimately show ?thesis using tree_at_root [OF a] False t by (simp add: rb_first_def hd0_def)
  qed
  moreover have "rb_next h x = Some (hd0 zs) \<and> rb_prev h x = Some (hd0 (rev ys))" if "xs = ys @ x # zs" for ys x zs
    using step_split [OF t(1), of R ys x zs] step_split [OF t(1), of L "rev zs" x "rev ys"] that t(3)
    by (simp add: ord_def rb_next_def rb_prev_def)
  ultimately show ?thesis using t rb_ok_depth [OF t(2)] by (intro exI [of _ t]) auto
qed

definition one_heap :: rb_heap where
  "one_heap = set_color 7 Black (rb_link_node 7 0 L rb_empty)"

theorem rb_history_ordered_witness:
  "rb_history one_heap [7] \<and> rb_first one_heap = Some 7 \<and> rb_next one_heap 7 = Some 0"
proof -
  let ?h = "rb_link_node 7 0 L rb_empty"
  have "rb_insert_loop 7 ?h = Some ?h"
    by (subst rb_insert_loop.simps) (simp add: rb_link_node_def rb_upd)
  then have i: "rb_insert_color 7 ?h = Some one_heap"
    by (simp add: rb_insert_color_def one_heap_def) (simp add: rb_link_node_def rb_upd)
  have "rb_history rb_empty []" by (rule rh_empty) (simp add: rb_empty_def)
  from rh_insert [OF this _ _ _ i] have h: "rb_history one_heap [7]" by simp
  from rb_history_ordered [OF h] have f: "rb_first one_heap = Some (hd0 [7])"
    and w: "\<forall>ys x zs. [7] = ys @ x # zs \<longrightarrow> rb_next one_heap x = Some (hd0 zs) \<and> rb_prev one_heap x = Some (hd0 (rev ys))"
    by blast+
  have "rb_next one_heap 7 = Some (hd0 [])" using w by fastforce
  then show ?thesis using h f by (simp add: hd0_def)
qed

end
