(* ===== verification/Tree_Index.thy ===== *)
theory Tree_Index
  imports RBTree_Correct
begin

text \<open>
  The contract between the red-black tree and its clients: an index of objects ordered by a
  key, with insertion at the place the key determines and deletion. The client lemmas
  proved from it: insertion into a given gap, and a change of the key of an object that
  stays between its neighbours.
\<close>

section \<open>The place a key determines\<close>

lemma ins_next_append:
  "a \<in> set xs \<Longrightarrow> ins_next d a n (xs @ ys) = ins_next d a n xs @ ys"
  "a \<notin> set xs \<Longrightarrow> ys \<noteq> [] \<Longrightarrow> ins_next d a n (xs @ ys) = xs @ ins_next d a n ys"
  by (induction xs) auto

abbreviation (input) put_key :: "(addr \<Rightarrow> 'k::linorder) \<Rightarrow> 'k \<Rightarrow> addr \<Rightarrow> addr list \<Rightarrow> addr list" where
  "put_key key k v xs \<equiv> takeWhile (\<lambda>b. key b \<le> k) xs @ v # dropWhile (\<lambda>b. key b \<le> k) xs"

lemma put_key_left:
  assumes "k < key a"
  shows "put_key key k v (xs @ a # ys) = put_key key k v xs @ a # ys"
  using assms by (induction xs) auto

lemma put_key_right:
  assumes "sorted (map key (xs @ a # ys))" and "\<not> k < key a"
  shows "put_key key k v (xs @ a # ys) = xs @ a # put_key key k v ys"
proof -
  have "\<forall>b \<in> set xs. key b \<le> key a" using assms(1) by (simp add: sorted_append)
  moreover have "key a \<le> k" using assms(2) by simp
  ultimately have "\<forall>b \<in> set xs. key b \<le> k" by (meson order_trans)
  with \<open>key a \<le> k\<close> show ?thesis by (simp add: takeWhile_append dropWhile_append)
qed

section \<open>The interface\<close>

locale ordered_index =
  fixes index :: "'h \<Rightarrow> addr list \<Rightarrow> bool"
    and ins :: "(addr \<Rightarrow> 'k::linorder) \<Rightarrow> addr \<Rightarrow> 'h \<Rightarrow> 'h option"
    and del :: "addr \<Rightarrow> 'h \<Rightarrow> 'h option"
  assumes index_distinct: "index h xs \<Longrightarrow> distinct xs \<and> 0 \<notin> set xs"
    and ins_law: "index h xs \<Longrightarrow> sorted (map key xs) \<Longrightarrow> a \<noteq> 0 \<Longrightarrow> a \<notin> set xs \<Longrightarrow>
      \<exists>h'. ins key a h = Some h' \<and>
        index h' (takeWhile (\<lambda>b. key b \<le> key a) xs @ a # dropWhile (\<lambda>b. key b \<le> key a) xs)"
    and del_law: "index h xs \<Longrightarrow> a \<in> set xs \<Longrightarrow> \<exists>h'. del a h = Some h' \<and> index h' (remove1 a xs)"
begin

lemma ins_gap:
  assumes "index h (xs @ ys)" and "sorted_wrt (<) (map key (xs @ a # ys))" and "a \<noteq> 0" "a \<notin> set (xs @ ys)"
  shows "\<exists>h'. ins key a h = Some h' \<and> index h' (xs @ a # ys)"
proof -
  have k: "\<forall>b \<in> set xs. key b \<le> key a" "\<forall>b \<in> set ys. \<not> key b \<le> key a"
    using assms(2) by (fastforce simp: sorted_wrt_append)+
  have "sorted (map key (xs @ ys))"
    using assms(2) by (intro strict_sorted_imp_sorted) (auto simp: sorted_wrt_append)
  moreover have "takeWhile (\<lambda>b. key b \<le> key a) (xs @ ys) = xs" "dropWhile (\<lambda>b. key b \<le> key a) (xs @ ys) = ys"
    using k by (cases ys; simp add: takeWhile_append dropWhile_append)+
  ultimately show ?thesis using ins_law [OF assms(1) _ assms(3,4)] by fastforce
qed

lemma del_gap:
  assumes "index h (xs @ a # ys)"
  shows "\<exists>h'. del a h = Some h' \<and> index h' (xs @ ys)"
  using del_law [OF assms, of a] index_distinct [OF assms] by (simp add: remove1_append)

lemma move_key:
  assumes "index h (xs @ a # ys)" and "sorted_wrt (<) (map key (xs @ a # ys))"
  shows "\<exists>h1 h2. del a h = Some h1 \<and> ins key a h1 = Some h2 \<and> index h2 (xs @ a # ys)"
proof -
  obtain h1 where h1: "del a h = Some h1" "index h1 (xs @ ys)" using del_gap [OF assms(1)] by blast
  have "a \<noteq> 0" "a \<notin> set (xs @ ys)" using index_distinct [OF assms(1)] by auto
  from ins_gap [OF h1(2) assms(2) this] h1 show ?thesis by blast
qed

end

text \<open>What the tree provides: the nodes of a balanced tree in order.\<close>

definition rb_index :: "rb_heap \<Rightarrow> addr list \<Rightarrow> bool" where
  "rb_index h xs \<longleftrightarrow> (\<exists>t. repr h t \<and> rb_ok t \<and> nodes t = xs)"

lemma rb_index_distinct: "rb_index h xs \<Longrightarrow> distinct xs \<and> 0 \<notin> set xs"
  by (auto simp: rb_index_def repr_def dest: nodes_not_0)

lemma rb_index_erase: "rb_index h xs \<Longrightarrow> a \<in> set xs \<Longrightarrow> \<exists>h'. rb_erase a h = Some h' \<and> rb_index h' (remove1 a xs)"
  unfolding rb_index_def using erase_ok by metis

lemma rb_index_empty: "rb_root h = 0 \<Longrightarrow> rb_index h []"
  unfolding rb_index_def by (intro exI [of _ Lf]) (simp add: repr_def rb_ok_def)

end
