(* ===== verification/Vma.thy ===== *)
theory Vma
  imports Tree_Index
begin

text \<open>
  The registry of a process's memory regions (\<^verbatim>\<open>kernel/mm/vma.c\<close>). A region is an address
  with a record; the chain through \<^verbatim>\<open>next\<close> is the list of the addresses, the tree is the
  store of \<open>RBTree\<close> with the same addresses as nodes. \<^verbatim>\<open>kmalloc\<close> hands out addresses that
  were never used before; \<open>mem\<close> says which of its calls succeed, by the address they would
  return. A result \<open>None\<close> is a null pointer followed or a loop that does not end inside the
  tree. What runs under \<^verbatim>\<open>vma_lock\<close> is one function.
\<close>

section \<open>Data\<close>

text \<open>The field \<^verbatim>\<open>uffd_ctx\<close> of a region, which \<^verbatim>\<open>vma.c\<close> never reads, is left out.\<close>

record vm_area =
  va_start :: u64
  va_end :: u64
  va_prot :: u32
  va_flags :: u32

record vma_mm =
  vma_list :: "addr list"
  vma_area :: "addr \<Rightarrow> vm_area"
  vma_tree :: rb_heap
  vmacache_seqnum :: u32
  vma_fresh :: addr

definition VMA_F_LOCKED :: u32 where "VMA_F_LOCKED = 0x40"
definition VMA_F_SEALED :: u32 where "VMA_F_SEALED = 0x100"

definition set_area :: "addr \<Rightarrow> vm_area \<Rightarrow> vma_mm \<Rightarrow> vma_mm" where
  "set_area v a m = m\<lparr>vma_area := (vma_area m)(v := a)\<rparr>"

abbreviation (input) start_of :: "vma_mm \<Rightarrow> addr \<Rightarrow> u64" where
  "start_of m v \<equiv> va_start (vma_area m v)"

abbreviation (input) end_of :: "vma_mm \<Rightarrow> addr \<Rightarrow> u64" where
  "end_of m v \<equiv> va_end (vma_area m v)"

definition vma_new :: "(addr \<Rightarrow> bool) \<Rightarrow> vm_area \<Rightarrow> vma_mm \<Rightarrow> vma_mm \<times> addr" where
  "vma_new mem a m =
     (let v = vma_fresh m; m1 = m\<lparr>vma_fresh := Suc v\<rparr>
      in if mem v then (set_area v a m1, v) else (m1, 0))"

section \<open>Linking\<close>

text \<open>The descent of \<^verbatim>\<open>vma_rb_insert\<close>: the parent of the free slot and its side.\<close>

partial_function (option) vma_rb_search ::
    "(addr \<Rightarrow> u64) \<Rightarrow> u64 \<Rightarrow> rb_heap \<Rightarrow> addr \<Rightarrow> addr \<Rightarrow> dir \<Rightarrow> (addr \<times> dir) option" where
  "vma_rb_search key k h node parent d =
     (if node = 0 then Some (parent, d)
      else if k < key node then vma_rb_search key k h (rb_child h L node) node L
      else vma_rb_search key k h (rb_child h R node) node R)"

definition vma_rb_insert :: "(addr \<Rightarrow> u64) \<Rightarrow> addr \<Rightarrow> rb_heap \<Rightarrow> rb_heap option" where
  "vma_rb_insert key v h =
     do { (parent, d) \<leftarrow> vma_rb_search key (key v) h (rb_root h) 0 L;
          rb_insert_color v (rb_link_node v parent d h) }"

definition vma_tree_insert :: "addr \<Rightarrow> vma_mm \<Rightarrow> vma_mm option" where
  "vma_tree_insert v m =
     do { t \<leftarrow> vma_rb_insert (start_of m) v (vma_tree m); Some (m\<lparr>vma_tree := t\<rparr>) }"

definition vma_tree_erase :: "addr \<Rightarrow> vma_mm \<Rightarrow> vma_mm option" where
  "vma_tree_erase v m = do { t \<leftarrow> rb_erase v (vma_tree m); Some (m\<lparr>vma_tree := t\<rparr>) }"

definition vma_link :: "addr \<Rightarrow> vma_mm \<Rightarrow> vma_mm option" where
  "vma_link v m =
     (let before = (\<lambda>w. start_of m w < start_of m v)
      in vma_tree_insert v
           (m\<lparr>vma_list := takeWhile before (vma_list m) @ v # dropWhile before (vma_list m)\<rparr>))"

definition vmacache_invalidate :: "vma_mm \<Rightarrow> vma_mm" where
  "vmacache_invalidate m = m\<lparr>vmacache_seqnum := vmacache_seqnum m + 1\<rparr>"

section \<open>Coalescing\<close>

text \<open>The first region that ends behind \<open>start\<close>, found in the tree.\<close>

partial_function (option) vma_first_behind ::
    "vma_mm \<Rightarrow> u64 \<Rightarrow> addr \<Rightarrow> addr \<Rightarrow> addr option" where
  "vma_first_behind m start node first =
     (if node = 0 then Some first
      else if end_of m node \<le> start then vma_first_behind m start (rb_child (vma_tree m) R node) first
      else if start_of m node > start then vma_first_behind m start (rb_child (vma_tree m) L node) node
      else Some node)"

text \<open>The merging loop: \<open>pre\<close> is the part of the chain before the current region.\<close>

fun vma_merge_loop :: "u64 \<Rightarrow> addr list \<Rightarrow> addr list \<Rightarrow> vma_mm \<Rightarrow> vma_mm option" where
  "vma_merge_loop en pre (v # n # rest) m =
     (if end_of m v \<le> en then
        (if end_of m v = start_of m n \<and> va_prot (vma_area m v) = va_prot (vma_area m n) \<and>
            va_flags (vma_area m v) = va_flags (vma_area m n)
         then do { m1 \<leftarrow> vma_tree_erase n (set_area v ((vma_area m v)\<lparr>va_end := end_of m n\<rparr>) m);
                   vma_merge_loop en pre (v # rest) m1 }
         else vma_merge_loop en (pre @ [v]) (n # rest) m)
      else Some (m\<lparr>vma_list := pre @ v # n # rest\<rparr>))"
| "vma_merge_loop en pre rest m = Some (m\<lparr>vma_list := pre @ rest\<rparr>)"

text \<open>Without a region behind \<open>start\<close> the loop starts at the head, otherwise at the
  predecessor of the region, if there is one.\<close>

definition vma_coalesce_range :: "u64 \<Rightarrow> u64 \<Rightarrow> vma_mm \<Rightarrow> vma_mm option" where
  "vma_coalesce_range start en m =
     do { f \<leftarrow> vma_first_behind m start (rb_root (vma_tree m)) 0;
          first \<leftarrow> (if f = 0 then Some (case vma_list m of [] \<Rightarrow> 0 | v # _ \<Rightarrow> v)
                   else do { q \<leftarrow> rb_prev (vma_tree m) f; Some (if q \<noteq> 0 then q else f) });
          vma_merge_loop en (takeWhile (\<lambda>v. v \<noteq> first) (vma_list m)) (dropWhile (\<lambda>v. v \<noteq> first) (vma_list m)) m }"

section \<open>Removing and adding\<close>

fun vma_remove_loop ::
    "(addr \<Rightarrow> bool) \<Rightarrow> u64 \<Rightarrow> u64 \<Rightarrow> addr list \<Rightarrow> addr list \<Rightarrow> vma_mm \<Rightarrow> vma_mm option" where
  "vma_remove_loop mem start en pre [] m = Some (m\<lparr>vma_list := pre\<rparr>)"
| "vma_remove_loop mem start en pre (v # rest) m =
     (let a = vma_area m v
      in if va_end a \<le> start \<or> va_start a \<ge> en then vma_remove_loop mem start en (pre @ [v]) rest m
         else if va_start a \<ge> start \<and> va_end a \<le> en then
           do { m1 \<leftarrow> vma_tree_erase v m; vma_remove_loop mem start en pre rest m1 }
         else if va_start a < start \<and> va_end a > en then
           (let (m1, tl) = vma_new mem (a\<lparr>va_start := en\<rparr>) m
            in if tl \<noteq> 0
               then do { m2 \<leftarrow> vma_tree_insert tl (set_area v (a\<lparr>va_end := start\<rparr>) m1);
                         vma_remove_loop mem start en (pre @ [v, tl]) rest m2 }
               else vma_remove_loop mem start en (pre @ [v]) rest m1)
         else if va_start a < start then
           vma_remove_loop mem start en (pre @ [v]) rest (set_area v (a\<lparr>va_end := start\<rparr>) m)
         else
           do { m1 \<leftarrow> vma_tree_erase v m;
                m2 \<leftarrow> vma_tree_insert v (set_area v (a\<lparr>va_start := en\<rparr>) m1);
                vma_remove_loop mem start en (pre @ [v]) rest m2 })"

definition vma_remove_locked :: "(addr \<Rightarrow> bool) \<Rightarrow> u64 \<Rightarrow> u64 \<Rightarrow> vma_mm \<Rightarrow> vma_mm option" where
  "vma_remove_locked mem start en m = vma_remove_loop mem start en [] (vma_list m) m"

definition vma_add ::
    "(addr \<Rightarrow> bool) \<Rightarrow> u64 \<Rightarrow> u64 \<Rightarrow> u32 \<Rightarrow> u32 \<Rightarrow> vma_mm \<Rightarrow> (vma_mm \<times> (errno + unit)) option" where
  "vma_add mem start en prot flags m =
     (if en \<le> start then Some (m, Inr ())
      else let (m1, v) = vma_new mem \<lparr>va_start = start, va_end = en, va_prot = prot, va_flags = flags\<rparr> m
        in if v = 0 then Some (m1, Inl ENOMEM)
           else do { m2 \<leftarrow> vma_remove_locked mem start en m1;
                     m3 \<leftarrow> vma_link v m2;
                     m4 \<leftarrow> vma_coalesce_range start en m3;
                     Some (vmacache_invalidate m4, Inr ()) })"

definition vma_remove :: "(addr \<Rightarrow> bool) \<Rightarrow> u64 \<Rightarrow> u64 \<Rightarrow> vma_mm \<Rightarrow> vma_mm option" where
  "vma_remove mem start en m =
     (if en \<le> start then Some m
      else do { m1 \<leftarrow> vma_remove_locked mem start en m; Some (vmacache_invalidate m1) })"

section \<open>Changing regions in place\<close>

text \<open>\<^verbatim>\<open>vma_setprot\<close>, \<^verbatim>\<open>vma_set_locked\<close> and \<^verbatim>\<open>vma_seal\<close> share this loop up to the last
  assignment of its body, \<open>upd\<close>. The spare regions \<open>sa\<close> and \<open>sb\<close> are \<open>0\<close> once used. The result
  of a turn is the state, the spares, and the chain before and from the next region.\<close>

definition vma_update_turn ::
    "(vm_area \<Rightarrow> vm_area) \<Rightarrow> u64 \<Rightarrow> u64 \<Rightarrow> addr \<Rightarrow> addr \<Rightarrow> addr list \<Rightarrow> addr \<Rightarrow> addr list \<Rightarrow> vma_mm
     \<Rightarrow> (vma_mm \<times> addr \<times> addr \<times> addr list \<times> addr list) option" where
  "vma_update_turn upd start en sa sb pre v rest m =
     (if end_of m v \<le> start \<or> start_of m v \<ge> en then Some (m, sa, sb, pre @ [v], rest)
      else
        do { (m1, sa1, pre1, v1) \<leftarrow>
               (if start_of m v < start \<and> sa \<noteq> 0
                then do { m' \<leftarrow> vma_tree_insert sa (set_area v ((vma_area m v)\<lparr>va_end := start\<rparr>)
                                (set_area sa ((vma_area m v)\<lparr>va_start := start\<rparr>) m));
                          Some (m', 0, pre @ [v], sa) }
                else Some (m, sa, pre, v));
             (m2, sb1, rest1) \<leftarrow>
               (if end_of m1 v1 > en \<and> sb \<noteq> 0
                then do { m' \<leftarrow> vma_tree_insert sb (set_area v1 ((vma_area m1 v1)\<lparr>va_end := en\<rparr>)
                                (set_area sb ((vma_area m1 v1)\<lparr>va_start := en\<rparr>) m1));
                          Some (m', 0, sb # rest) }
                else Some (m1, sb, rest));
             Some (set_area v1 (upd (vma_area m2 v1)) m2, sa1, sb1, pre1 @ [v1], rest1) })"

partial_function (option) vma_update_loop ::
    "(vm_area \<Rightarrow> vm_area) \<Rightarrow> u64 \<Rightarrow> u64 \<Rightarrow> addr \<Rightarrow> addr \<Rightarrow> addr list \<Rightarrow> addr list \<Rightarrow> vma_mm \<Rightarrow> vma_mm option" where
  "vma_update_loop upd start en sa sb pre rest m =
     (case rest of [] \<Rightarrow> Some (m\<lparr>vma_list := pre\<rparr>)
      | v # rest' \<Rightarrow>
          do { (m1, sa1, sb1, pre1, rest1) \<leftarrow> vma_update_turn upd start en sa sb pre v rest' m;
               vma_update_loop upd start en sa1 sb1 pre1 rest1 m1 })"

definition vma_update ::
    "(vm_area \<Rightarrow> vm_area) \<Rightarrow> (addr \<Rightarrow> bool) \<Rightarrow> u64 \<Rightarrow> u64 \<Rightarrow> vma_mm \<Rightarrow> (vma_mm \<times> (errno + unit)) option" where
  "vma_update upd mem start en m =
     (if en \<le> start then Some (m, Inr ())
      else let blank = \<lparr>va_start = 0, va_end = 1, va_prot = 0, va_flags = 0\<rparr>;
               (m1, sa) = vma_new mem blank m;
               (m2, sb) = vma_new mem blank m1
        in if sa = 0 \<or> sb = 0 then Some (m2, Inl ENOMEM)
           else do { m3 \<leftarrow> vma_update_loop upd start en sa sb [] (vma_list m2) m2;
                     m4 \<leftarrow> vma_coalesce_range start en m3;
                     Some (vmacache_invalidate m4, Inr ()) })"

definition lock_area :: "bool \<Rightarrow> vm_area \<Rightarrow> vm_area" where
  "lock_area locked a =
     (if locked then a\<lparr>va_flags := va_flags a OR VMA_F_LOCKED\<rparr> else a\<lparr>va_flags := va_flags a AND NOT VMA_F_LOCKED\<rparr>)"

definition vma_setprot ::
    "(addr \<Rightarrow> bool) \<Rightarrow> u64 \<Rightarrow> u64 \<Rightarrow> u32 \<Rightarrow> vma_mm \<Rightarrow> (vma_mm \<times> (errno + unit)) option" where
  "vma_setprot mem start en prot m = vma_update (\<lambda>a. a\<lparr>va_prot := prot\<rparr>) mem start en m"

definition vma_set_locked ::
    "(addr \<Rightarrow> bool) \<Rightarrow> u64 \<Rightarrow> u64 \<Rightarrow> bool \<Rightarrow> vma_mm \<Rightarrow> (vma_mm \<times> (errno + unit)) option" where
  "vma_set_locked mem start en locked m = vma_update (lock_area locked) mem start en m"

definition vma_seal ::
    "(addr \<Rightarrow> bool) \<Rightarrow> u64 \<Rightarrow> u64 \<Rightarrow> vma_mm \<Rightarrow> (vma_mm \<times> (errno + unit)) option" where
  "vma_seal mem start en m = vma_update (\<lambda>a. a\<lparr>va_flags := va_flags a OR VMA_F_SEALED\<rparr>) mem start en m"

definition vma_set_locked_all :: "bool \<Rightarrow> vma_mm \<Rightarrow> vma_mm option" where
  "vma_set_locked_all locked m =
     do { m1 \<leftarrow> vma_coalesce_range 0 (-1)
            (foldl (\<lambda>m v. set_area v (lock_area locked (vma_area m v)) m) m (vma_list m));
          Some (vmacache_invalidate m1) }"

section \<open>Looking up\<close>

text \<open>The cache of a thread: its sequence number and four regions.\<close>

record vma_cache =
  vc_seqnum :: u32
  vc_slots :: "addr list"

partial_function (option) vma_probe_tree :: "vma_mm \<Rightarrow> u64 \<Rightarrow> addr \<Rightarrow> addr option" where
  "vma_probe_tree m addr node =
     (if node = 0 then Some 0
      else if addr < start_of m node then vma_probe_tree m addr (rb_child (vma_tree m) L node)
      else if addr \<ge> end_of m node then vma_probe_tree m addr (rb_child (vma_tree m) R node)
      else Some node)"

definition vma_probe :: "vma_mm \<Rightarrow> u64 \<Rightarrow> vma_cache \<Rightarrow> (vma_cache \<times> u32 option) option" where
  "vma_probe m addr t =
     (let t1 = (if vc_seqnum t \<noteq> vmacache_seqnum m
                then \<lparr>vc_seqnum = vmacache_seqnum m, vc_slots = [0, 0, 0, 0]\<rparr> else t)
      in case find (\<lambda>cv. cv \<noteq> 0 \<and> addr \<ge> start_of m cv \<and> addr < end_of m cv) (vc_slots t1) of
           Some cv \<Rightarrow> Some (t1, Some (va_prot (vma_area m cv)))
         | None \<Rightarrow>
             do { v \<leftarrow> vma_probe_tree m addr (rb_root (vma_tree m));
                  Some (if v = 0 then (t1, None)
                        else (t1\<lparr>vc_slots := v # butlast (vc_slots t1)\<rparr>, Some (va_prot (vma_area m v)))) })"

partial_function (option) vma_find_from :: "vma_mm \<Rightarrow> u64 \<Rightarrow> addr \<Rightarrow> addr \<Rightarrow> addr option" where
  "vma_find_from m start node best =
     (if node = 0 then Some best
      else if end_of m node > start then
        (if start_of m node \<le> start then Some node
         else vma_find_from m start (rb_child (vma_tree m) L node) node)
      else vma_find_from m start (rb_child (vma_tree m) R node) best)"

definition vma_find_intersection :: "vma_mm \<Rightarrow> u64 \<Rightarrow> u64 \<Rightarrow> addr option" where
  "vma_find_intersection m start en =
     do { best \<leftarrow> vma_find_from m start (rb_root (vma_tree m)) 0;
          Some (if best \<noteq> 0 \<and> start_of m best < en then best else 0) }"

definition vma_range_has_flags :: "vma_mm \<Rightarrow> u64 \<Rightarrow> u64 \<Rightarrow> u32 \<Rightarrow> bool option" where
  "vma_range_has_flags m start en flags =
     (if en \<le> start then Some False
      else do { v \<leftarrow> vma_find_intersection m start en;
                Some (\<exists>w \<in> set (takeWhile (\<lambda>w. start_of m w < en) (dropWhile (\<lambda>w. w \<noteq> v) (vma_list m))).
                        va_flags (vma_area m w) AND flags \<noteq> 0) })"

definition vma_is_sealed :: "vma_mm \<Rightarrow> u64 \<Rightarrow> u64 \<Rightarrow> bool option" where
  "vma_is_sealed m start en = vma_range_has_flags m start en VMA_F_SEALED"

section \<open>Reset and fork\<close>

definition vma_reset :: "vma_mm \<Rightarrow> vma_mm" where
  "vma_reset m = vmacache_invalidate (m\<lparr>vma_list := [], vma_tree := set_root 0 (vma_tree m)\<rparr>)"

text \<open>The loop over the source's regions: \<open>linked\<close> is whether \<^verbatim>\<open>tail\<close> is set. The first copy
  replaces whatever the chain of the destination was.\<close>

fun vma_clone_loop ::
    "(addr \<Rightarrow> bool) \<Rightarrow> vm_area list \<Rightarrow> bool \<Rightarrow> vma_mm \<Rightarrow> (vma_mm \<times> (errno + unit)) option" where
  "vma_clone_loop mem [] linked dst = Some (dst, Inr ())"
| "vma_clone_loop mem (a # as) linked dst =
     (let (d1, v) = vma_new mem a dst
      in if v = 0 then Some (d1\<lparr>vma_list := [], vma_tree := set_root 0 (vma_tree d1)\<rparr>, Inl ENOMEM)
         else do { d2 \<leftarrow> vma_tree_insert v (d1\<lparr>vma_list := (if linked then vma_list d1 @ [v] else [v])\<rparr>);
                   vma_clone_loop mem as True d2 })"

definition vma_clone ::
    "(addr \<Rightarrow> bool) \<Rightarrow> vma_mm \<Rightarrow> vma_mm \<Rightarrow> (vma_mm \<times> (errno + unit)) option" where
  "vma_clone mem dst src =
     vma_clone_loop mem (map (vma_area src) (vma_list src)) False
       (vmacache_invalidate (dst\<lparr>vma_tree := set_root 0 (vma_tree dst)\<rparr>))"

end
