(* ===== verification/Vma_Inv.thy ===== *)
theory Vma_Inv
  imports Vma
begin

text \<open>
  The regions of a process: the tree as an ordered index of the regions by their start (an
  interpretation of \<open>ordered_index\<close>), the invariant (chain and tree agree; regions non-empty,
  sorted and disjoint), the view of a registry as a map from addresses, and the proofs that
  merging, removing and linking keep the invariant and change the view as they should.
\<close>

section \<open>The descent finds the slot\<close>

lemma search_ok:
  assumes "tree_at h pp x t" and "t \<noteq> Lf" and "sorted (map key (nodes t))" and "distinct (nodes t)"
  shows "\<exists>a e. vma_rb_search key k h x p0 d0 = Some (a, e) \<and> a \<in> set (nodes t) \<and> rb_child h e a = 0 \<and>
    ins_next e a v (nodes t) = put_key key k v (nodes t)"
  using assms
proof (induction t arbitrary: pp x p0 d0)
  case (Nd c l a r)
  have x: "x = a" "a \<noteq> 0" and l: "tree_at h a (rb_child h L a) l" and r: "tree_at h a (rb_child h R a) r"
    using Nd.prems(1) by auto
  have sl: "sorted (map key (nodes l))" "sorted (map key (nodes r))" and dl: "distinct (nodes l)" "distinct (nodes r)"
    "a \<notin> set (nodes l)" "set (nodes l) \<inter> set (nodes r) = {}" "a \<notin> set (nodes r)"
    using Nd.prems(3,4) by (auto simp: sorted_append)
  have none: "vma_rb_search key k h 0 p d = Some (p, d)" for p d by (subst vma_rb_search.simps) simp
  show ?case
  proof (cases "k < key a")
    case True
    have step: "vma_rb_search key k h x p0 d0 = vma_rb_search key k h (rb_child h L a) a L"
      using x True by (subst vma_rb_search.simps) simp
    have pk: "put_key key k v (nodes (Nd c l a r)) = put_key key k v (nodes l) @ a # nodes r"
      using put_key_left [where key = key and a = a and v = v and xs = "nodes l" and ys = "nodes r", OF True] by simp
    show ?thesis
    proof (cases "l = Lf")
      case True
      then show ?thesis using step l pk none by simp
    next
      case False
      from Nd.IH(1) [OF l False sl(1) dl(1), of a L] obtain b e where
        b: "vma_rb_search key k h (rb_child h L a) a L = Some (b, e)" "b \<in> set (nodes l)" "rb_child h e b = 0"
          "ins_next e b v (nodes l) = put_key key k v (nodes l)" by blast
      then show ?thesis using step pk ins_next_append(1) [OF b(2), of e v "a # nodes r"] by auto
    qed
  next
    case False
    have step: "vma_rb_search key k h x p0 d0 = vma_rb_search key k h (rb_child h R a) a R"
      using x False by (subst vma_rb_search.simps) simp
    have pk: "put_key key k v (nodes (Nd c l a r)) = nodes l @ a # put_key key k v (nodes r)"
      using put_key_right [where key = key and a = a and v = v and xs = "nodes l" and ys = "nodes r", OF _ False] Nd.prems(3)
      by simp
    show ?thesis
    proof (cases "r = Lf")
      case True
      have "ins_next R a v (nodes l @ [a]) = nodes l @ [a, v]"
        using ins_next_split [OF dl(3), of R v "[]"] by simp
      then show ?thesis using step r pk none True by simp
    next
      case nr: False
      from Nd.IH(2) [OF r nr sl(2) dl(2), of a R] obtain b e where
        b: "vma_rb_search key k h (rb_child h R a) a R = Some (b, e)" "b \<in> set (nodes r)" "rb_child h e b = 0"
          "ins_next e b v (nodes r) = put_key key k v (nodes r)" by blast
      then have "b \<notin> set (nodes l @ [a])" "nodes r \<noteq> []" using dl by auto
      from ins_next_append(2) [OF this, of e v] b pk step show ?thesis by simp
    qed
  qed
qed simp

lemma rb_index_insert:
  assumes "rb_index h xs" and "sorted (map key xs)" and "v \<noteq> 0" "v \<notin> set xs"
  shows "\<exists>h'. vma_rb_insert key v h = Some h' \<and> rb_index h' (put_key key (key v) v xs)"
proof -
  obtain t where t: "repr h t" "rb_ok t" "nodes t = xs" using assms(1) by (auto simp: rb_index_def)
  have at: "tree_at h 0 (rb_root h) t" "distinct (nodes t)" using t by (auto simp: repr_def)
  obtain a e where a: "vma_rb_search key (key v) h (rb_root h) 0 L = Some (a, e)" "free_slot h t a e"
      "ins_next e a v (nodes t) = put_key key (key v) v (nodes t)"
  proof (cases "t = Lf")
    case True
    then have "vma_rb_search key (key v) h (rb_root h) 0 L = Some (0, L)"
      using at by (subst vma_rb_search.simps) simp
    with True that [of 0 L] show ?thesis by (simp add: free_slot_def)
  next
    case False
    then show ?thesis using search_ok [OF at(1) False, of key "key v" 0 L v] assms(2) t at that
      by (auto simp: free_slot_def)
  qed
  from insert_ok [OF t(1,2) assms(3) _ a(2)] assms(4) t(3) a show ?thesis
    by (auto simp: vma_rb_insert_def rb_index_def)
qed

interpretation vidx: ordered_index rb_index "vma_rb_insert" rb_erase
  by unfold_locales (fact rb_index_distinct, fact rb_index_insert, fact rb_index_erase)

section \<open>Sequences of disjoint regions\<close>

definition seq :: "(addr \<Rightarrow> vm_area) \<Rightarrow> addr list \<Rightarrow> bool" where
  "seq A xs \<longleftrightarrow> (\<forall>v \<in> set xs. va_start (A v) < va_end (A v)) \<and>
     sorted_wrt (\<lambda>a b. va_end (A a) \<le> va_start (A b)) xs"

lemma seq_append:
  "seq A (xs @ ys) \<longleftrightarrow> seq A xs \<and> seq A ys \<and> (\<forall>a \<in> set xs. \<forall>b \<in> set ys. va_end (A a) \<le> va_start (A b))"
  by (auto simp: seq_def sorted_wrt_append)

lemma seq_Nil [simp]: "seq A []"
  by (simp add: seq_def)

lemma seq_Cons:
  "seq A (v # ys) \<longleftrightarrow> va_start (A v) < va_end (A v) \<and> seq A ys \<and> (\<forall>b \<in> set ys. va_end (A v) \<le> va_start (A b))"
  by (auto simp: seq_def)

lemma seq_cong: "(\<And>v. v \<in> set xs \<Longrightarrow> A v = B v) \<Longrightarrow> seq A xs = seq B xs"
  by (induction xs) (auto simp: seq_Cons)

lemma seq_strict: "seq A xs \<Longrightarrow> sorted_wrt (<) (map (\<lambda>v. va_start (A v)) xs)"
proof (induction xs)
  case (Cons a xs)
  then show ?case by (auto simp: seq_Cons intro: less_le_trans)
qed simp

text \<open>What an address is mapped to.\<close>

definition covers :: "vm_area \<Rightarrow> u64 \<Rightarrow> bool" where
  "covers a x \<longleftrightarrow> va_start a \<le> x \<and> x < va_end a"

fun vw :: "(addr \<Rightarrow> vm_area) \<Rightarrow> addr list \<Rightarrow> u64 \<Rightarrow> (u32 \<times> u32) option" where
  "vw A [] x = None"
| "vw A (v # vs) x = (if covers (A v) x then Some (va_prot (A v), va_flags (A v)) else vw A vs x)"

lemma vw_append: "vw A (xs @ ys) x = (case vw A xs x of None \<Rightarrow> vw A ys x | Some r \<Rightarrow> Some r)"
  by (induction xs) auto

lemma vw_cong: "(\<And>v. v \<in> set xs \<Longrightarrow> A v = B v) \<Longrightarrow> vw A xs x = vw B xs x"
  by (induction xs) auto

lemma vw_None: "vw A xs x = None \<longleftrightarrow> (\<forall>v \<in> set xs. \<not> covers (A v) x)"
  by (induction xs) auto

lemma vw_unique:
  "seq A xs \<Longrightarrow> v \<in> set xs \<Longrightarrow> covers (A v) x \<Longrightarrow> vw A xs x = Some (va_prot (A v), va_flags (A v))"
proof (induction xs)
  case (Cons w xs)
  have "\<not> covers (A w) x" if "v \<in> set xs"
    using that Cons.prems by (fastforce simp: seq_Cons covers_def)
  with Cons show ?case by (auto simp: seq_Cons)
qed simp

section \<open>The invariant\<close>

definition vma_inv :: "vma_mm \<Rightarrow> addr list \<Rightarrow> bool" where
  "vma_inv m xs \<longleftrightarrow> rb_index (vma_tree m) xs \<and> seq (vma_area m) xs \<and> (\<forall>v \<in> set xs. v < vma_fresh m) \<and> 0 < vma_fresh m"

definition vma_ok :: "vma_mm \<Rightarrow> bool" where
  "vma_ok m \<longleftrightarrow> vma_inv m (vma_list m)"

definition view :: "vma_mm \<Rightarrow> u64 \<Rightarrow> (u32 \<times> u32) option" where
  "view m = vw (vma_area m) (vma_list m)"

lemma tree_insert_ok:
  assumes "rb_index (vma_tree m) (xs @ ys)" and "seq (vma_area m) (xs @ v # ys)" and "v \<noteq> 0" "v \<notin> set (xs @ ys)"
  obtains t where "vma_tree_insert v m = Some (m\<lparr>vma_tree := t\<rparr>)" and "rb_index t (xs @ v # ys)"
  using vidx.ins_gap [OF assms(1) seq_strict [OF assms(2)] assms(3,4)] by (auto simp: vma_tree_insert_def)

lemma tree_erase_ok:
  assumes "rb_index (vma_tree m) (xs @ v # ys)"
  obtains t where "vma_tree_erase v m = Some (m\<lparr>vma_tree := t\<rparr>)" and "rb_index t (xs @ ys)"
  using vidx.del_gap [OF assms] by (auto simp: vma_tree_erase_def)

lemma set_area_simps [simp]:
  "vma_area (set_area v a m) = (vma_area m)(v := a)" "vma_list (set_area v a m) = vma_list m"
  "vma_tree (set_area v a m) = vma_tree m" "vma_fresh (set_area v a m) = vma_fresh m"
  "vmacache_seqnum (set_area v a m) = vmacache_seqnum m"
  by (simp_all add: set_area_def)

lemma invalidate_simps [simp]:
  "vma_area (vmacache_invalidate m) = vma_area m" "vma_list (vmacache_invalidate m) = vma_list m"
  "vma_tree (vmacache_invalidate m) = vma_tree m" "vma_fresh (vmacache_invalidate m) = vma_fresh m"
  "vma_ok (vmacache_invalidate m) = vma_ok m" "view (vmacache_invalidate m) = view m"
  by (simp_all add: vmacache_invalidate_def vma_ok_def vma_inv_def view_def)

lemma inv_distinct: "vma_inv m xs \<Longrightarrow> distinct xs \<and> 0 \<notin> set xs"
  by (auto simp: vma_inv_def dest: rb_index_distinct)

lemma seq_upd: "v \<notin> set xs \<Longrightarrow> seq (A(v := a)) xs = seq A xs"
  by (rule seq_cong) auto

lemma vw_upd: "v \<notin> set xs \<Longrightarrow> vw (A(v := a)) xs = vw A xs"
  by (rule ext, rule vw_cong) auto

section \<open>Merging keeps the view\<close>

lemma merge_ok:
  assumes "vma_inv m (pre @ rest)"
  shows "\<exists>m'. vma_merge_loop en pre rest m = Some m' \<and> vma_ok m' \<and> view m' = vw (vma_area m) (pre @ rest) \<and>
    vma_fresh m' = vma_fresh m"
  using assms
proof (induction en pre rest m rule: vma_merge_loop.induct)
  case (1 en pre v n rest m)
  let ?A = "vma_area m"
  note d = inv_distinct [OF "1.prems"]
  show ?case
  proof (cases "va_end (?A v) \<le> en")
    case en: True
    show ?thesis
    proof (cases "va_end (?A v) = va_start (?A n) \<and> va_prot (?A v) = va_prot (?A n) \<and> va_flags (?A v) = va_flags (?A n)")
      case True
      let ?m = "set_area v ((?A v)\<lparr>va_end := va_end (?A n)\<rparr>) m"
      have "rb_index (vma_tree ?m) ((pre @ [v]) @ n # rest)" using "1.prems" by (simp add: vma_inv_def)
      from tree_erase_ok [OF this] obtain t where t: "vma_tree_erase n ?m = Some (?m\<lparr>vma_tree := t\<rparr>)"
        "rb_index t ((pre @ [v]) @ rest)" .
      have sq: "seq ?A (pre @ v # n # rest)" using "1.prems" by (simp add: vma_inv_def)
      have "seq (vma_area ?m) (pre @ v # rest)"
        using sq d by (auto simp: seq_append seq_Cons seq_upd)
      then have inv: "vma_inv (?m\<lparr>vma_tree := t\<rparr>) (pre @ v # rest)"
        using t(2) "1.prems" by (auto simp: vma_inv_def)
      have "covers ((?A v)\<lparr>va_end := va_end (?A n)\<rparr>) x \<longleftrightarrow> covers (?A v) x \<or> covers (?A n) x" for x
        using sq True by (auto simp: seq_append seq_Cons covers_def)
      then have "vw (vma_area ?m) (pre @ v # rest) = vw ?A (pre @ v # n # rest)"
        using d True by (auto simp: vw_append vw_upd fun_eq_iff split: option.splits)
      then have w: "vw (vma_area (?m\<lparr>vma_tree := t\<rparr>)) (pre @ v # rest) = vw ?A (pre @ v # n # rest)" by simp
      have "vma_merge_loop en pre (v # n # rest) m = vma_merge_loop en pre (v # rest) (?m\<lparr>vma_tree := t\<rparr>)"
        using en True t(1) by simp
      moreover have "vma_fresh (?m\<lparr>vma_tree := t\<rparr>) = vma_fresh m" by simp
      ultimately show ?thesis using "1.IH"(1) [OF en True t(1) inv] w by metis
    next
      case False
      then show ?thesis using "1.IH"(2) [OF en False] "1.prems" en by auto
    qed
  next
    case False
    then show ?thesis using "1.prems" by (auto simp: vma_ok_def vma_inv_def view_def)
  qed
qed (auto simp: vma_ok_def vma_inv_def view_def)

section \<open>Descents\<close>

text \<open>The first region that ends behind an address.\<close>

definition first_behind :: "(addr \<Rightarrow> vm_area) \<Rightarrow> u64 \<Rightarrow> addr list \<Rightarrow> addr \<Rightarrow> addr" where
  "first_behind A start xs d = (case find (\<lambda>v. start < va_end (A v)) xs of None \<Rightarrow> d | Some v \<Rightarrow> v)"

lemma first_behind_skip:
  "\<forall>v \<in> set xs. va_end (A v) \<le> start \<Longrightarrow> first_behind A start (xs @ ys) d = first_behind A start ys d"
  by (induction xs) (auto simp: first_behind_def not_less)

lemma first_behind_append:
  "first_behind A start (xs @ ys) d = first_behind A start xs (first_behind A start ys d)"
  by (induction xs) (auto simp: first_behind_def)

lemma seq_before: "seq A (xs @ v # ys) \<Longrightarrow> w \<in> set xs \<Longrightarrow> va_end (A w) \<le> va_start (A v) \<and> va_end (A w) < va_end (A v)"
  by (auto simp: seq_append seq_Cons intro: le_less_trans)

lemma first_behind_at:
  assumes "seq A (xs @ v # ys)" and "va_start (A v) \<le> start" "start < va_end (A v)"
  shows "first_behind A start (xs @ v # ys) d = v"
proof -
  have "\<forall>w \<in> set xs. va_end (A w) \<le> start"
    using seq_before [OF assms(1)] assms(2) by fastforce
  then show ?thesis using assms(3) first_behind_skip [of xs A start "v # ys" d] by (simp add: first_behind_def)
qed

lemma first_behind_ok:
  assumes "tree_at (vma_tree m) pp x t" and "seq (vma_area m) (nodes t)"
  shows "vma_first_behind m start x best = Some (first_behind (vma_area m) start (nodes t) best)"
    and "vma_find_from m start x best = Some (first_behind (vma_area m) start (nodes t) best)"
  using assms
proof (induction t arbitrary: pp x best)
  case Lf
  { case 1 then show ?case by (subst vma_first_behind.simps) (simp add: first_behind_def) }
  { case 2 then show ?case by (subst vma_find_from.simps) (simp add: first_behind_def) }
next
  case (Nd c l a r)
  let ?A = "vma_area m" and ?h = "vma_tree m"
  { fix pp x best
    assume p: "tree_at ?h pp x (Nd c l a r)" "seq ?A (nodes (Nd c l a r))"
    have x: "x = a" "a \<noteq> 0" and l: "tree_at ?h a (rb_child ?h L a) l" and r: "tree_at ?h a (rb_child ?h R a) r"
      using p(1) by auto
    have s: "seq ?A (nodes l)" "seq ?A (nodes r)" using p(2) by (auto simp: seq_append seq_Cons)
    have sa: "seq ?A (nodes l @ a # nodes r)" using p(2) by simp
    have "vma_first_behind m start x best = Some (first_behind ?A start (nodes (Nd c l a r)) best) \<and>
      vma_find_from m start x best = Some (first_behind ?A start (nodes (Nd c l a r)) best)"
    proof (cases "va_end (?A a) \<le> start")
      case True
      then have "\<forall>w \<in> set (nodes l @ [a]). va_end (?A w) \<le> start"
        using seq_before [OF sa] by fastforce
      from first_behind_skip [where ys = "nodes r" and d = best, OF this]
      have e: "first_behind ?A start (nodes (Nd c l a r)) best = first_behind ?A start (nodes r) best" by simp
      show ?thesis unfolding e using x True Nd.IH(3,4) [OF r s(2), of best]
        by (subst vma_first_behind.simps, subst vma_find_from.simps) (auto simp: not_less)
    next
      case False
      show ?thesis
      proof (cases "va_start (?A a) \<le> start")
        case True
        then show ?thesis using x False first_behind_at [OF sa True, of best]
          by (subst vma_first_behind.simps, subst vma_find_from.simps) (auto simp: not_le not_less)
      next
        case nl: False
        have e: "first_behind ?A start (nodes (Nd c l a r)) best = first_behind ?A start (nodes l) a"
          using False by (simp add: first_behind_append not_le) (simp add: first_behind_def)
        show ?thesis unfolding e using x False nl Nd.IH(1,2) [OF l s(1), of a]
          by (subst vma_first_behind.simps, subst vma_find_from.simps) (auto simp: not_le not_less)
      qed
    qed }
  note both = this
  { case 1 then show ?case using both by blast }
  { case 2 then show ?case using both by blast }
qed


lemma first_behind_cases: "first_behind A start xs d = d \<or> first_behind A start xs d \<in> set xs"
  by (auto simp: first_behind_def find_Some_iff split: option.splits)

lemma coalesce_ok:
  assumes "vma_ok m"
  shows "\<exists>m'. vma_coalesce_range start en m = Some m' \<and> vma_ok m' \<and> view m' = view m \<and> vma_fresh m' = vma_fresh m"
proof -
  let ?xs = "vma_list m"
  obtain t where t: "repr (vma_tree m) t" "rb_ok t" "nodes t = ?xs" and sq: "seq (vma_area m) ?xs"
    using assms by (auto simp: vma_ok_def vma_inv_def rb_index_def)
  have at: "tree_at (vma_tree m) 0 (rb_root (vma_tree m)) t" using t by (simp add: repr_def)
  define f where "f = first_behind (vma_area m) start ?xs 0"
  have f: "vma_first_behind m start (rb_root (vma_tree m)) 0 = Some f"
    using first_behind_ok(1) [OF at] sq t(3) by (simp add: f_def)
  have "\<exists>first. (if f = 0 then Some (case ?xs of [] \<Rightarrow> 0 | v # _ \<Rightarrow> v)
       else do { q \<leftarrow> rb_prev (vma_tree m) f; Some (if q \<noteq> 0 then q else f) }) = Some first"
  proof (cases "f = 0")
    case False
    then have "f \<in> set ?xs" using first_behind_cases [of "vma_area m" start ?xs 0] by (auto simp: f_def)
    then obtain ys zs where "?xs = ys @ f # zs" by (meson split_list)
    then have "rb_prev (vma_tree m) f = Some (hd0 (rev ys))"
      using step_split [OF t(1), of L "rev zs" f "rev ys"] t(3) by (simp add: ord_def rb_prev_def)
    then show ?thesis by simp
  qed simp
  then obtain first where "vma_coalesce_range start en m =
      vma_merge_loop en (takeWhile (\<lambda>v. v \<noteq> first) ?xs) (dropWhile (\<lambda>v. v \<noteq> first) ?xs) m"
    using f by (auto simp: vma_coalesce_range_def)
  then show ?thesis
    using merge_ok [of m "takeWhile (\<lambda>v. v \<noteq> first) ?xs" "dropWhile (\<lambda>v. v \<noteq> first) ?xs" en] assms
    by (simp add: vma_ok_def view_def)
qed

section \<open>Removing a range\<close>

definition outside :: "u64 \<Rightarrow> u64 \<Rightarrow> vm_area \<Rightarrow> bool" where
  "outside start en a \<longleftrightarrow> va_end a \<le> start \<or> en \<le> va_start a"

lemma outside_covers: "outside start en a \<Longrightarrow> start \<le> x \<Longrightarrow> x < en \<Longrightarrow> \<not> covers a x"
  by (auto simp: outside_def covers_def)

text \<open>What a region covers when it is cut.\<close>

lemma covers_cut:
  assumes "va_start a < k" "k \<le> k'" "k' < va_end a"
  shows "covers (a\<lparr>va_end := k\<rparr>) x \<longleftrightarrow> covers a x \<and> x < k"
    "covers (a\<lparr>va_start := k'\<rparr>) x \<longleftrightarrow> covers a x \<and> k' \<le> x"
proof -
  have "x < k \<Longrightarrow> x < va_end a" "k' \<le> x \<Longrightarrow> va_start a \<le> x" using assms by order+
  then show "covers (a\<lparr>va_end := k\<rparr>) x \<longleftrightarrow> covers a x \<and> x < k"
    "covers (a\<lparr>va_start := k'\<rparr>) x \<longleftrightarrow> covers a x \<and> k' \<le> x" by (auto simp: covers_def)
qed

lemma covers_trim:
  assumes "\<not> (start \<le> x \<and> x < en)" and "start < en"
  shows "start < va_end a \<Longrightarrow> va_end a \<le> en \<Longrightarrow> covers (a\<lparr>va_end := start\<rparr>) x = covers a x"
    "start \<le> va_start a \<Longrightarrow> va_start a < en \<Longrightarrow> covers (a\<lparr>va_start := en\<rparr>) x = covers a x"
proof -
  consider (lo) "x < start" | (hi) "en \<le> x" using assms(1) not_le by blast
  then have "(x < start) = (x < va_end a)" if "start < va_end a" "va_end a \<le> en"
  proof cases
    case lo then have "x < va_end a" using that by order
    with lo show ?thesis by simp
  next
    case hi then have "\<not> x < va_end a" "\<not> x < start" using that assms(2) by order+
    then show ?thesis by simp
  qed
  moreover have "(en \<le> x) = (va_start a \<le> x)" if "start \<le> va_start a" "va_start a < en"
  proof -
    consider (lo) "x < start" | (hi) "en \<le> x" using assms(1) not_le by blast
    then show ?thesis
    proof cases
      case lo then have "\<not> va_start a \<le> x" "\<not> en \<le> x" using that assms(2) by order+
      then show ?thesis by simp
    next
      case hi then have "va_start a \<le> x" using that by order
      with hi show ?thesis by simp
    qed
  qed
  ultimately show "start < va_end a \<Longrightarrow> va_end a \<le> en \<Longrightarrow> covers (a\<lparr>va_end := start\<rparr>) x = covers a x"
    "start \<le> va_start a \<Longrightarrow> va_start a < en \<Longrightarrow> covers (a\<lparr>va_start := en\<rparr>) x = covers a x"
    by (simp_all add: covers_def)
qed

lemma new_simps:
  assumes "vma_new mem a m = (m1, v)" and "0 < vma_fresh m"
  shows "v \<noteq> 0 \<Longrightarrow> v = vma_fresh m \<and> vma_area m1 = (vma_area m)(v := a)" "v = 0 \<Longrightarrow> vma_area m1 = vma_area m"
    "v = 0 \<longleftrightarrow> \<not> mem (vma_fresh m)"
    "vma_list m1 = vma_list m" "vma_tree m1 = vma_tree m" "vma_fresh m1 = Suc (vma_fresh m)"
  using assms by (auto simp: vma_new_def Let_def split: if_splits)

lemma inv_fresh: "vma_inv m xs \<Longrightarrow> vma_fresh m \<notin> set xs"
  by (auto simp: vma_inv_def)

lemma inv_more_fresh:
  "vma_inv m xs \<Longrightarrow> vma_area m' = vma_area m \<Longrightarrow> vma_tree m' = vma_tree m \<Longrightarrow> vma_fresh m \<le> vma_fresh m' \<Longrightarrow> vma_inv m' xs"
  by (auto simp: vma_inv_def intro: less_le_trans)

lemma inv_app:
  assumes "vma_inv m (pre @ v # rest)"
  shows "v \<notin> set pre" "v \<notin> set rest" "v \<noteq> 0" "seq (vma_area m) pre" "seq (vma_area m) rest"
    "va_start (vma_area m v) < va_end (vma_area m v)"
    "\<And>a. a \<in> set pre \<Longrightarrow> va_end (vma_area m a) \<le> va_start (vma_area m v)"
    "\<And>b. b \<in> set rest \<Longrightarrow> va_end (vma_area m v) \<le> va_start (vma_area m b)"
    "\<And>a b. a \<in> set pre \<Longrightarrow> b \<in> set rest \<Longrightarrow> va_end (vma_area m a) \<le> va_start (vma_area m b)"
    "rb_index (vma_tree m) (pre @ v # rest)" "v < vma_fresh m" "0 < vma_fresh m"
    "\<And>a. a \<in> set pre \<union> set rest \<Longrightarrow> a < vma_fresh m"
  using inv_distinct [OF assms] assms by (auto simp: vma_inv_def seq_append seq_Cons)

text \<open>A region shrinks or moves within its own bounds.\<close>

lemma seq_shrink:
  assumes i: "vma_inv m (pre @ v # rest)" and a: "va_start (vma_area m v) \<le> va_start a" "va_start a < va_end a"
    "va_end a \<le> va_end (vma_area m v)"
  shows "seq ((vma_area m)(v := a)) (pre @ v # rest)"
proof -
  note j = inv_app [OF i]
  have "va_end (vma_area m b) \<le> va_start a" if "b \<in> set pre" for b using j(7) [OF that] a by auto
  moreover have "va_end a \<le> va_start (vma_area m b)" if "b \<in> set rest" for b using j(8) [OF that] a by auto
  ultimately show ?thesis using j a by (auto simp: seq_append seq_Cons seq_upd)
qed

lemma inv_erase:
  assumes i: "vma_inv m (pre @ v # rest)"
  obtains t where "vma_tree_erase v m = Some (m\<lparr>vma_tree := t\<rparr>)" and "vma_inv (m\<lparr>vma_tree := t\<rparr>) (pre @ rest)"
proof -
  note j = inv_app [OF i]
  obtain t where t: "vma_tree_erase v m = Some (m\<lparr>vma_tree := t\<rparr>)" "rb_index t (pre @ rest)"
    using tree_erase_ok [OF j(10)] .
  moreover have "vma_inv (m\<lparr>vma_tree := t\<rparr>) (pre @ rest)"
    using t j by (auto simp: vma_inv_def seq_append)
  ultimately show ?thesis by (intro that)
qed

lemma inv_shrink:
  assumes i: "vma_inv m (pre @ v # rest)" and "va_start (vma_area m v) \<le> va_start a" "va_start a < va_end a"
    "va_end a \<le> va_end (vma_area m v)"
  shows "vma_inv (set_area v a m) (pre @ v # rest)"
  using seq_shrink [OF assms] i by (simp add: vma_inv_def)

lemma inv_split:
  assumes i: "vma_inv m (pre @ v # rest)" and w: "w \<notin> set (pre @ v # rest)" "w \<noteq> 0" "w < vma_fresh m"
    and k: "va_start (vma_area m v) < k" "k \<le> k'" "k' < va_end (vma_area m v)"
    and m1: "m1 = set_area v ((vma_area m v)\<lparr>va_end := k\<rparr>) (set_area w ((vma_area m v)\<lparr>va_start := k'\<rparr>) m)"
  obtains t where "vma_tree_insert w m1 = Some (m1\<lparr>vma_tree := t\<rparr>)"
    and "vma_inv (m1\<lparr>vma_tree := t\<rparr>) (pre @ v # w # rest)"
proof -
  note j = inv_app [OF i]
  have k1: "k < va_end (vma_area m v)" using k by auto
  have sh: "seq ((vma_area m)(v := (vma_area m v)\<lparr>va_end := k\<rparr>)) (pre @ v # rest)"
    using k k1 by (intro seq_shrink [OF i]) auto
  then have "seq ((vma_area m)(v := (vma_area m v)\<lparr>va_end := k\<rparr>)) (pre @ [v])" by (simp add: seq_append seq_Cons)
  then have "seq (vma_area m1) (pre @ [v])" unfolding m1 using w
    by (subst seq_cong [of _ _ "(vma_area m)(v := (vma_area m v)\<lparr>va_end := k\<rparr>)"]) auto
  moreover have "seq (vma_area m1) rest" using j w unfolding m1 by (simp add: seq_upd)
  moreover have "va_end (vma_area m a) \<le> k'" if "a \<in> set pre" for a using j(7) [OF that] k by auto
  moreover have "k \<le> va_start (vma_area m b)" if "b \<in> set rest" for b using j(8) [OF that] k1 by auto
  ultimately have s: "seq (vma_area m1) ((pre @ [v]) @ w # rest)"
    using j w k by (auto simp: seq_append seq_Cons m1)
  have ix: "rb_index (vma_tree m1) ((pre @ [v]) @ rest)" using j by (simp add: m1)
  obtain t where t: "vma_tree_insert w m1 = Some (m1\<lparr>vma_tree := t\<rparr>)" "rb_index t ((pre @ [v]) @ w # rest)"
    using tree_insert_ok [OF ix s w(2)] w(1) by auto
  moreover have "vma_inv (m1\<lparr>vma_tree := t\<rparr>) (pre @ v # w # rest)"
    using t s j w by (auto simp: vma_inv_def m1)
  ultimately show ?thesis by (intro that)
qed

lemma inv_move:
  assumes i: "vma_inv m (pre @ v # rest)" and k: "va_start (vma_area m v) \<le> k" "k < va_end (vma_area m v)"
  obtains t1 t2 where "vma_tree_erase v m = Some (m\<lparr>vma_tree := t1\<rparr>)"
    and "vma_tree_insert v (set_area v ((vma_area m v)\<lparr>va_start := k\<rparr>) (m\<lparr>vma_tree := t1\<rparr>)) =
      Some (set_area v ((vma_area m v)\<lparr>va_start := k\<rparr>) (m\<lparr>vma_tree := t2\<rparr>))"
    and "vma_inv (set_area v ((vma_area m v)\<lparr>va_start := k\<rparr>) (m\<lparr>vma_tree := t2\<rparr>)) (pre @ v # rest)"
proof -
  let ?a = "(vma_area m v)\<lparr>va_start := k\<rparr>"
  note j = inv_app [OF i]
  have s: "seq ((vma_area m)(v := ?a)) (pre @ v # rest)" using k by (intro seq_shrink [OF i]) auto
  have st: "sorted_wrt (<) (map (\<lambda>w. va_start (((vma_area m)(v := ?a)) w)) (pre @ v # rest))"
    using seq_strict [OF s] .
  obtain t1 t2 where t: "rb_erase v (vma_tree m) = Some t1"
      "vma_rb_insert (\<lambda>w. va_start (((vma_area m)(v := ?a)) w)) v t1 = Some t2" "rb_index t2 (pre @ v # rest)"
    using vidx.move_key [OF j(10) st] by blast
  show ?thesis
  proof (rule that [of t1 t2])
    show "vma_tree_erase v m = Some (m\<lparr>vma_tree := t1\<rparr>)" using t by (simp add: vma_tree_erase_def)
    show "vma_tree_insert v (set_area v ?a (m\<lparr>vma_tree := t1\<rparr>)) = Some (set_area v ?a (m\<lparr>vma_tree := t2\<rparr>))"
      using t by (simp add: vma_tree_insert_def set_area_def)
    show "vma_inv (set_area v ?a (m\<lparr>vma_tree := t2\<rparr>)) (pre @ v # rest)"
      using t s i by (simp add: vma_inv_def)
  qed
qed


text \<open>The views before and behind a region.\<close>

lemma vw_mid:
  assumes "v \<notin> set pre" "v \<notin> set rest"
  shows "vw (A(v := a)) (pre @ v # rest) x =
    (case vw A pre x of Some r \<Rightarrow> Some r
     | None \<Rightarrow> if covers a x then Some (va_prot a, va_flags a) else vw A rest x)"
  using assms by (simp add: vw_append vw_upd split: option.split)

lemma vw_mid_id:
  "vw A (pre @ v # rest) x =
    (case vw A pre x of Some r \<Rightarrow> Some r
     | None \<Rightarrow> if covers (A v) x then Some (va_prot (A v), va_flags (A v)) else vw A rest x)"
  by (simp add: vw_append split: option.split)

definition removed :: "u64 \<Rightarrow> u64 \<Rightarrow> (u64 \<Rightarrow> 'a option) \<Rightarrow> u64 \<Rightarrow> 'a option" where
  "removed start en f x = (if start \<le> x \<and> x < en then None else f x)"

text \<open>The outcome of the removal of a range from the chain \<open>xs\<close>; whether the range is empty
  afterwards depends on the allocation for a split.\<close>

definition remove_good :: "bool \<Rightarrow> u64 \<Rightarrow> u64 \<Rightarrow> vma_mm \<Rightarrow> addr list \<Rightarrow> vma_mm option \<Rightarrow> bool" where
  "remove_good clean start en m xs res \<longleftrightarrow> (\<exists>m'. res = Some m' \<and> vma_ok m' \<and> vma_fresh m \<le> vma_fresh m' \<and>
     (\<forall>x. start \<le> x \<and> x < en \<or> view m' x = vw (vma_area m) xs x) \<and>
     (clean \<longrightarrow> (\<forall>v \<in> set (vma_list m'). outside start en (vma_area m' v))) \<and>
     set (vma_list m') \<subseteq> set xs \<union> {vma_fresh m ..} \<and>
     (\<forall>w < vma_fresh m. w \<notin> set xs \<longrightarrow> vma_area m' w = vma_area m w))"

lemma remove_good_step:
  assumes "remove_good clean start en m1 xs1 res" and "vma_fresh m \<le> vma_fresh m1"
    and "\<And>x. \<not> (start \<le> x \<and> x < en) \<Longrightarrow> vw (vma_area m1) xs1 x = vw (vma_area m) xs x"
    and "set xs1 \<subseteq> set xs \<union> {vma_fresh m ..}"
    and "\<And>w. w < vma_fresh m \<Longrightarrow> w \<notin> set xs \<Longrightarrow> vma_area m1 w = vma_area m w"
  shows "remove_good clean start en m xs res"
proof -
  obtain m' where m': "res = Some m'" "vma_ok m'" "vma_fresh m1 \<le> vma_fresh m'"
     "\<forall>x. start \<le> x \<and> x < en \<or> view m' x = vw (vma_area m1) xs1 x"
     "clean \<longrightarrow> (\<forall>v \<in> set (vma_list m'). outside start en (vma_area m' v))"
     "set (vma_list m') \<subseteq> set xs1 \<union> {vma_fresh m1 ..}"
     "\<forall>w < vma_fresh m1. w \<notin> set xs1 \<longrightarrow> vma_area m' w = vma_area m1 w"
    using assms(1) unfolding remove_good_def by blast
  have "vma_area m' w = vma_area m w" if w: "w < vma_fresh m" "w \<notin> set xs" for w
  proof -
    have "w \<notin> set xs1" using assms(4) w by auto
    then show ?thesis using m'(7) assms(2,5) w by simp
  qed
  moreover have "set (vma_list m') \<subseteq> set xs \<union> {vma_fresh m ..}"
    using m'(6) assms(2,4) by fastforce
  moreover have "start \<le> x \<and> x < en \<or> view m' x = vw (vma_area m) xs x" for x
    using m'(4) assms(3) by metis
  ultimately show ?thesis using m'(1,2,3,5) assms(2) unfolding remove_good_def by (auto intro: order_trans)
qed

lemma remove_loop_ok:
  assumes "vma_inv m (pre @ rest)" and "start < en" and "clean \<Longrightarrow> \<forall>v \<in> set pre. outside start en (vma_area m v)"
    and "clean \<Longrightarrow> \<forall>a. mem a"
  shows "remove_good clean start en m (pre @ rest) (vma_remove_loop mem start en pre rest m)"
  using assms
proof (induction rest arbitrary: pre m)
  case Nil
  then show ?case by (auto simp: remove_good_def vma_ok_def vma_inv_def view_def)
next
  case (Cons v rest)
  let ?A = "vma_area m"
  note j = inv_app [OF Cons.prems(1)]
  note clean = Cons.prems(3) and mem = Cons.prems(4)
  have nc: "\<And>w. clean \<Longrightarrow> w \<in> set pre \<Longrightarrow> outside start en (?A w)" using clean by blast
  consider (out) "outside start en (?A v)" | (gone) "\<not> outside start en (?A v)" "start \<le> va_start (?A v)" "va_end (?A v) \<le> en"
    | (mid) "va_start (?A v) < start" "en < va_end (?A v)"
    | (tail) "\<not> outside start en (?A v)" "va_start (?A v) < start" "va_end (?A v) \<le> en"
    | (hd) "\<not> outside start en (?A v)" "start \<le> va_start (?A v)" "en < va_end (?A v)"
    by (meson not_le)
  then show ?case
  proof cases
    case out
    have "remove_good clean start en m ((pre @ [v]) @ rest) (vma_remove_loop mem start en (pre @ [v]) rest m)"
      using out Cons.prems by (intro Cons.IH) auto
    then show ?thesis using out by (simp add: outside_def Let_def)
  next
    case gone
    obtain t where t: "vma_tree_erase v m = Some (m\<lparr>vma_tree := t\<rparr>)" "vma_inv (m\<lparr>vma_tree := t\<rparr>) (pre @ rest)"
      using inv_erase [OF Cons.prems(1)] .
    have "remove_good clean start en (m\<lparr>vma_tree := t\<rparr>) (pre @ rest) (vma_remove_loop mem start en pre rest (m\<lparr>vma_tree := t\<rparr>))"
      using Cons.prems t by (intro Cons.IH) auto
    moreover have "\<not> covers (?A v) x" if "\<not> (start \<le> x \<and> x < en)" for x
      using gone that by (auto simp: covers_def)
    ultimately have "remove_good clean start en m (pre @ v # rest) (vma_remove_loop mem start en pre rest (m\<lparr>vma_tree := t\<rparr>))"
      by (elim remove_good_step) (auto simp: vw_append split: option.split)
    then show ?thesis using gone t by (simp add: outside_def Let_def)
  next
    case mid
    obtain m1 w where n: "vma_new mem ((?A v)\<lparr>va_start := en\<rparr>) m = (m1, w)" by force
    note ns = new_simps [OF n j(12)]
    show ?thesis
    proof (cases "w = 0")
      case True
      then have nclean: "\<not> clean" using ns(3) mem by blast
      have "vma_inv m1 ((pre @ [v]) @ rest)" 
        using inv_more_fresh [OF Cons.prems(1), of m1] ns True by simp
      then have "remove_good clean start en m1 ((pre @ [v]) @ rest) (vma_remove_loop mem start en (pre @ [v]) rest m1)"
        using nclean Cons.prems(2) by (intro Cons.IH) auto
      then have "remove_good clean start en m (pre @ v # rest) (vma_remove_loop mem start en (pre @ [v]) rest m1)"
        using ns True by (elim remove_good_step) auto
      then show ?thesis using mid n True Cons.prems(2) by (auto simp: Let_def)
    next
      case False
      then have w: "w = vma_fresh m" "mem w" using ns by auto
      let ?m0 = "m\<lparr>vma_fresh := Suc (vma_fresh m)\<rparr>"
      let ?m1 = "set_area v ((?A v)\<lparr>va_end := start\<rparr>) (set_area w ((?A v)\<lparr>va_start := en\<rparr>) ?m0)"
      have i0: "vma_inv ?m0 (pre @ v # rest)" 
        using inv_more_fresh [OF Cons.prems(1), of ?m0] by simp
      have e1: "set_area v ((?A v)\<lparr>va_end := start\<rparr>) m1 = ?m1"
        using n w False by (auto simp: vma_new_def Let_def)
      have wn: "w \<notin> set (pre @ v # rest)" using inv_fresh [OF Cons.prems(1)] w by simp
      obtain t where t: "vma_tree_insert w ?m1 = Some (?m1\<lparr>vma_tree := t\<rparr>)"
          "vma_inv (?m1\<lparr>vma_tree := t\<rparr>) (pre @ v # w # rest)"
        by (rule inv_split [OF i0 wn False, of start en ?m1]) (use w mid Cons.prems(2) in auto)
      let ?m2 = "?m1\<lparr>vma_tree := t\<rparr>"
      have "remove_good clean start en ?m2 ((pre @ [v, w]) @ rest) (vma_remove_loop mem start en (pre @ [v, w]) rest ?m2)"
        using t(2) Cons.prems wn j(1) nc by (intro Cons.IH) (auto simp: outside_def)
      moreover have "vw (vma_area ?m2) (pre @ v # w # rest) x = vw ?A (pre @ v # rest) x"
        if "\<not> (start \<le> x \<and> x < en)" for x
        using that wn j(1,2) covers_cut [OF mid(1) _ mid(2), of x] Cons.prems(2)
        by (auto simp: vw_append vw_upd not_le not_less split: option.split)
      ultimately have "remove_good clean start en m (pre @ v # rest) (vma_remove_loop mem start en (pre @ [v, w]) rest ?m2)"
        using w by (elim remove_good_step) auto
      then show ?thesis using mid n t(1) e1 False Cons.prems(2) by (auto simp: Let_def)
    qed
  next
    case tail
    let ?m1 = "set_area v ((?A v)\<lparr>va_end := start\<rparr>) m"
    have "vma_inv ?m1 ((pre @ [v]) @ rest)"
      using inv_shrink [OF Cons.prems(1), of "(?A v)\<lparr>va_end := start\<rparr>"] tail by (auto simp: outside_def)
    then have "remove_good clean start en ?m1 ((pre @ [v]) @ rest) (vma_remove_loop mem start en (pre @ [v]) rest ?m1)"
      using Cons.prems nc j(1) by (intro Cons.IH) (auto simp: outside_def)
    moreover have "vw (vma_area ?m1) (pre @ v # rest) x = vw ?A (pre @ v # rest) x" if "\<not> (start \<le> x \<and> x < en)" for x
      using covers_trim(1) [OF that Cons.prems(2), of "?A v"] tail j(1,2)
      by (simp add: vw_append vw_upd outside_def not_le split: option.split)
    ultimately have "remove_good clean start en m (pre @ v # rest) (vma_remove_loop mem start en (pre @ [v]) rest ?m1)"
      by (elim remove_good_step) auto
    moreover have "\<not> en < va_end (?A v)" "\<not> start \<le> va_start (?A v)" using tail by (simp_all add: not_less not_le)
    ultimately show ?thesis using tail by (simp add: outside_def Let_def)
  next
    case hd
    let ?a = "(?A v)\<lparr>va_start := en\<rparr>"
    obtain t1 t2 where t: "vma_tree_erase v m = Some (m\<lparr>vma_tree := t1\<rparr>)"
        "vma_tree_insert v (set_area v ?a (m\<lparr>vma_tree := t1\<rparr>)) = Some (set_area v ?a (m\<lparr>vma_tree := t2\<rparr>))"
        "vma_inv (set_area v ?a (m\<lparr>vma_tree := t2\<rparr>)) (pre @ v # rest)"
      by (rule inv_move [OF Cons.prems(1), of en]) (use hd in \<open>auto simp: outside_def not_le\<close>)
    let ?m2 = "set_area v ?a (m\<lparr>vma_tree := t2\<rparr>)"
    have "remove_good clean start en ?m2 ((pre @ [v]) @ rest) (vma_remove_loop mem start en (pre @ [v]) rest ?m2)"
      using t(3) Cons.prems nc j(1) by (intro Cons.IH) (auto simp: outside_def)
    moreover have "vw (vma_area ?m2) (pre @ v # rest) x = vw ?A (pre @ v # rest) x" if "\<not> (start \<le> x \<and> x < en)" for x
      using covers_trim(2) [OF that Cons.prems(2), of "?A v"] hd j(1,2)
      by (simp add: vw_append vw_upd outside_def not_le split: option.split)
    ultimately have "remove_good clean start en m (pre @ v # rest) (vma_remove_loop mem start en (pre @ [v]) rest ?m2)"
      by (elim remove_good_step) auto
    moreover have "\<not> va_end (?A v) \<le> en" "\<not> va_start (?A v) < start" using hd by (simp_all add: not_less not_le)
    ultimately show ?thesis using hd t by (simp add: outside_def Let_def)
  qed
qed

section \<open>Adding a region\<close>

lemma remove_locked_ok:
  assumes "vma_ok m" and "start < en" and "clean \<Longrightarrow> \<forall>a. mem a"
  shows "remove_good clean start en m (vma_list m) (vma_remove_locked mem start en m)"
  using remove_loop_ok [of m "[]" "vma_list m" start en clean mem] assms
  by (simp add: vma_remove_locked_def vma_ok_def)

lemma split_outside:
  assumes "seq A xs" and "\<forall>v \<in> set xs. outside start en (A v)" and "start < en"
  shows "xs = takeWhile (\<lambda>w. va_start (A w) < start) xs @ dropWhile (\<lambda>w. va_start (A w) < start) xs"
    "\<forall>v \<in> set (takeWhile (\<lambda>w. va_start (A w) < start) xs). va_end (A v) \<le> start"
    "\<forall>v \<in> set (dropWhile (\<lambda>w. va_start (A w) < start) xs). en \<le> va_start (A v)"
proof -
  show "\<forall>v \<in> set (takeWhile (\<lambda>w. va_start (A w) < start) xs). va_end (A v) \<le> start"
  proof
    fix v assume v: "v \<in> set (takeWhile (\<lambda>w. va_start (A w) < start) xs)"
    then have "va_start (A v) < start" "v \<in> set xs" by (auto dest: set_takeWhileD)
    moreover from this have "\<not> en \<le> va_start (A v)" using assms(3) by order
    ultimately show "va_end (A v) \<le> start" using assms(2) by (auto simp: outside_def)
  qed
  show "\<forall>v \<in> set (dropWhile (\<lambda>w. va_start (A w) < start) xs). en \<le> va_start (A v)"
    using assms(1,2)
  proof (induction xs)
    case (Cons w xs)
    show ?case
    proof (cases "va_start (A w) < start")
      case True
      then show ?thesis using Cons by (simp add: seq_Cons)
    next
      case False
      have w: "va_start (A w) < va_end (A w)" "outside start en (A w)" using Cons.prems by (auto simp: seq_Cons)
      then have a: "en \<le> va_start (A w)" using False unfolding outside_def by (elim disjE) (order, order)
      moreover have "en \<le> va_start (A v)" if "v \<in> set xs" for v
      proof -
        have "va_end (A w) \<le> va_start (A v)" using Cons.prems(1) that by (simp add: seq_Cons)
        with a w show ?thesis by order
      qed
      ultimately show ?thesis using False by simp
    qed
  qed simp
qed simp

definition added :: "u64 \<Rightarrow> u64 \<Rightarrow> 'a \<Rightarrow> (u64 \<Rightarrow> 'a option) \<Rightarrow> u64 \<Rightarrow> 'a option" where
  "added start en r f x = (if start \<le> x \<and> x < en then Some r else f x)"

lemma link_ok:
  assumes m: "vma_ok m" and a: "vma_area m v = \<lparr>va_start = start, va_end = en, va_prot = prot, va_flags = flags\<rparr>"
    and v: "v \<noteq> 0" "v < vma_fresh m" "v \<notin> set (vma_list m)" and se: "start < en"
    and out: "\<forall>w \<in> set (vma_list m). outside start en (vma_area m w)"
  shows "\<exists>m'. vma_link v m = Some m' \<and> vma_ok m' \<and> view m' = added start en (prot, flags) (view m) \<and>
    vma_fresh m' = vma_fresh m"
proof -
  let ?A = "vma_area m" and ?xs = "vma_list m"
  let ?P = "\<lambda>w. va_start (?A w) < start"
  let ?l = "takeWhile ?P ?xs" and ?r = "dropWhile ?P ?xs"
  have ix: "rb_index (vma_tree m) ?xs" and sq: "seq ?A ?xs" using m by (simp_all add: vma_ok_def vma_inv_def)
  note sp = split_outside [OF sq out se]
  have sr: "seq ?A ?l" "seq ?A ?r" "\<forall>a \<in> set ?l. \<forall>b \<in> set ?r. va_end (?A a) \<le> va_start (?A b)"
    using sq sp(1) seq_append by metis+
  have "seq ?A (?l @ v # ?r)"
    using sr sp(2,3) a se by (auto simp: seq_append seq_Cons)
  let ?m = "m\<lparr>vma_list := ?l @ v # ?r\<rparr>"
  obtain t where t: "vma_tree_insert v ?m = Some (?m\<lparr>vma_tree := t\<rparr>)" "rb_index t (?l @ v # ?r)"
    using tree_insert_ok [of ?m ?l ?r v] ix \<open>seq ?A (?l @ v # ?r)\<close> v by auto
  have fr: "w < vma_fresh m" if "w \<in> set (?l @ v # ?r)" for w
  proof -
    have "w = v \<or> w \<in> set ?xs" using that sp(1) by (metis Un_iff set_ConsD set_append)
    then show ?thesis using v m by (auto simp: vma_ok_def vma_inv_def)
  qed
  have "vma_ok (?m\<lparr>vma_tree := t\<rparr>)"
    using t fr \<open>seq ?A (?l @ v # ?r)\<close> less_trans [OF _ v(2), of 0] v(1) by (simp add: vma_ok_def vma_inv_def)
  moreover have "view (?m\<lparr>vma_tree := t\<rparr>) = added start en (prot, flags) (view m)"
  proof
    fix x
    have "vw ?A ?xs x = None" if "start \<le> x" "x < en"
      using out outside_covers that by (auto simp: vw_None)
    moreover have "vw ?A ?xs x = (case vw ?A ?l x of None \<Rightarrow> vw ?A ?r x | Some r \<Rightarrow> Some r)"
      using sp(1) vw_append by metis
    ultimately show "view (?m\<lparr>vma_tree := t\<rparr>) x = added start en (prot, flags) (view m) x"
      by (auto simp: view_def added_def vw_append a covers_def split: option.splits)
  qed
  moreover have "vma_link v m = Some (?m\<lparr>vma_tree := t\<rparr>)" using t a by (simp add: vma_link_def Let_def)
  ultimately show ?thesis by simp
qed

lemma vma_add_ok:
  assumes m: "vma_ok m" and se: "start < en" and mem: "\<forall>a. mem a"
  shows "\<exists>m'. vma_add mem start en prot flags m = Some (m', Inr ()) \<and> vma_ok m' \<and>
    view m' = added start en (prot, flags) (view m)"
proof -
  let ?a = "\<lparr>va_start = start, va_end = en, va_prot = prot, va_flags = flags\<rparr>"
  have f: "0 < vma_fresh m" using m by (simp add: vma_ok_def vma_inv_def)
  obtain m1 v where n: "vma_new mem ?a m = (m1, v)" by force
  note ns = new_simps [OF n f]
  have v: "v = vma_fresh m" "v \<noteq> 0" "vma_area m1 = (vma_area m)(v := ?a)" using ns mem f by auto
  have vn: "v \<notin> set (vma_list m)" using m inv_fresh v by (simp add: vma_ok_def)
  have l1: "vma_list m1 = vma_list m" "vma_tree m1 = vma_tree m" "vma_fresh m1 = Suc (vma_fresh m)" using ns by auto
  have "seq (vma_area m1) (vma_list m)" using m vn unfolding v(3) by (simp add: seq_upd vma_ok_def vma_inv_def)
  then have o1: "vma_ok m1" using m l1 by (auto simp: vma_ok_def vma_inv_def)
  have o2: "view m1 = view m" unfolding view_def l1 v(3) by (rule vw_upd [OF vn])
  have "remove_good True start en m1 (vma_list m1) (vma_remove_locked mem start en m1)"
    using remove_locked_ok [OF o1 se] mem by blast
  then obtain m2 where m2: "vma_remove_locked mem start en m1 = Some m2" "vma_ok m2" "vma_fresh m1 \<le> vma_fresh m2"
     "\<forall>x. start \<le> x \<and> x < en \<or> view m2 x = view m1 x"
     "\<forall>v \<in> set (vma_list m2). outside start en (vma_area m2 v)"
     "set (vma_list m2) \<subseteq> set (vma_list m1) \<union> {vma_fresh m1 ..}"
     "\<forall>w < vma_fresh m1. w \<notin> set (vma_list m1) \<longrightarrow> vma_area m2 w = vma_area m1 w"
    unfolding remove_good_def view_def [of m1, symmetric] by blast
  have v1: "v < vma_fresh m1" "v \<notin> set (vma_list m1)" using l1 v(1) vn by simp_all
  then have "vma_area m2 v = ?a" using m2(7) v(3) by simp
  moreover have "v \<notin> set (vma_list m2)" using m2(6) v1 by auto
  moreover have "v < vma_fresh m2" using m2(3) v1 by simp
  ultimately have v2: "vma_area m2 v = ?a" "v \<notin> set (vma_list m2)" "v < vma_fresh m2" by blast+
  from link_ok [OF m2(2) v2(1) v(2) v2(3,2) se m2(5)] obtain m3 where m3: "vma_link v m2 = Some m3" "vma_ok m3"
      "view m3 = added start en (prot, flags) (view m2)" by blast
  obtain m4 where m4: "vma_coalesce_range start en m3 = Some m4" "vma_ok m4" "view m4 = view m3"
    using coalesce_ok [OF m3(2)] by blast
  have "view m4 = added start en (prot, flags) (view m)"
    unfolding m4(3) m3(3) using m2(4) o2 by (auto simp: added_def fun_eq_iff)
  moreover have "vma_add mem start en prot flags m = Some (vmacache_invalidate m4, Inr ())"
    using not_le [of en start] se n v m2 m3 m4 by (simp add: vma_add_def)
  ultimately show ?thesis using m4(2) by simp
qed

lemma vma_remove_ok:
  assumes m: "vma_ok m" and se: "start < en"
  shows "\<exists>m'. vma_remove mem start en m = Some m' \<and> vma_ok m' \<and>
    (\<forall>x. start \<le> x \<and> x < en \<or> view m' x = view m x) \<and> ((\<forall>a. mem a) \<longrightarrow> view m' = removed start en (view m))"
proof -
  obtain m' where m': "vma_remove_locked mem start en m = Some m'" "vma_ok m'"
     "\<forall>x. start \<le> x \<and> x < en \<or> view m' x = view m x"
     "(\<forall>a. mem a) \<longrightarrow> (\<forall>v \<in> set (vma_list m'). outside start en (vma_area m' v))"
    using remove_locked_ok [OF m se, of "\<forall>a. mem a" mem] unfolding remove_good_def view_def by blast
  have "view m' = removed start en (view m)" if "\<forall>a. mem a"
  proof
    fix x
    have "view m' x = None" if "start \<le> x" "x < en"
      using m'(4) \<open>\<forall>a. mem a\<close> outside_covers that by (auto simp: view_def vw_None)
    then show "view m' x = removed start en (view m) x" using m'(3) by (auto simp: removed_def)
  qed
  moreover have "\<not> en \<le> start" using se by (simp add: not_le)
  ultimately show ?thesis using m' by (simp add: vma_remove_def)
qed

end
