(* ===== verification/Vma_Correct.thy ===== *)
theory Vma_Correct
  imports Vma_Inv
begin

text \<open>
  The remaining operations on regions (changing a range in place, lookups with the thread's
  cache, fork and exec) and the properties of the registry.
\<close>

section \<open>Changing regions in place\<close>

definition acts :: "(vm_area \<Rightarrow> vm_area) \<Rightarrow> (u32 \<times> u32 \<Rightarrow> u32 \<times> u32) \<Rightarrow> bool" where
  "acts upd u \<longleftrightarrow> (\<forall>a. va_start (upd a) = va_start a \<and> va_end (upd a) = va_end a \<and>
     (va_prot (upd a), va_flags (upd a)) = u (va_prot a, va_flags a))"

definition changed :: "u64 \<Rightarrow> u64 \<Rightarrow> ('a \<Rightarrow> 'a) \<Rightarrow> (u64 \<Rightarrow> 'a option) \<Rightarrow> u64 \<Rightarrow> 'a option" where
  "changed start en u f x = (if start \<le> x \<and> x < en then map_option u (f x) else f x)"

text \<open>The view the loop has to produce from where it is.\<close>

definition goal_view :: "u64 \<Rightarrow> u64 \<Rightarrow> (u32 \<times> u32 \<Rightarrow> u32 \<times> u32) \<Rightarrow> vma_mm \<Rightarrow> addr list \<Rightarrow> addr list \<Rightarrow> u64 \<Rightarrow> (u32 \<times> u32) option" where
  "goal_view start en u m pre rest x =
     (case vw (vma_area m) pre x of Some r \<Rightarrow> Some r | None \<Rightarrow> changed start en u (vw (vma_area m) rest) x)"

text \<open>A spare region is not linked yet, and a used one is not needed any more.\<close>

definition spare_ok :: "vma_mm \<Rightarrow> addr list \<Rightarrow> addr \<Rightarrow> bool" where
  "spare_ok m xs s \<longleftrightarrow> s = 0 \<or> s \<notin> set xs \<and> s < vma_fresh m"

definition loop_ok :: "u64 \<Rightarrow> u64 \<Rightarrow> addr \<Rightarrow> addr \<Rightarrow> vma_mm \<Rightarrow> addr list \<Rightarrow> addr list \<Rightarrow> bool" where
  "loop_ok start en sa sb m pre rest \<longleftrightarrow> vma_inv m (pre @ rest) \<and> spare_ok m (pre @ rest) sa \<and> spare_ok m (pre @ rest) sb \<and>
     (sa = 0 \<or> sa \<noteq> sb) \<and> (sa = 0 \<longrightarrow> (\<forall>v \<in> set rest. start \<le> va_start (vma_area m v))) \<and>
     (sb = 0 \<longrightarrow> (\<forall>v \<in> set rest. va_end (vma_area m v) \<le> en \<or> en \<le> va_start (vma_area m v)))"

lemma cut_left:
  assumes l: "loop_ok start en sa sb m pre (v # rest)" and o: "start < va_end (vma_area m v)" "va_start (vma_area m v) < en"
    and se: "start < en"
  shows "\<exists>m1 sa1 pre1 v1.
    (if start_of m v < start \<and> sa \<noteq> 0
     then do { m' \<leftarrow> vma_tree_insert sa (set_area v ((vma_area m v)\<lparr>va_end := start\<rparr>)
                     (set_area sa ((vma_area m v)\<lparr>va_start := start\<rparr>) m));
               Some (m', 0, pre @ [v], sa) }
     else Some (m, sa, pre, v)) = Some (m1, sa1, pre1, v1) \<and>
    loop_ok start en sa1 sb m1 pre1 (v1 # rest) \<and> start \<le> va_start (vma_area m1 v1) \<and> va_start (vma_area m1 v1) < en \<and>
    goal_view start en u m1 pre1 (v1 # rest) = goal_view start en u m pre (v # rest)"
proof (cases "start_of m v < start")
  case True
  let ?A = "vma_area m"
  have i: "vma_inv m (pre @ v # rest)" using l by (simp add: loop_ok_def)
  note j = inv_app [OF i]
  have sa: "sa \<noteq> 0" "sa \<notin> set (pre @ v # rest)" "sa < vma_fresh m" "sa \<noteq> sb"
    using l True by (auto simp: loop_ok_def spare_ok_def not_le)
  let ?m1 = "set_area v ((?A v)\<lparr>va_end := start\<rparr>) (set_area sa ((?A v)\<lparr>va_start := start\<rparr>) m)"
  obtain t where t: "vma_tree_insert sa ?m1 = Some (?m1\<lparr>vma_tree := t\<rparr>)"
      "vma_inv (?m1\<lparr>vma_tree := t\<rparr>) (pre @ v # sa # rest)"
    by (rule inv_split [OF i sa(2,1,3), of start start ?m1]) (use True o in auto)
  let ?m = "?m1\<lparr>vma_tree := t\<rparr>"
  have "start \<le> va_start (?A b)" if "b \<in> set rest" for b using j(8) [OF that] o by order
  moreover have "va_start (?A b) < en \<Longrightarrow> va_end (?A b) \<le> en" if "sb = 0" "b \<in> set rest" for b
    using l that by (auto simp: loop_ok_def)
  ultimately have lo: "loop_ok start en 0 sb ?m (pre @ [v]) (sa # rest)"
    using l t(2) sa o j by (auto simp: loop_ok_def spare_ok_def not_less)
  have w: "(\<And>x. vw (vma_area ?m) pre x = vw ?A pre x)" "(\<And>x. vw (vma_area ?m) rest x = vw ?A rest x)"
    using j(1,2) sa by (auto intro!: vw_cong)
  have "goal_view start en u ?m (pre @ [v]) (sa # rest) x = goal_view start en u m pre (v # rest) x" for x
    using sa w covers_cut [OF True order_refl o(1), of x]
    by (auto simp: goal_view_def vw_append changed_def not_le not_less split: option.split)
  then show ?thesis using True sa t(1) lo se by (auto simp: fun_eq_iff)
next
  case False
  then show ?thesis using l o by (auto simp: not_less)
qed

lemma cut_right:
  assumes l: "loop_ok start en sa sb m pre (v # rest)" and o: "start \<le> va_start (vma_area m v)" "va_start (vma_area m v) < en"
  shows "\<exists>m1 sb1 rest1.
    (if end_of m v > en \<and> sb \<noteq> 0
     then do { m' \<leftarrow> vma_tree_insert sb (set_area v ((vma_area m v)\<lparr>va_end := en\<rparr>)
                     (set_area sb ((vma_area m v)\<lparr>va_start := en\<rparr>) m));
               Some (m', 0, sb # rest) }
     else Some (m, sb, rest)) = Some (m1, sb1, rest1) \<and>
    loop_ok start en sa sb1 m1 pre (v # rest1) \<and> start \<le> va_start (vma_area m1 v) \<and> va_end (vma_area m1 v) \<le> en \<and>
    length rest1 + of_bool (sb1 \<noteq> 0) = length rest + of_bool (sb \<noteq> 0) \<and>
    goal_view start en u m1 pre (v # rest1) = goal_view start en u m pre (v # rest)"
proof (cases "en < end_of m v")
  case True
  let ?A = "vma_area m"
  have i: "vma_inv m (pre @ v # rest)" using l by (simp add: loop_ok_def)
  note j = inv_app [OF i]
  have sb: "sb \<noteq> 0" "sb \<notin> set (pre @ v # rest)" "sb < vma_fresh m" "sa \<noteq> sb"
    using l True o by (auto simp: loop_ok_def spare_ok_def not_le)
  let ?m1 = "set_area v ((?A v)\<lparr>va_end := en\<rparr>) (set_area sb ((?A v)\<lparr>va_start := en\<rparr>) m)"
  obtain t where t: "vma_tree_insert sb ?m1 = Some (?m1\<lparr>vma_tree := t\<rparr>)"
      "vma_inv (?m1\<lparr>vma_tree := t\<rparr>) (pre @ v # sb # rest)"
    by (rule inv_split [OF i sb(2,1,3), of en en ?m1]) (use True o in auto)
  let ?m = "?m1\<lparr>vma_tree := t\<rparr>"
  have "en \<le> va_start (?A b)" if "b \<in> set rest" for b using j(8) [OF that] True by order
  moreover have "start \<le> en" using o by order
  ultimately have lo: "loop_ok start en sa 0 ?m pre (v # sb # rest)"
    using l t(2) sb o j by (auto simp: loop_ok_def spare_ok_def)
  have w: "(\<And>x. vw (vma_area ?m) pre x = vw ?A pre x)" "(\<And>x. vw (vma_area ?m) rest x = vw ?A rest x)"
    using j(1,2) sb by (auto intro!: vw_cong)
  have "goal_view start en u ?m pre (v # sb # rest) x = goal_view start en u m pre (v # rest) x" for x
    using sb w covers_cut [OF o(2) order_refl True, of x]
    by (auto simp: goal_view_def changed_def not_le not_less split: option.split)
  then show ?thesis using True sb t(1) lo o by (auto simp: fun_eq_iff)
next
  case False
  then show ?thesis using l o by (auto simp: not_less)
qed

lemma update_here:
  assumes l: "loop_ok start en sa sb m pre (v # rest)" and o: "start \<le> va_start (vma_area m v)" "va_end (vma_area m v) \<le> en"
    and a: "acts upd u"
  shows "loop_ok start en sa sb (set_area v (upd (vma_area m v)) m) (pre @ [v]) rest"
    "goal_view start en u (set_area v (upd (vma_area m v)) m) (pre @ [v]) rest = goal_view start en u m pre (v # rest)"
proof -
  let ?A = "vma_area m" and ?m = "set_area v (upd (vma_area m v)) m"
  have i: "vma_inv m (pre @ v # rest)" using l by (simp add: loop_ok_def)
  note j = inv_app [OF i]
  have b: "va_start (upd (?A v)) = va_start (?A v)" "va_end (upd (?A v)) = va_end (?A v)"
    "(va_prot (upd (?A v)), va_flags (upd (?A v))) = u (va_prot (?A v), va_flags (?A v))"
    using a by (simp_all add: acts_def)
  have "vma_inv ?m (pre @ v # rest)" using inv_shrink [OF i, of "upd (?A v)"] b j(6) by simp
  then show "loop_ok start en sa sb ?m (pre @ [v]) rest" using l j by (auto simp: loop_ok_def spare_ok_def)
  have c: "covers (upd (?A v)) x = covers (?A v) x" for x using b by (simp add: covers_def)
  have "start \<le> x \<and> x < en" if "covers (?A v) x" for x using that o unfolding covers_def by (auto intro: order_trans less_le_trans)
  then have "goal_view start en u ?m (pre @ [v]) rest x = goal_view start en u m pre (v # rest) x" for x
    using j(1,2) c b by (auto simp: goal_view_def vw_append vw_upd changed_def split: option.split)
  then show "goal_view start en u ?m (pre @ [v]) rest = goal_view start en u m pre (v # rest)" ..
qed

lemma update_turn_ok:
  assumes l: "loop_ok start en sa sb m pre (v # rest)" and a: "acts upd u" and se: "start < en"
  shows "\<exists>m1 sa1 sb1 pre1 rest1. vma_update_turn upd start en sa sb pre v rest m = Some (m1, sa1, sb1, pre1, rest1) \<and>
    loop_ok start en sa1 sb1 m1 pre1 rest1 \<and> length rest1 + of_bool (sb1 \<noteq> 0) < Suc (length rest) + of_bool (sb \<noteq> 0) \<and>
    goal_view start en u m1 pre1 rest1 = goal_view start en u m pre (v # rest)"
proof (cases "end_of m v \<le> start \<or> start_of m v \<ge> en")
  case True
  have "\<not> (start \<le> x \<and> x < en)" if "covers (vma_area m v) x" for x
    using outside_covers [of start en "vma_area m v" x] True that by (auto simp: outside_def)
  then have "goal_view start en u m (pre @ [v]) rest = goal_view start en u m pre (v # rest)"
    by (auto simp: goal_view_def vw_append changed_def fun_eq_iff split: option.split)
  then show ?thesis using True l by (auto simp: vma_update_turn_def loop_ok_def)
next
  case False
  then have o: "start < va_end (vma_area m v)" "va_start (vma_area m v) < en" by (auto simp: not_le)
  let ?c = "(if start_of m v < start \<and> sa \<noteq> 0
     then do { m' \<leftarrow> vma_tree_insert sa (set_area v ((vma_area m v)\<lparr>va_end := start\<rparr>)
                     (set_area sa ((vma_area m v)\<lparr>va_start := start\<rparr>) m));
               Some (m', 0, pre @ [v], sa) }
     else Some (m, sa, pre, v))"
  obtain m1 sa1 pre1 v1 where c1: "?c = Some (m1, sa1, pre1, v1)" and l1: "loop_ok start en sa1 sb m1 pre1 (v1 # rest)"
    and o1: "start \<le> va_start (vma_area m1 v1)" "va_start (vma_area m1 v1) < en"
    and g1: "goal_view start en u m1 pre1 (v1 # rest) = goal_view start en u m pre (v # rest)"
    using cut_left [OF l o se] by blast
  let ?d = "(if end_of m1 v1 > en \<and> sb \<noteq> 0
     then do { m' \<leftarrow> vma_tree_insert sb (set_area v1 ((vma_area m1 v1)\<lparr>va_end := en\<rparr>)
                     (set_area sb ((vma_area m1 v1)\<lparr>va_start := en\<rparr>) m1));
               Some (m', 0, sb # rest) }
     else Some (m1, sb, rest))"
  obtain m2 sb1 rest1 where c2: "?d = Some (m2, sb1, rest1)" and l2: "loop_ok start en sa1 sb1 m2 pre1 (v1 # rest1)"
    and o2: "start \<le> va_start (vma_area m2 v1)" "va_end (vma_area m2 v1) \<le> en"
    and ln: "length rest1 + of_bool (sb1 \<noteq> 0) = length rest + of_bool (sb \<noteq> 0)"
    and g2: "goal_view start en u m2 pre1 (v1 # rest1) = goal_view start en u m1 pre1 (v1 # rest)"
    using cut_right [OF l1 o1] by blast
  have "vma_update_turn upd start en sa sb pre v rest m =
      Some (set_area v1 (upd (vma_area m2 v1)) m2, sa1, sb1, pre1 @ [v1], rest1)"
    unfolding vma_update_turn_def using False c1 c2 by simp
  then show ?thesis using update_here [OF l2 o2 a] g1 g2 ln by auto
qed

lemma update_loop_ok:
  assumes "loop_ok start en sa sb m pre rest" and a: "acts upd u" and se: "start < en"
  shows "\<exists>m'. vma_update_loop upd start en sa sb pre rest m = Some m' \<and> vma_ok m' \<and> view m' = goal_view start en u m pre rest"
  using assms(1)
proof (induction "length rest + of_bool (sb \<noteq> 0)" arbitrary: sa sb m pre rest rule: less_induct)
  case less
  show ?case
  proof (cases rest)
    case Nil
    then have "vma_update_loop upd start en sa sb pre rest m = Some (m\<lparr>vma_list := pre\<rparr>)"
      by (subst vma_update_loop.simps) simp
    then show ?thesis using less.prems Nil
      by (auto simp: loop_ok_def vma_ok_def vma_inv_def view_def goal_view_def changed_def fun_eq_iff split: option.split)
  next
    case (Cons v rest')
    have l: "loop_ok start en sa sb m pre (v # rest')" using less.prems Cons by simp
    obtain m1 sa1 sb1 pre1 rest1 where t: "vma_update_turn upd start en sa sb pre v rest' m = Some (m1, sa1, sb1, pre1, rest1)"
      "loop_ok start en sa1 sb1 m1 pre1 rest1" "length rest1 + of_bool (sb1 \<noteq> 0) < Suc (length rest') + of_bool (sb \<noteq> 0)"
      "goal_view start en u m1 pre1 rest1 = goal_view start en u m pre (v # rest')"
      using update_turn_ok [OF l a se] by blast
    have "vma_update_loop upd start en sa sb pre rest m = vma_update_loop upd start en sa1 sb1 pre1 rest1 m1"
      using Cons t(1) by (subst vma_update_loop.simps) simp
    then show ?thesis using less.hyps [OF _ t(2)] t(3,4) Cons by simp
  qed
qed


lemma vma_update_ok:
  assumes m: "vma_ok m" and se: "start < en" and mem: "mem (vma_fresh m)" "mem (Suc (vma_fresh m))" and a: "acts upd u"
  shows "\<exists>m'. vma_update upd mem start en m = Some (m', Inr ()) \<and> vma_ok m' \<and> view m' = changed start en u (view m)"
proof -
  let ?b = "\<lparr>va_start = 0, va_end = 1, va_prot = 0, va_flags = 0\<rparr>"
  have i: "vma_inv m (vma_list m)" and f: "0 < vma_fresh m" using m by (simp_all add: vma_ok_def vma_inv_def)
  obtain m1 sa where n1: "vma_new mem ?b m = (m1, sa)" by force
  note s1 = new_simps [OF n1 f]
  have "0 < vma_fresh m1" using s1 by simp
  obtain m2 sb where n2: "vma_new mem ?b m1 = (m2, sb)" by force
  note s2 = new_simps [OF n2 \<open>0 < vma_fresh m1\<close>]
  have sp: "sa = vma_fresh m" "sb = Suc (vma_fresh m)" "sa \<noteq> 0" "sb \<noteq> 0" using s1 s2 mem by auto
  have l2: "vma_list m2 = vma_list m" "vma_tree m2 = vma_tree m" "vma_fresh m2 = Suc (Suc (vma_fresh m))"
    "vma_area m2 = (vma_area m)(sa := ?b, sb := ?b)" using s1 s2 sp by auto
  have fr: "sa \<notin> set (vma_list m)" "sb \<notin> set (vma_list m)" using i sp by (auto simp: vma_inv_def)
  have "seq (vma_area m2) (vma_list m)" using i fr unfolding l2 by (simp add: seq_upd vma_inv_def)
  then have "vma_inv m2 (vma_list m)" using i l2 by (auto simp: vma_inv_def)
  then have "loop_ok start en sa sb m2 [] (vma_list m2)"
    using fr sp l2 by (simp add: loop_ok_def spare_ok_def)
  from update_loop_ok [OF this a se] obtain m3 where m3: "vma_update_loop upd start en sa sb [] (vma_list m2) m2 = Some m3"
    "vma_ok m3" "view m3 = goal_view start en u m2 [] (vma_list m2)" by blast
  have "vw (vma_area m2) (vma_list m2) = view m" using fr unfolding l2 view_def by (simp add: vw_upd)
  then have v3: "view m3 = changed start en u (view m)" using m3(3) by (simp add: goal_view_def fun_eq_iff changed_def)
  obtain m4 where m4: "vma_coalesce_range start en m3 = Some m4" "vma_ok m4" "view m4 = view m3"
    using coalesce_ok [OF m3(2)] by blast
  have "vma_update upd mem start en m = Some (vmacache_invalidate m4, Inr ())"
    using not_le [of en start] se n1 n2 sp m3 m4 by (simp add: vma_update_def Let_def)
  then show ?thesis using m4 v3 by simp
qed

lemma vma_update_oom:
  assumes "vma_ok m" and "start < en" and "\<not> (mem (vma_fresh m) \<and> mem (Suc (vma_fresh m)))"
  shows "\<exists>m'. vma_update upd mem start en m = Some (m', Inl ENOMEM) \<and> vma_ok m' \<and> view m' = view m"
proof -
  let ?b = "\<lparr>va_start = 0, va_end = 1, va_prot = 0, va_flags = 0\<rparr>"
  have i: "vma_inv m (vma_list m)" and f: "0 < vma_fresh m" using assms(1) by (simp_all add: vma_ok_def vma_inv_def)
  obtain m1 sa where n1: "vma_new mem ?b m = (m1, sa)" by force
  note s1 = new_simps [OF n1 f]
  have f1: "0 < vma_fresh m1" using s1 by simp
  obtain m2 sb where n2: "vma_new mem ?b m1 = (m2, sb)" by force
  note s2 = new_simps [OF n2 f1]
  have l2: "vma_list m2 = vma_list m" "vma_tree m2 = vma_tree m" "vma_fresh m2 = Suc (Suc (vma_fresh m))"
    using s1 s2 by auto
  have same: "\<And>v. v \<in> set (vma_list m) \<Longrightarrow> vma_area m2 v = vma_area m v"
  proof -
    fix v assume v: "v \<in> set (vma_list m)"
    have "v < vma_fresh m" using i v by (simp add: vma_inv_def)
    then have "v \<noteq> vma_fresh m" "v \<noteq> vma_fresh m1" using s1(6) by simp_all
    then have "vma_area m1 v = vma_area m v" using s1(1,2) by (cases "sa = 0") simp_all
    moreover have "vma_area m2 v = vma_area m1 v"
      using s2(1,2) \<open>v \<noteq> vma_fresh m1\<close> by (cases "sb = 0") simp_all
    ultimately show "vma_area m2 v = vma_area m v" by simp
  qed
  have "seq (vma_area m2) (vma_list m) = seq (vma_area m) (vma_list m)" by (rule seq_cong [OF same])
  moreover have "view m2 = view m" unfolding view_def l2 by (rule ext, rule vw_cong [OF same])
  ultimately have "vma_ok m2" using i l2 by (auto simp: vma_ok_def vma_inv_def)
  moreover have "sa = 0 \<or> sb = 0" using s1(3,6) s2(3) assms(3) by auto
  ultimately show ?thesis using \<open>view m2 = view m\<close> not_le [of en start] assms(2) n1 n2
    by (simp add: vma_update_def Let_def)
qed

lemma acts_setprot: "acts (\<lambda>a. a\<lparr>va_prot := p\<rparr>) (\<lambda>(_, f). (p, f))"
  by (simp add: acts_def)

lemma acts_flags: "(\<And>a. upd a = a\<lparr>va_flags := g (va_flags a)\<rparr>) \<Longrightarrow> acts upd (\<lambda>(p, f). (p, g f))"
  by (simp add: acts_def)

lemma acts_lock:
  "acts (lock_area True) (\<lambda>(p, g). (p, g OR VMA_F_LOCKED))"
  "acts (lock_area False) (\<lambda>(p, g). (p, g AND NOT VMA_F_LOCKED))"
  by (auto intro!: acts_flags simp: lock_area_def)

lemma acts_seal: "acts (\<lambda>a. a\<lparr>va_flags := va_flags a OR VMA_F_SEALED\<rparr>) (\<lambda>(p, g). (p, g OR VMA_F_SEALED))"
  by (auto intro!: acts_flags)

lemma update_exact:
  assumes "vma_ok m" "start < en" "acts upd u"
  shows "\<exists>m'. vma_ok m' \<and> (if mem (vma_fresh m) \<and> mem (vma_fresh m + 1)
    then vma_update upd mem start en m = Some (m', Inr ()) \<and> view m' = changed start en u (view m)
    else vma_update upd mem start en m = Some (m', Inl ENOMEM) \<and> view m' = view m)"
  using vma_update_ok [OF assms(1,2) _ _ assms(3), of mem] vma_update_oom [OF assms(1,2), of mem upd]
  by (cases "mem (vma_fresh m) \<and> mem (vma_fresh m + 1)") auto

section \<open>Looking up\<close>

lemma probe_tree_ok:
  assumes "tree_at (vma_tree m) pp x t" and "seq (vma_area m) (nodes t)"
  shows "\<exists>v. vma_probe_tree m a x = Some v \<and>
    (if v = 0 then vw (vma_area m) (nodes t) a = None else v \<in> set (nodes t) \<and> covers (vma_area m v) a)"
  using assms
proof (induction t arbitrary: pp x)
  case Lf
  then show ?case by (subst vma_probe_tree.simps) simp
next
  case (Nd c l b r)
  let ?A = "vma_area m" and ?h = "vma_tree m"
  have x: "x = b" "b \<noteq> 0" and l: "tree_at ?h b (rb_child ?h L b) l" and r: "tree_at ?h b (rb_child ?h R b) r"
    using Nd.prems(1) by auto
  have sa: "seq ?A (nodes l @ b # nodes r)" using Nd.prems(2) by simp
  then have s: "seq ?A (nodes l)" "seq ?A (nodes r)" and bb: "va_start (?A b) < va_end (?A b)"
    by (auto simp: seq_append seq_Cons)
  have bl: "va_end (?A w) \<le> va_start (?A b)" if "w \<in> set (nodes l)" for w using seq_before [OF sa that] by simp
  have br: "va_end (?A b) \<le> va_start (?A w)" if "w \<in> set (nodes r)" for w using sa that by (auto simp: seq_append seq_Cons)
  consider (lo) "a < va_start (?A b)" | (hi) "va_end (?A b) \<le> a" "\<not> a < va_start (?A b)" | (at) "covers (?A b) a"
    unfolding covers_def by (meson not_le)
  then show ?case
  proof cases
    case lo
    have "\<not> va_start (?A w) \<le> a" if "w \<in> set (nodes r)" for w
      using br [OF that] bb lo by order
    then have "\<not> covers (?A w) a" if "w = b \<or> w \<in> set (nodes r)" for w
      using that lo by (auto simp: covers_def)
    then have "vw ?A (nodes (Nd c l b r)) a = None \<longleftrightarrow> vw ?A (nodes l) a = None" by (auto simp: vw_None)
    moreover have "vma_probe_tree m a x = vma_probe_tree m a (rb_child ?h L b)"
      using x lo by (subst vma_probe_tree.simps) simp
    moreover obtain v where "vma_probe_tree m a (rb_child ?h L b) = Some v"
        "if v = 0 then vw ?A (nodes l) a = None else v \<in> set (nodes l) \<and> covers (?A v) a"
      using Nd.IH(1) [OF l s(1)] by blast
    ultimately show ?thesis by (cases "v = 0") auto
  next
    case hi
    have "\<not> a < va_end (?A w)" if "w \<in> set (nodes l)" for w
      using bl [OF that] hi(2) by order
    moreover have "\<not> a < va_end (?A b)" using hi(1) by order
    ultimately have "\<not> covers (?A w) a" if "w = b \<or> w \<in> set (nodes l)" for w
      using that by (auto simp: covers_def)
    then have "vw ?A (nodes (Nd c l b r)) a = None \<longleftrightarrow> vw ?A (nodes r) a = None" by (auto simp: vw_None)
    moreover have "vma_probe_tree m a x = vma_probe_tree m a (rb_child ?h R b)"
      using x hi by (subst vma_probe_tree.simps) simp
    moreover obtain v where "vma_probe_tree m a (rb_child ?h R b) = Some v"
        "if v = 0 then vw ?A (nodes r) a = None else v \<in> set (nodes r) \<and> covers (?A v) a"
      using Nd.IH(2) [OF r s(2)] by blast
    ultimately show ?thesis by (cases "v = 0") auto
  next
    case at
    then have "vma_probe_tree m a x = Some b"
      using x unfolding covers_def by (subst vma_probe_tree.simps) (auto dest: leD)
    then show ?thesis using at x by simp
  qed
qed


text \<open>A thread's cache holds regions of the list, while it has the sequence number of the
  process.\<close>

definition cache_ok :: "vma_mm \<Rightarrow> vma_cache \<Rightarrow> bool" where
  "cache_ok m t \<longleftrightarrow> length (vc_slots t) = 4 \<and>
     (vc_seqnum t = vmacache_seqnum m \<longrightarrow> set (vc_slots t) \<subseteq> insert 0 (set (vma_list m)))"

lemma find_Some_in: "find P xs = Some y \<Longrightarrow> y \<in> set xs \<and> P y"
  by (induction xs) (auto split: if_splits)

lemma drop_absent: "v \<notin> set xs \<Longrightarrow> dropWhile (\<lambda>w. w \<noteq> v) xs = []"
  by (induction xs) auto

lemma probe_ok:
  assumes m: "vma_ok m" and t: "cache_ok m t"
  shows "\<exists>t'. vma_probe m a t = Some (t', map_option fst (view m a)) \<and> cache_ok m t' \<and> vc_seqnum t' = vmacache_seqnum m"
proof -
  let ?t1 = "if vc_seqnum t \<noteq> vmacache_seqnum m
      then \<lparr>vc_seqnum = vmacache_seqnum m, vc_slots = [0, 0, 0, 0]\<rparr> else t"
  let ?Q = "\<lambda>cv. cv \<noteq> 0 \<and> a \<ge> start_of m cv \<and> a < end_of m cv"
  have c1: "cache_ok m ?t1" "vc_seqnum ?t1 = vmacache_seqnum m" "set (vc_slots ?t1) \<subseteq> insert 0 (set (vma_list m))"
    using t by (auto simp: cache_ok_def)
  have sq: "seq (vma_area m) (vma_list m)" using m by (simp add: vma_ok_def vma_inv_def)
  obtain tr where tr: "repr (vma_tree m) tr" "nodes tr = vma_list m"
    using m by (auto simp: vma_ok_def vma_inv_def rb_index_def)
  have at: "tree_at (vma_tree m) 0 (rb_root (vma_tree m)) tr" using tr by (simp add: repr_def)
  obtain v where v: "vma_probe_tree m a (rb_root (vma_tree m)) = Some v"
    "if v = 0 then view m a = None else v \<in> set (vma_list m) \<and> covers (vma_area m v) a"
    using probe_tree_ok [OF at, of a] sq unfolding view_def tr(2) by blast
  have hit: "view m a = Some (va_prot (vma_area m w), va_flags (vma_area m w))"
    if "w \<in> set (vma_list m)" "covers (vma_area m w) a" for w
    using vw_unique [OF sq that] by (simp add: view_def)
  show ?thesis
  proof (cases "find ?Q (vc_slots ?t1)")
    case (Some cv)
    then have cv: "cv \<in> set (vc_slots ?t1)" "cv \<noteq> 0" "covers (vma_area m cv) a"
      using find_Some_in [OF Some] by (auto simp: covers_def)
    then have "cv \<in> set (vma_list m)" using c1(3) by auto
    from hit [OF this cv(3)] Some c1 show ?thesis by (simp add: vma_probe_def Let_def)
  next
    case None
    show ?thesis
    proof (cases "v = 0")
      case True
      then show ?thesis using None v c1 by (simp add: vma_probe_def Let_def)
    next
      case False
      let ?t2 = "?t1\<lparr>vc_slots := v # butlast (vc_slots ?t1)\<rparr>"
      have "set (butlast (vc_slots ?t1)) \<subseteq> set (vc_slots ?t1)" by (auto dest: in_set_butlastD)
      then have "cache_ok m ?t2" using c1 v(2) False by (auto simp: cache_ok_def)
      moreover have "vma_probe m a t = Some (?t2, Some (va_prot (vma_area m v)))"
        using None v(1) False by (simp add: vma_probe_def Let_def)
      ultimately show ?thesis using hit [of v] v(2) False c1(2) by auto
    qed
  qed
qed

lemma take_starts:
  "seq A xs \<Longrightarrow> set (takeWhile (\<lambda>w. va_start (A w) < en) xs) = {w \<in> set xs. va_start (A w) < en}"
proof (induction xs)
  case (Cons a xs)
  show ?case
  proof (cases "va_start (A a) < en")
    case False
    have "\<not> va_start (A w) < en" if "w \<in> set xs" for w
    proof -
      have "va_start (A a) < va_end (A a)" "va_end (A a) \<le> va_start (A w)"
        using Cons.prems that by (auto simp: seq_Cons)
      with False show ?thesis by order
    qed
    with False show ?thesis by auto
  qed (use Cons in \<open>auto simp: seq_Cons\<close>)
qed simp

text \<open>The walk over the regions that meet a range.\<close>

lemma range_walk:
  assumes sq: "seq A xs" and se: "start < en" and z: "0 \<notin> set xs"
    and v: "v = (let b = first_behind A start xs 0 in if b \<noteq> 0 \<and> va_start (A b) < en then b else 0)"
  shows "set (takeWhile (\<lambda>w. va_start (A w) < en) (dropWhile (\<lambda>w. w \<noteq> v) xs)) = {w \<in> set xs. \<not> outside start en (A w)}"
proof (cases "find (\<lambda>w. start < va_end (A w)) xs")
  case None
  then have "v = 0" using v by (simp add: first_behind_def)
  then have dw: "dropWhile (\<lambda>w. w \<noteq> v) xs = []" using z drop_absent [of v xs] by blast
  have "outside start en (A w)" if "w \<in> set xs" for w
    using None that by (auto simp: find_None_iff outside_def not_less)
  then show ?thesis unfolding dw by auto
next
  case (Some b)
  then have fb: "first_behind A start xs 0 = b" by (simp add: first_behind_def)
  obtain i where i: "i < length xs" "xs ! i = b" "start < va_end (A b)" "\<forall>j < i. \<not> start < va_end (A (xs ! j))"
    using Some by (auto simp: find_Some_iff)
  define ys zs where "ys = take i xs" and "zs = drop (Suc i) xs"
  have xs: "xs = ys @ b # zs" using i(1,2) id_take_nth_drop [OF i(1)] by (simp add: ys_def zs_def)
  have ys: "\<forall>w \<in> set ys. va_end (A w) \<le> start" using i(1,4) by (auto simp: ys_def in_set_conv_nth not_less)
  have sb: "seq A (b # zs)" using sq xs by (simp add: seq_append)
  have zs: "start < va_end (A w)" if "w \<in> set (b # zs)" for w
  proof (cases "w = b")
    case False
    with that sb have "va_end (A b) \<le> va_start (A w)" "va_start (A w) < va_end (A w)" by (auto simp: seq_def)
    with i(3) show ?thesis by order
  qed (use i in simp)
  have bn: "b \<notin> set ys" using ys i(3) by (meson not_le)
  show ?thesis
  proof (cases "va_start (A b) < en")
    case True
    have "b \<noteq> 0" using z xs by auto
    then have "v = b" using v fb True by simp
    then have "dropWhile (\<lambda>w. w \<noteq> v) xs = b # zs" using xs bn by (simp add: dropWhile_append)
    moreover have "{w \<in> set xs. \<not> outside start en (A w)} = {w \<in> set (b # zs). va_start (A w) < en}"
      using xs ys zs by (auto simp: outside_def not_le dest: leD)
    ultimately show ?thesis using take_starts [OF sb] by simp
  next
    case False
    then have "v = 0" using v fb by simp
    then have dw: "dropWhile (\<lambda>w. w \<noteq> v) xs = []" using z drop_absent [of v xs] by blast
    have "en \<le> va_start (A w)" if "w \<in> set (b # zs)" for w
    proof (cases "w = b")
      case nb: False
      with that sb have "va_start (A b) < va_end (A b)" "va_end (A b) \<le> va_start (A w)" by (auto simp: seq_Cons)
      with False show ?thesis by order
    qed (use False in simp)
    then show ?thesis unfolding dw using xs ys by (auto simp: outside_def)
  qed
qed

lemma has_flags_ok:
  assumes m: "vma_ok m" and se: "start < en"
  shows "vma_range_has_flags m start en flags =
    Some (\<exists>w \<in> set (vma_list m). \<not> outside start en (vma_area m w) \<and> va_flags (vma_area m w) AND flags \<noteq> 0)"
proof -
  let ?A = "vma_area m" and ?xs = "vma_list m"
  have sq: "seq ?A ?xs" and z: "0 \<notin> set ?xs"
    using m inv_distinct by (auto simp: vma_ok_def vma_inv_def)
  obtain tr where tr: "repr (vma_tree m) tr" "nodes tr = ?xs"
    using m by (auto simp: vma_ok_def vma_inv_def rb_index_def)
  have at: "tree_at (vma_tree m) 0 (rb_root (vma_tree m)) tr" using tr by (simp add: repr_def)
  let ?b = "first_behind ?A start ?xs 0"
  let ?v = "let b = ?b in if b \<noteq> 0 \<and> va_start (?A b) < en then b else 0"
  have "vma_find_from m start (rb_root (vma_tree m)) 0 = Some ?b"
    using first_behind_ok(2) [OF at, of start 0] sq tr(2) by simp
  then have "vma_find_intersection m start en = Some ?v" by (simp add: vma_find_intersection_def Let_def)
  moreover have "\<not> en \<le> start" using se by (simp add: not_le)
  ultimately show ?thesis using range_walk [OF sq se z refl] by (auto simp: vma_range_has_flags_def)
qed

section \<open>Fork and exec\<close>

definition area_seq :: "vm_area list \<Rightarrow> bool" where
  "area_seq as \<longleftrightarrow> (\<forall>a \<in> set as. va_start a < va_end a) \<and> sorted_wrt (\<lambda>a b. va_end a \<le> va_start b) as"

lemma seq_area_seq: "seq A xs \<longleftrightarrow> area_seq (map A xs)"
  by (simp add: seq_def area_seq_def sorted_wrt_map)

lemma area_seq_append: "area_seq (as @ bs) \<Longrightarrow> area_seq as"
  by (simp add: area_seq_def sorted_wrt_append)

lemma vw_map: "map A xs = map B ys \<Longrightarrow> vw A xs = vw B ys"
proof (induction xs arbitrary: ys)
  case (Cons v xs)
  then obtain w zs where "ys = w # zs" "A v = B w" "map A xs = map B zs" by (cases ys) auto
  with Cons.IH [of zs] show ?case by (auto simp: fun_eq_iff)
qed auto

lemma all_less_Suc_eq_first: "(\<forall>k < Suc n. P (m + k)) \<longleftrightarrow> P m \<and> (\<forall>k < n. P (Suc m + k))" for m :: nat
  by (auto simp: less_Suc_eq_0_disj)

lemma clone_loop_ok:
  assumes "vma_inv d ys" and "ys = (if linked then vma_list d else [])" and "area_seq (map (vma_area d) ys @ as)"
    and "linked \<or> as \<noteq> []"
  shows "\<exists>d' r. vma_clone_loop mem as linked d = Some (d', r) \<and> vma_ok d' \<and>
    (if \<forall>k < length as. mem (vma_fresh d + k) then r = Inr () \<and> map (vma_area d') (vma_list d') = map (vma_area d) ys @ as
     else r = Inl ENOMEM \<and> vma_list d' = [])"
  using assms
proof (induction as arbitrary: linked d ys)
  case Nil
  then show ?case by (auto simp: vma_ok_def)
next
  case (Cons a as)
  let ?v = "vma_fresh d"
  let ?d1 = "set_area ?v a (d\<lparr>vma_fresh := Suc ?v\<rparr>)"
  let ?d2 = "?d1\<lparr>vma_list := ys @ [?v]\<rparr>"
  let ?all = "\<lambda>d as. \<forall>k < length (as :: vm_area list). mem (vma_fresh d + k)"
  have f: "0 < ?v" "?v \<notin> set ys" using Cons.prems(1) by (auto simp: vma_inv_def)
  show ?case
  proof (cases "mem ?v")
    case False
    then have "\<not> ?all d (a # as)" by (auto intro!: exI [of _ "0 :: nat"])
    then show ?thesis using False by (simp add: vma_new_def Let_def vma_ok_def vma_inv_def rb_index_empty rb_upd)
  next
    case True
    have mp: "map (vma_area ?d2) (ys @ [?v]) = map (vma_area d) ys @ [a]" using f by auto
    have "area_seq (map (vma_area ?d2) (ys @ [?v]))" unfolding mp
      using Cons.prems(3) area_seq_append [of "map (vma_area d) ys @ [a]" as] by simp
    then have sq: "seq (vma_area ?d2) (ys @ ?v # [])" by (simp only: seq_area_seq)
    obtain t where t: "vma_tree_insert ?v ?d2 = Some (?d2\<lparr>vma_tree := t\<rparr>)" "rb_index t (ys @ [?v])"
      using tree_insert_ok [of ?d2 ys "[]" ?v] Cons.prems(1) sq f by (auto simp: vma_inv_def)
    let ?d3 = "?d2\<lparr>vma_tree := t\<rparr>"
    have inv3: "vma_inv ?d3 (ys @ [?v])" using Cons.prems(1) t(2) sq by (auto simp: vma_inv_def)
    have l3: "ys @ [?v] = (if True then vma_list ?d3 else [])" by simp
    have mp3: "map (vma_area ?d3) (ys @ [?v]) = map (vma_area d) ys @ [a]"
    proof -
      have "vma_area ?d3 = vma_area ?d2" by simp
      with mp show ?thesis by (simp only:)
    qed
    have s3: "area_seq (map (vma_area ?d3) (ys @ [?v]) @ as)" unfolding mp3 using Cons.prems(3) by simp
    have all: "?all d (a # as) \<longleftrightarrow> ?all ?d3 as" using True by (auto simp: all_less_Suc_eq_first)
    have eq: "vma_clone_loop mem (a # as) linked d = vma_clone_loop mem as True ?d3"
      using t(1) f True Cons.prems(2) by (cases linked) (simp_all add: vma_new_def Let_def)
    have "\<exists>d' r. vma_clone_loop mem as True ?d3 = Some (d', r) \<and> vma_ok d' \<and>
        (if ?all ?d3 as then r = Inr () \<and> map (vma_area d') (vma_list d') = map (vma_area ?d3) (ys @ [?v]) @ as
         else r = Inl ENOMEM \<and> vma_list d' = [])"
      by (rule Cons.IH [OF inv3 l3 s3]) simp
    then show ?thesis unfolding all eq mp3 append_assoc append_Cons append_Nil .
  qed
qed

lemma vma_clone_ok:
  assumes "vma_ok src" and "0 < vma_fresh dst"
  shows "\<exists>dst' r. vma_clone mem dst src = Some (dst', r) \<and>
    (if vma_list src = [] then r = Inr () \<and> vma_list dst' = vma_list dst \<and> rb_root (vma_tree dst') = 0
     else vma_ok dst' \<and> (if \<forall>k < length (vma_list src). mem (vma_fresh dst + k)
       then r = Inr () \<and> view dst' = view src else r = Inl ENOMEM \<and> view dst' = (\<lambda>_. None)))"
proof (cases "vma_list src = []")
  case True
  then show ?thesis by (simp add: vma_clone_def rb_upd)
next
  case False
  let ?d = "vmacache_invalidate (dst\<lparr>vma_tree := set_root 0 (vma_tree dst)\<rparr>)"
  let ?as = "map (vma_area src) (vma_list src)"
  have "vma_inv ?d []" using assms(2) by (simp add: vma_inv_def rb_index_empty rb_upd)
  moreover have "area_seq (map (vma_area ?d) [] @ ?as)"
    using assms(1) by (simp add: vma_ok_def vma_inv_def seq_area_seq)
  ultimately obtain d' r where d': "vma_clone_loop mem ?as False ?d = Some (d', r)" "vma_ok d'"
      "if \<forall>k < length ?as. mem (vma_fresh ?d + k) then r = Inr () \<and> map (vma_area d') (vma_list d') = map (vma_area ?d) [] @ ?as
       else r = Inl ENOMEM \<and> vma_list d' = []"
    using clone_loop_ok [of ?d "[]" False ?as mem] False by auto
  have "vma_fresh ?d = vma_fresh dst" by (simp add: vmacache_invalidate_def)
  then show ?thesis using d' False vw_map [of "vma_area d'" "vma_list d'"]
    by (auto simp: vma_clone_def view_def fun_eq_iff split: if_splits)
qed

lemma vma_reset_ok:
  assumes "vma_ok m"
  shows "vma_ok (vma_reset m) \<and> view (vma_reset m) = (\<lambda>_. None)"
  using assms by (simp add: vma_reset_def vma_ok_def vma_inv_def rb_index_empty rb_upd view_def fun_eq_iff)

section \<open>Properties\<close>

text \<open>A registry with one region, for the examples.\<close>

definition one_mm :: vma_mm where
  "one_mm = \<lparr>vma_list = [1],
     vma_area = (\<lambda>_. \<lparr>va_start = 0, va_end = 1, va_prot = 0, va_flags = 0\<rparr>)
       (1 := \<lparr>va_start = 0x1000, va_end = 0x4000, va_prot = 7, va_flags = 1\<rparr>),
     vma_tree = rb_empty\<lparr>rb_color := (\<lambda>_. Black), rb_root := 1\<rparr>, vmacache_seqnum = 0, vma_fresh = 2\<rparr>"

lemma one_mm_ok: "vma_ok one_mm"
  by (auto simp: vma_ok_def vma_inv_def one_mm_def rb_index_def repr_def rb_ok_def rb_empty_def seq_def
      intro!: exI [of _ "Nd Black Lf 1 Lf"])

text \<open>C2: Seen as a map from addresses to protections and flags, \<^verbatim>\<open>vma_add\<close> sets exactly the
  addresses of its range and \<^verbatim>\<open>vma_remove\<close> clears exactly them, whatever regions were there
  before, when memory can be allocated. Both terminate, keep the regions sorted, non-empty and
  disjoint, and keep the chain and a balanced tree with the same regions.\<close>

theorem vma_map_refines:
  assumes "vma_ok m" and "start < en"
  shows "(\<exists>m'. vma_add (\<lambda>_. True) start en prot flags m = Some (m', Inr ()) \<and> vma_ok m' \<and>
      view m' = added start en (prot, flags) (view m)) \<and>
    (\<exists>m'. vma_remove (\<lambda>_. True) start en m = Some m' \<and> vma_ok m' \<and> view m' = removed start en (view m))"
  using vma_add_ok [OF assms, of "\<lambda>_. True"] vma_remove_ok [OF assms, of "\<lambda>_. True"] by auto

theorem vma_map_refines_witness:
  "\<exists>m'. vma_add (\<lambda>_. True) 0x2000 0x3000 1 1 one_mm = Some (m', Inr ()) \<and> vma_ok m' \<and>
    view m' 0x2000 = Some (1, 1) \<and> view m' 0x3000 = Some (7, 1) \<and> view m' 0x4000 = None"
proof -
  have "(0x2000 :: u64) < 0x3000" by simp
  from vma_map_refines [OF one_mm_ok this, of 1 1] obtain m' where
    m': "vma_add (\<lambda>_. True) 0x2000 0x3000 1 1 one_mm = Some (m', Inr ())" "vma_ok m'"
      "view m' = added 0x2000 0x3000 (1, 1) (view one_mm)" by blast
  moreover have "view m' 0x2000 = Some (1, 1)" "view m' 0x3000 = Some (7, 1)" "view m' 0x4000 = None"
    unfolding m'(3) by (simp_all add: added_def view_def one_mm_def covers_def)
  ultimately show ?thesis by blast
qed

text \<open>C15: \<^verbatim>\<open>vma_setprot\<close>, \<^verbatim>\<open>vma_set_locked\<close> and, on a range without a sealed region, \<^verbatim>\<open>vma_seal\<close>
  change the protection, the lock flag or the seal flag of exactly the mapped addresses of
  the range, splitting regions at its edges, when the two regions they allocate in advance
  can be had; if not they return \<^verbatim>\<open>-ENOMEM\<close> and change nothing. In both cases the registry
  stays well formed.\<close>

theorem vma_update_refines:
  assumes "vma_ok m" and "start < en"
  shows "\<forall>(f, u) \<in> {(vma_setprot mem start en prot, \<lambda>(p, g). (prot, g)),
      (vma_set_locked mem start en True, \<lambda>(p, g). (p, g OR VMA_F_LOCKED)),
      (vma_set_locked mem start en False, \<lambda>(p, g). (p, g AND NOT VMA_F_LOCKED))} \<union>
      (if vma_is_sealed m start en = Some False then {(vma_seal mem start en, \<lambda>(p, g). (p, g OR VMA_F_SEALED))} else {}).
    \<exists>m'. vma_ok m' \<and>
      (if mem (vma_fresh m) \<and> mem (vma_fresh m + 1) then f m = Some (m', Inr ()) \<and> view m' = changed start en u (view m)
       else f m = Some (m', Inl ENOMEM) \<and> view m' = view m)"
proof -
  note a = acts_setprot [of prot] acts_lock(1,2) acts_seal
  show ?thesis using update_exact [OF assms a(1), of mem] update_exact [OF assms a(2), of mem]
      update_exact [OF assms a(3), of mem] update_exact [OF assms a(4), of mem]
    by (auto simp: vma_setprot_def vma_set_locked_def vma_seal_def)
qed

theorem vma_update_refines_witness:
  "(\<exists>m'. vma_setprot (\<lambda>_. True) 0x2000 0x3000 1 one_mm = Some (m', Inr ()) \<and> vma_ok m' \<and>
    view m' 0x2000 = Some (1, 1) \<and> view m' 0x3000 = Some (7, 1)) \<and>
   (\<exists>m'. vma_setprot (\<lambda>a. a = 2) 0x2000 0x3000 1 one_mm = Some (m', Inl ENOMEM) \<and> view m' = view one_mm)"
proof -
  have lt: "(0x2000 :: u64) < 0x3000" by simp
  have f: "vma_fresh one_mm = 2" by (simp add: one_mm_def)
  have "changed 0x2000 0x3000 (\<lambda>(p, g). (1, g)) (view one_mm) 0x2000 = Some (1, 1)"
    "changed 0x2000 0x3000 (\<lambda>(p, g). (1, g)) (view one_mm) 0x3000 = Some (7, 1)"
    by (simp_all add: changed_def view_def one_mm_def covers_def)
  then show ?thesis
    using vma_update_refines [OF one_mm_ok lt, of "\<lambda>_. True" 1] vma_update_refines [OF one_mm_ok lt, of "\<lambda>a. a = 2" 1] f
    by (auto split: if_splits)
qed

text \<open>Sealing a range that is sealed already is no error, although the header documents one.\<close>

lemma vma_seal_again:
  assumes "vma_ok m" "start < en" "mem (vma_fresh m)" "mem (vma_fresh m + 1)" "vma_is_sealed m start en = Some True"
  shows "\<exists>m'. vma_seal mem start en m = Some (m', Inr ())"
  using update_exact [OF assms(1,2) acts_seal, of mem] assms(3,4) by (auto simp: vma_seal_def)

text \<open>C36: \<^verbatim>\<open>vma_probe\<close> returns the protection the registry has for the address, from the
  thread's cache or from the tree, and leaves the cache consistent; \<^verbatim>\<open>vma_range_has_flags\<close> is
  true exactly when some region that meets the range has one of the flags.\<close>

theorem vma_lookup_correct:
  assumes "vma_ok m" and "cache_ok m t" and "start < en"
  shows "(\<exists>t'. vma_probe m a t = Some (t', map_option fst (view m a)) \<and> cache_ok m t') \<and>
    vma_range_has_flags m start en flags =
      Some (\<exists>w \<in> set (vma_list m). \<not> outside start en (vma_area m w) \<and> va_flags (vma_area m w) AND flags \<noteq> 0)"
  using probe_ok [OF assms(1,2)] has_flags_ok [OF assms(1,3)] by blast

theorem vma_lookup_correct_witness:
  "(\<exists>t'. vma_probe one_mm 0x2000 \<lparr>vc_seqnum = 0, vc_slots = [0, 1, 0, 0]\<rparr> = Some (t', Some 7)) \<and>
    vma_range_has_flags one_mm 0 0x2000 1 = Some True"
proof -
  have c: "cache_ok one_mm \<lparr>vc_seqnum = 0, vc_slots = [0, 1, 0, 0]\<rparr>" by (simp add: cache_ok_def one_mm_def)
  have "(0 :: u64) < 0x2000" by simp
  from vma_lookup_correct [OF one_mm_ok c this, of "0x2000" 1] show ?thesis
    by (simp add: view_def one_mm_def covers_def outside_def) blast
qed

text \<open>C37: When the allocation for the split of a surrounding region fails, \<^verbatim>\<open>vma_add\<close> still
  links the new region and reports success: the regions overlap, and a lookup in the new
  region returns the old, wider protection.\<close>

theorem vma_add_oom_overlaps:
  "\<exists>m'. vma_add (\<lambda>a. a = 2) 0x2000 0x3000 1 1 one_mm = Some (m', Inr ()) \<and> \<not> vma_ok m' \<and>
    vma_list m' = [1, 2] \<and> va_prot (vma_area m' 2) = 1 \<and> vma_probe_tree m' 0x2000 (rb_root (vma_tree m')) = Some 1 \<and>
    va_prot (vma_area m' 1) = 7"
proof -
  let ?new = "\<lparr>va_start = 0x2000, va_end = 0x3000, va_prot = 1, va_flags = 1\<rparr> :: vm_area"
  define h1 where "h1 = rb_link_node 2 1 R (vma_tree one_mm)"
  define h2 where "h2 = set_color 1 Black h1"
  define m2 where "m2 = one_mm\<lparr>vma_fresh := 4, vma_area := (vma_area one_mm)(2 := ?new), vma_list := [1, 2], vma_tree := h2\<rparr>"
  have h1f: "rb_root h1 = 1" "rb_parent h1 = (\<lambda>_. 0)(2 := 1)" "rb_child h1 R 1 = 2" "rb_child h1 L 1 = 0"
      "rb_color h1 1 = Black" "rb_child h1 L 2 = 0" "rb_child h1 R 2 = 0"
    by (simp_all add: h1_def rb_link_node_def rb_upd one_mm_def rb_empty_def)
  then have h2f: "rb_root h2 = 1" "rb_parent h2 = (\<lambda>_. 0)(2 := 1)" "rb_child h2 R 1 = 2" "rb_child h2 L 1 = 0"
      "rb_child h2 L 2 = 0" "rb_child h2 R 2 = 0" by (simp_all add: h2_def rb_upd)
  have rem: "vma_remove_locked (\<lambda>a. a = 2) 0x2000 0x3000 (set_area 2 ?new (one_mm\<lparr>vma_fresh := 3\<rparr>)) =
      Some (one_mm\<lparr>vma_fresh := 4, vma_area := (vma_area one_mm)(2 := ?new)\<rparr>)"
    by (simp add: vma_remove_locked_def vma_new_def set_area_def one_mm_def Let_def)
  have "rb_insert_loop 2 h1 = Some h1" using h1f by (subst rb_insert_loop.simps) simp
  then have ins: "rb_insert_color 2 h1 = Some h2" using h1f by (simp add: rb_insert_color_def h2_def)
  have "vma_rb_search key 0x2000 (vma_tree one_mm) 1 0 L = Some (1, R)" if "key 1 = 0x1000" for key
    using that by (subst vma_rb_search.simps, subst vma_rb_search.simps) (simp add: one_mm_def rb_empty_def)
  then have link: "vma_link 2 (one_mm\<lparr>vma_fresh := 4, vma_area := (vma_area one_mm)(2 := ?new)\<rparr>) = Some m2"
    using ins unfolding h1_def
    by (simp add: vma_link_def vma_tree_insert_def vma_rb_insert_def m2_def Let_def)
      (simp add: one_mm_def rb_empty_def)
  have "vma_first_behind m2 0x2000 1 0 = Some 1"
    by (subst vma_first_behind.simps) (simp add: m2_def one_mm_def)
  moreover have "rb_prev h2 1 = Some 0"
    unfolding rb_prev_def rb_step_def using h2f by (simp, subst rb_climb.simps) simp
  ultimately have coal: "vma_coalesce_range 0x2000 0x3000 m2 = Some m2"
    using h2f by (simp add: vma_coalesce_range_def) (simp add: m2_def one_mm_def)
  have add: "vma_add (\<lambda>a. a = 2) 0x2000 0x3000 1 1 one_mm = Some (vmacache_invalidate m2, Inr ())"
    using rem link coal by (simp add: vma_add_def vma_new_def Let_def) (simp add: one_mm_def)
  have "\<not> vma_ok m2" by (simp add: vma_ok_def vma_inv_def seq_def m2_def one_mm_def)
  moreover have "vma_probe_tree (vmacache_invalidate m2) 0x2000 1 = Some 1"
    by (subst vma_probe_tree.simps) (simp add: m2_def one_mm_def)
  ultimately show ?thesis using add h2f by (simp add: m2_def one_mm_def)
qed

text \<open>C38: Fork copies the registry. If every region of the source can be allocated the child gets
  a well-formed registry of its own with the same view; if one cannot, the call returns
  \<^verbatim>\<open>-ENOMEM\<close> and the child has a well-formed registry without mappings. A source without
  regions clears the child's tree and leaves the chain it had.\<close>

theorem vma_clone_copies:
  assumes "vma_ok src" and "0 < vma_fresh dst"
  shows "\<exists>dst' r. vma_clone mem dst src = Some (dst', r) \<and>
    (if vma_list src = [] then r = Inr () \<and> vma_list dst' = vma_list dst \<and> rb_root (vma_tree dst') = 0
     else vma_ok dst' \<and> (if \<forall>k < length (vma_list src). mem (vma_fresh dst + k)
       then r = Inr () \<and> view dst' = view src else r = Inl ENOMEM \<and> view dst' = (\<lambda>_. None)))"
  using vma_clone_ok [OF assms] .

theorem vma_clone_copies_witness:
  "(\<exists>dst'. vma_clone (\<lambda>_. True) (vma_reset one_mm) one_mm = Some (dst', Inr ()) \<and> view dst' 0x2000 = Some (7, 1)) \<and>
   (\<exists>dst'. vma_clone (\<lambda>_. False) (vma_reset one_mm) one_mm = Some (dst', Inl ENOMEM) \<and> vma_ok dst') \<and>
   (\<exists>dst'. vma_clone (\<lambda>_. True) one_mm (vma_reset one_mm) = Some (dst', Inr ()) \<and> vma_list dst' = [1])"
proof -
  have l: "vma_list one_mm = [1]" "vma_list (vma_reset one_mm) = []" "0 < vma_fresh one_mm" "0 < vma_fresh (vma_reset one_mm)"
    "vma_ok (vma_reset one_mm)" "view one_mm 0x2000 = Some (7, 1)"
    using vma_reset_ok [OF one_mm_ok]
    by (simp_all add: vma_reset_def vmacache_invalidate_def one_mm_def view_def covers_def)
  have "\<exists>dst' r. vma_clone (\<lambda>_. True) (vma_reset one_mm) one_mm = Some (dst', r) \<and> r = Inr () \<and> view dst' = view one_mm"
    using vma_clone_copies [OF one_mm_ok l(4), of "\<lambda>_. True"] l(1) by auto
  moreover have "\<exists>dst' r. vma_clone (\<lambda>_. False) (vma_reset one_mm) one_mm = Some (dst', r) \<and> r = Inl ENOMEM \<and> vma_ok dst'"
    using vma_clone_copies [OF one_mm_ok l(4), of "\<lambda>_. False"] l(1) by auto
  moreover have "\<exists>dst' r. vma_clone (\<lambda>_. True) one_mm (vma_reset one_mm) = Some (dst', r) \<and> r = Inr () \<and> vma_list dst' = [1]"
    using vma_clone_copies [OF l(5,3), of "\<lambda>_. True"] l(1,2) by auto
  ultimately show ?thesis using l(6) by auto
qed

end
