(* ===== verification/Hwaccel.thy ===== *)
theory Hwaccel
  imports Az_Prelude
begin

text \<open>
  The bit-counting helpers of \<^verbatim>\<open>arch/x86_64/cpu/hwaccel.h\<close> that the memory allocators use.
  Where the source has a fallback for processors without the instruction, the fallback is
  the model; the population count is the multiply-based reduction, proved to count bits.
\<close>

definition hw_popcnt64 :: "u64 \<Rightarrow> u64" where
  "hw_popcnt64 w0 =
     (let w1 = w0 - (drop_bit 1 w0 AND 0x5555555555555555);
          w2 = (w1 AND 0x3333333333333333) + (drop_bit 2 w1 AND 0x3333333333333333);
          w3 = (w2 + drop_bit 4 w2) AND 0x0F0F0F0F0F0F0F0F
      in drop_bit 56 (w3 * 0x0101010101010101))"

definition hw_bzhi64 :: "u64 \<Rightarrow> nat \<Rightarrow> u64" where
  "hw_bzhi64 src n = (if n \<ge> 64 then src else src AND (push_bit n 1 - 1))"

definition hw_andn64 :: "u64 \<Rightarrow> u64 \<Rightarrow> u64" where
  "hw_andn64 a b = NOT a AND b"

definition hw_ctz32 :: "u32 \<Rightarrow> nat" where
  "hw_ctz32 w = (if w = 0 then 32 else length (takeWhile (\<lambda>i. \<not> bit w i) [0..<32]))"

text \<open>The bit-scan instruction gives the index of the highest set bit.\<close>

fun bsr :: "nat \<Rightarrow> nat" where
  "bsr n = (if n < 2 then 0 else Suc (bsr (n div 2)))"

declare bsr.simps [simp del]

definition hw_clz64 :: "u64 \<Rightarrow> nat" where
  "hw_clz64 w = (if w = 0 then 64 else 63 - bsr (unat w))"

section \<open>Counting bits in parallel\<close>

fun pop :: "nat \<Rightarrow> nat \<Rightarrow> nat" where
  "pop 0 x = 0"
| "pop (Suc n) x = x mod 2 + pop n (x div 2)"

text \<open>The mask of \<open>n\<close> bytes \<open>c\<close>.\<close>

fun bytes :: "nat \<Rightarrow> nat \<Rightarrow> nat" where
  "bytes c 0 = 0"
| "bytes c (Suc n) = c + 256 * bytes c n"

definition swar1 :: "nat \<Rightarrow> nat \<Rightarrow> nat" where
  "swar1 n x = x - (x div 2 AND bytes 0x55 n)"

definition swar2 :: "nat \<Rightarrow> nat \<Rightarrow> nat" where
  "swar2 n x = (x AND bytes 0x33 n) + (x div 4 AND bytes 0x33 n)"

definition swar3 :: "nat \<Rightarrow> nat \<Rightarrow> nat" where
  "swar3 n x = (x + x div 16) AND bytes 0x0F n"

lemma and_bytes:
  fixes a b :: nat
  shows "a AND b = (a mod 256 AND b mod 256) + 256 * (a div 256 AND b div 256)"
proof -
  have "(a AND b) mod 256 = a mod 256 AND b mod 256"
    using take_bit_and [of 8 a b] by (simp add: take_bit_eq_mod)
  moreover have "(a AND b) div 256 = a div 256 AND b div 256"
    using drop_bit_and [of 8 a b] by (simp add: drop_bit_eq_div)
  ultimately show ?thesis using mod_mult_div_eq [of "a AND b" 256] by metis
qed

lemma and_byte_step:
  fixes a x y :: nat
  assumes "c < 256"
  shows "a AND (c + 256 * m) = (a mod 256 AND c) + 256 * (a div 256 AND m)"
  using assms and_bytes [of a "c + 256 * m"] by simp

lemma and_le: "a AND b \<le> (a :: nat)"
proof -
  have "int (a AND b) \<le> int a" by (simp add: of_nat_and_eq)
  then show ?thesis by simp
qed

lemma and_mod_left:
  fixes a c :: nat
  assumes "c < 2 ^ k"
  shows "a AND c = a mod 2 ^ k AND c"
proof -
  have "take_bit k c = c" using assms by (simp add: take_bit_nat_eq_self)
  have "a AND c = take_bit k (a AND c)"
    by (rule sym, rule take_bit_nat_eq_self, rule le_less_trans [OF _ assms])
       (metis and.commute and_le)
  then show ?thesis by (simp add: take_bit_and take_bit_eq_mod [symmetric] \<open>take_bit k c = c\<close>)
qed

lemma half_and_le: "x div 2 AND m \<le> (x :: nat)"
  using and_le [of "x div 2" m] by (rule order_trans) simp

lemma swar1_step:
  assumes "x < 256"
  shows "swar1 (Suc n) (x + 256 * y) = swar1 1 x + 256 * swar1 n y"
proof -
  have d: "(x + 256 * y) div 2 = x div 2 + 128 * y" by simp
  have "((x + 256 * y) div 2) mod 256 AND 0x55 = x div 2 AND (0x55::nat)"
    using assms by (subst (1 2) and_mod_left [of _ 7]) (simp_all add: d mod_mod_cancel mod_add_left_eq)
  moreover have "((x + 256 * y) div 2) div 256 = y div 2" using assms by simp
  ultimately have "(x + 256 * y) div 2 AND bytes 0x55 (Suc n)
      = (x div 2 AND 0x55) + 256 * (y div 2 AND bytes 0x55 n)"
    by (simp only: bytes.simps and_byte_step)
  then show ?thesis
    using half_and_le [of x "0x55"] mult_le_mono2 [OF half_and_le [of y "bytes 0x55 n"], of 256]
    unfolding swar1_def by (simp add: diff_mult_distrib2)
qed

lemma swar2_step:
  assumes "x < 256"
  shows "swar2 (Suc n) (x + 256 * y) = swar2 1 x + 256 * swar2 n y"
proof -
  have d: "(x + 256 * y) div 4 = x div 4 + 64 * y" by simp
  have "((x + 256 * y) div 4) mod 256 AND 0x33 = x div 4 AND (0x33::nat)"
    using assms by (subst (1 2) and_mod_left [of _ 6]) (simp_all add: d mod_mod_cancel mod_add_left_eq)
  moreover have "((x + 256 * y) div 4) div 256 = y div 4" using assms by simp
  ultimately have "(x + 256 * y) div 4 AND bytes 0x33 (Suc n)
      = (x div 4 AND 0x33) + 256 * (y div 4 AND bytes 0x33 n)"
    by (simp only: bytes.simps and_byte_step)
  moreover have "(x + 256 * y) AND bytes 0x33 (Suc n) = (x AND 0x33) + 256 * (y AND bytes 0x33 n)"
    using assms by (simp only: bytes.simps and_byte_step) simp
  ultimately show ?thesis by (simp add: swar2_def)
qed

lemma swar3_step:
  assumes "x \<le> 0x44" and "y mod 16 \<le> 4"
  shows "swar3 (Suc n) (x + 256 * y) = swar3 1 x + 256 * swar3 n y"
proof -
  let ?v = "x + 256 * y + (x + 256 * y) div 16"
  have v: "?v = (x + x div 16 + 16 * (y mod 16)) + 256 * (y + y div 16)"
  proof -
    have e: "x + 256 * y + (a + b) = x + a + c + 256 * (y + d)" if "b = 256 * d + c" for a b c d
      using that by simp
    have "16 * y = 256 * (y div 16) + 16 * (y mod 16)"
      using mod_mult_div_eq [of y 16] by linarith
    moreover have "(x + 256 * y) div 16 = x div 16 + 16 * y" by simp
    ultimately show ?thesis by (simp only: e)
  qed
  have "x + x div 16 + 16 * (y mod 16) < 256" using assms by linarith
  moreover have "(b + 256 * c) mod 256 = b \<and> (b + 256 * c) div 256 = c" if "b < 256" for b c :: nat
    using that by simp
  ultimately have "?v mod 256 = x + x div 16 + 16 * (y mod 16)" "?v div 256 = y + y div 16"
    unfolding v by blast+
  moreover have "x + x div 16 + 16 * (y mod 16) AND 0x0F = x + x div 16 AND (0x0F::nat)"
    by (subst (1 2) and_mod_left [of _ 4]) simp_all
  ultimately have "?v AND bytes 0x0F (Suc n)
      = (x + x div 16 AND 0x0F) + 256 * (y + y div 16 AND bytes 0x0F n)"
    by (simp only: bytes.simps and_byte_step)
  then show ?thesis by (simp add: swar3_def)
qed

text \<open>One byte, checked for each of its values.\<close>

abbreviation (input) swar8 :: "nat \<Rightarrow> nat" where
  "swar8 x \<equiv> swar3 1 (swar2 1 (swar1 1 x))"
lemma pop8: "pop 8 x = x mod 2 + (x div 2 mod 2 + (x div 4 mod 2 + (x div 8 mod 2 +
  (x div 16 mod 2 + (x div 32 mod 2 + (x div 64 mod 2 + x div 128 mod 2))))))"
proof -
  have "8 = Suc (Suc (Suc (Suc (Suc (Suc (Suc (Suc 0)))))))" by simp
  then have "pop 8 x = pop (Suc (Suc (Suc (Suc (Suc (Suc (Suc (Suc 0)))))))) x" by metis
  then show ?thesis by (simp add: div_mult2_eq [symmetric])
qed
lemma b1: "bytes c 1 = c" unfolding One_nat_def by (simp del: One_nat_def)

lemma byte_check_int:
  "list_all (\<lambda>x :: int. let a = x - (x div 2 AND 0x55); b = (a AND 0x33) + (a div 4 AND 0x33)
     in (b + b div 16 AND 0x0F) = x mod 2 + (x div 2 mod 2 + (x div 4 mod 2 + (x div 8 mod 2 +
  (x div 16 mod 2 + (x div 32 mod 2 + (x div 64 mod 2 + x div 128 mod 2))))))
     \<and> a < 256 \<and> b \<le> 0x44 \<and> b mod 16 \<le> 4) [0..255]"
  by code_simp
lemma byte_facts:
  assumes "x < 256"
  shows "swar8 x = pop 8 x \<and> swar1 1 x < 256 \<and> swar2 1 (swar1 1 x) \<le> 0x44
      \<and> swar2 1 (swar1 1 x) mod 16 \<le> 4"
proof -
  define a where "a = x - (x div 2 AND 0x55)"
  define b where "b = (a AND 0x33) + (a div 4 AND 0x33)"
  have "int x \<in> set [0..255]" using assms by simp
  note f = bspec [OF iffD1 [OF list_all_iff byte_check_int] this, unfolded Let_def]
  have "(x div 2 AND 0x55) \<le> x" by (rule half_and_le)
  then have a: "int a = int x - (int x div 2 AND 0x55)" by (simp add: a_def of_nat_diff zdiv_int of_nat_and_eq)
  have b: "int b = (int a AND 0x33) + (int a div 4 AND 0x33)" by (simp add: b_def zdiv_int of_nat_and_eq)
  have "int (b + b div 16 AND 0x0F) = int (pop 8 x) \<and> int a < 256 \<and> int b \<le> 0x44 \<and> int (b mod 16) \<le> 4"
    using f unfolding a [symmetric] b [symmetric] by (simp add: pop8 zdiv_int zmod_int of_nat_and_eq)
  then show ?thesis unfolding swar3_def swar2_def swar1_def b1
    by (simp only: a_def [symmetric] b_def [symmetric]) presburger
qed

fun bpop :: "nat \<Rightarrow> nat \<Rightarrow> nat" where
  "bpop 0 x = 0"
| "bpop (Suc n) x = pop 8 (x mod 256) + 256 * bpop n (x div 256)"

lemma swar_bpop:
  assumes "x < 256 ^ n"
  shows "swar3 n (swar2 n (swar1 n x)) = bpop n x \<and> swar1 n x < 256 ^ n
    \<and> swar2 n (swar1 n x) \<le> bytes 0x44 n \<and> swar2 n (swar1 n x) mod 16 \<le> 4"
  using assms
proof (induction n arbitrary: x)
  case 0
  then show ?case by (simp add: swar1_def swar2_def swar3_def)
next
  case (Suc n)
  let ?a = "x mod 256" and ?b = "x div 256"
  have x: "x = ?a + 256 * ?b" and a: "?a < 256" by simp_all
  have b: "?b < 256 ^ n" using Suc.prems by (simp add: less_mult_imp_div_less mult.commute)
  note ih = Suc.IH [OF b] and f = byte_facts [OF a]
  have 1: "swar1 (Suc n) x = swar1 1 ?a + 256 * swar1 n ?b"
    using swar1_step [OF a, of n ?b] by simp
  have 2: "swar2 (Suc n) (swar1 (Suc n) x) = swar2 1 (swar1 1 ?a) + 256 * swar2 n (swar1 n ?b)"
    unfolding 1 using f by (intro swar2_step) simp
  have 3: "swar3 (Suc n) (swar2 (Suc n) (swar1 (Suc n) x)) = pop 8 ?a + 256 * bpop n ?b"
    unfolding 2 using f ih by (subst swar3_step) simp_all
  have 4: "swar1 (Suc n) x < 256 ^ Suc n" unfolding 1 using f ih by simp
  have 5: "swar2 (Suc n) (swar1 (Suc n) x) \<le> bytes 0x44 (Suc n)" unfolding 2 using f ih by simp
  have "256 * swar2 n (swar1 n ?b) = 16 * (16 * swar2 n (swar1 n ?b))" by simp
  then have 6: "swar2 (Suc n) (swar1 (Suc n) x) mod 16 \<le> 4"
    unfolding 2 using f by (simp only: mod_mult_self2)
  show ?case using 3 4 5 6 by simp
qed

text \<open>The product with \<open>0x0101\<dots>\<close> adds the bytes up in its top byte.\<close>

lemma pop_le: "pop n x \<le> n"
proof (induction n arbitrary: x)
  case (Suc n)
  have "x mod 2 < 2" by simp
  then show ?case using Suc.IH [of "x div 2"] by (simp add: le_Suc_eq) linarith
qed simp

lemma pop_add: "pop (m + n) x = pop m x + pop n (x div 2 ^ m)"
  by (induction m arbitrary: x) (simp_all add: div_mult2_eq)

lemma pop_mod: "pop n (x mod 2 ^ n) = pop n x"
  by (induction n arbitrary: x) (simp_all add: mod_mult2_eq)

lemma top_byte:
  fixes y0 :: nat
  assumes "y0 \<le> 8" "y1 \<le> 8" "y2 \<le> 8" "y3 \<le> 8" "y4 \<le> 8" "y5 \<le> 8" "y6 \<le> 8" "y7 \<le> 8"
  shows "(y0 + 256 * (y1 + 256 * (y2 + 256 * (y3 + 256 * (y4 + 256 * (y5 + 256 * (y6 + 256 * y7)))))))
      * 0x0101010101010101 mod 2 ^ 64 div 2 ^ 56 = y0 + y1 + y2 + y3 + y4 + y5 + y6 + y7"
proof -
  define q where "q = (y1 + y2 + y3 + y4 + y5 + y6 + y7) + 256 * ((y2 + y3 + y4 + y5 + y6 + y7)
    + 256 * ((y3 + y4 + y5 + y6 + y7) + 256 * ((y4 + y5 + y6 + y7) + 256 * ((y5 + y6 + y7)
    + 256 * ((y6 + y7) + 256 * y7)))))"
  define r where "r = y0 + 256 * ((y0 + y1) + 256 * ((y0 + y1 + y2) + 256 * ((y0 + y1 + y2 + y3)
    + 256 * ((y0 + y1 + y2 + y3 + y4) + 256 * ((y0 + y1 + y2 + y3 + y4 + y5)
    + 256 * (y0 + y1 + y2 + y3 + y4 + y5 + y6))))))"
  define t where "t = y0 + y1 + y2 + y3 + y4 + y5 + y6 + y7"
  have "(y0 + 256 * (y1 + 256 * (y2 + 256 * (y3 + 256 * (y4 + 256 * (y5 + 256 * (y6 + 256 * y7)))))))
      * 0x0101010101010101 = 2 ^ 64 * q + (2 ^ 56 * t + r)"
    unfolding q_def r_def t_def by simp
  moreover have r: "r < 2 ^ 56" unfolding r_def using assms by simp
  moreover have "2 ^ 56 * t + r < 2 ^ 64" unfolding t_def using assms r by simp
  ultimately show ?thesis unfolding t_def [symmetric] by simp
qed

lemma bpop_8:
  "bpop 8 x * 0x0101010101010101 mod 2 ^ 64 div 2 ^ 56 = pop 64 x"
proof -
  have 8: "8 = Suc (Suc (Suc (Suc (Suc (Suc (Suc (Suc 0)))))))" by simp
  have b: "bpop (Suc n) x = pop 8 x + 256 * bpop n (x div 256)" for n x
    using pop_mod [of 8 x] by simp
  define P where "P k = pop 8 (x div 256 ^ k)" for k
  have "bpop 8 x = P 0 + 256 * (P 1 + 256 * (P 2 + 256 * (P 3 + 256 * (P 4 + 256 * (P 5
      + 256 * (P 6 + 256 * P 7))))))"
    by (subst (1) 8) (simp add: b P_def div_mult2_eq [symmetric] del: bpop.simps(2))
  moreover have "P k \<le> 8" for k unfolding P_def by (rule pop_le)
  ultimately have "bpop 8 x * 0x0101010101010101 mod 2 ^ 64 div 2 ^ 56
      = P 0 + P 1 + P 2 + P 3 + P 4 + P 5 + P 6 + P 7"
    by (simp only: top_byte)
  also have "\<dots> = pop (8 + (8 + (8 + (8 + (8 + (8 + (8 + 8))))))) x"
    by (simp only: pop_add) (simp add: P_def div_mult2_eq [symmetric])
  also have "\<dots> = pop 64 x" by simp
  finally show ?thesis .
qed

lemma bytes_masks:
  "bytes 0x55 8 = 0x5555555555555555" "bytes 0x33 8 = 0x3333333333333333"
  "bytes 0x0F 8 = 0x0F0F0F0F0F0F0F0F" "bytes 0x44 8 = 0x4444444444444444"
proof -
  have "8 = Suc (Suc (Suc (Suc (Suc (Suc (Suc (Suc 0)))))))" by simp
  then have "bytes c 8 = c + 256 * (c + 256 * (c + 256 * (c + 256 * (c + 256 * (c + 256
      * (c + 256 * c))))))" for c
    by (simp only: bytes.simps mult_0_right add_0_right)
  then show "bytes 0x55 8 = 0x5555555555555555" "bytes 0x33 8 = 0x3333333333333333"
    "bytes 0x0F 8 = 0x0F0F0F0F0F0F0F0F" "bytes 0x44 8 = 0x4444444444444444"
    by simp_all
qed

lemma hw_popcnt64_pop: "unat (hw_popcnt64 w) = pop 64 (unat w)"
proof -
  let ?x = "unat w"
  have x: "?x < 256 ^ 8" using unsigned_less [of w] by simp
  note f = swar_bpop [OF x]
  define w1 where "w1 = w - (drop_bit 1 w AND 0x5555555555555555)"
  define w2 where "w2 = (w1 AND 0x3333333333333333) + (drop_bit 2 w1 AND 0x3333333333333333)"
  define w3 where "w3 = (w2 + drop_bit 4 w2) AND 0x0F0F0F0F0F0F0F0F"
  have "(?x div 2 AND 0x5555555555555555) \<le> ?x" by (rule half_and_le)
  then have 1: "unat w1 = swar1 8 ?x"
    unfolding w1_def swar1_def bytes_masks
    by (subst unat_sub) (simp_all add: word_le_nat_alt unsigned_and_eq unsigned_drop_bit_eq drop_bit_eq_div unat_div)
  have "swar2 8 (swar1 8 ?x) < 2 ^ 64" using f by (simp add: bytes_masks)
  then have 2: "unat w2 = swar2 8 (swar1 8 ?x)"
    unfolding w2_def swar2_def bytes_masks
    by (subst unat_word_ariths) (simp add: unsigned_and_eq unsigned_drop_bit_eq drop_bit_eq_div unat_div 1)
  have "unat w2 \<le> 0x4444444444444444" using f by (simp add: bytes_masks 2)
  moreover have "unat w2 div 16 \<le> unat w2" by (rule div_le_dividend)
  moreover have "a + b < 2 ^ 64" if "a \<le> 0x4444444444444444" "b \<le> a" for a b :: nat using that by simp
  ultimately have "unat w2 + unat w2 div 16 < 2 ^ 64" by blast
  then have 3: "unat w3 = bpop 8 ?x"
    using f unfolding w3_def swar3_def bytes_masks
    by (subst unsigned_and_eq, subst unat_word_ariths) (simp add: drop_bit_eq_div unat_div 2)
  have "unat (hw_popcnt64 w) = unat (drop_bit 56 (w3 * 0x0101010101010101))"
    by (simp add: hw_popcnt64_def Let_def w1_def w2_def w3_def)
  also have "\<dots> = bpop 8 ?x * 0x0101010101010101 mod 2 ^ 64 div 2 ^ 56"
    by (simp add: unsigned_drop_bit_eq drop_bit_eq_div unat_word_ariths 3)
  finally show ?thesis by (simp only: bpop_8)
qed

lemma pop_card: "pop n x = card {i. i < n \<and> bit x i}"
proof (induction n arbitrary: x)
  case (Suc n)
  have "{i. i < Suc n \<and> bit x i} = (if odd x then {0} else {}) \<union> Suc ` {i. i < n \<and> bit (x div 2) i}"
    by (auto simp: image_iff bit_0 less_Suc_eq_0_disj bit_Suc split: if_splits)
  moreover have "card (Suc ` {i. i < n \<and> bit (x div 2) i}) = pop n (x div 2)"
    by (simp add: card_image Suc.IH)
  ultimately show ?case by (auto simp: card_insert_if odd_iff_mod_2_eq_one)
qed simp

lemma hw_popcnt64_card: "unat (hw_popcnt64 w) = card {i. bit w i}"
proof -
  have "{i. i < 64 \<and> bit (unat w) i} = {i. bit w i}"
    by (auto simp: bit_unsigned_iff dest: bit_imp_le_length)
  then show ?thesis by (simp add: hw_popcnt64_pop pop_card)
qed

section \<open>Scanning and masking\<close>

lemma bit_hw_bzhi64: "bit (hw_bzhi64 src n) i \<longleftrightarrow> bit src i \<and> i < n"
  by (auto simp: hw_bzhi64_def bit_simps push_bit_eq_mult simp flip: mask_eq_decr_exp dest: bit_imp_le_length)

lemma bit_hw_andn64: "bit (hw_andn64 a b) i \<longleftrightarrow> \<not> bit a i \<and> bit b i"
  by (auto simp: hw_andn64_def bit_simps dest: bit_imp_le_length)

lemma hw_ctz32:
  assumes "w \<noteq> 0"
  shows "bit w (hw_ctz32 w)" "i < hw_ctz32 w \<Longrightarrow> \<not> bit w i" "hw_ctz32 w < 32"
proof -
  let ?xs = "takeWhile (\<lambda>i. \<not> bit w i) [0..<32]"
  obtain j where j: "bit w j" using assms by (auto simp: bit_eq_iff)
  then have j32: "j < 32" using bit_imp_le_length by fastforce
  have n: "hw_ctz32 w = length ?xs" using assms by (simp add: hw_ctz32_def)
  have "length ?xs \<noteq> 32"
  proof
    assume "length ?xs = 32"
    then have "?xs = [0..<32]" by (metis length_upt diff_zero takeWhile_eq_take take_all_iff order_refl)
    then have "\<forall>i\<in>set [0..<32]. \<not> bit w i" by (simp only: takeWhile_eq_all_conv)
    then show False using j j32 by simp
  qed
  then have l: "length ?xs < 32" using length_takeWhile_le [of "\<lambda>i. \<not> bit w i" "[0..<32]"] by simp
  then show "hw_ctz32 w < 32" by (simp add: n)
  show "bit w (hw_ctz32 w)" using nth_length_takeWhile [of "\<lambda>i. \<not> bit w i" "[0..<32]"] l by (simp add: n)
  show "\<not> bit w i" if "i < hw_ctz32 w"
  proof -
    have "i < length ?xs" using that by (simp add: n)
    moreover from this have "?xs ! i = i" using l by (simp add: takeWhile_nth)
    ultimately have "i \<in> set ?xs" using nth_mem by metis
    then show ?thesis by (metis set_takeWhileD)
  qed
qed

lemma bsr_bounds: "n > 0 \<Longrightarrow> 2 ^ bsr n \<le> n \<and> n < 2 ^ Suc (bsr n)"
proof (induction n rule: bsr.induct)
  case (1 n)
  show ?case
  proof (cases "n < 2")
    case True
    with 1 show ?thesis by (simp add: bsr.simps [of n])
  next
    case False
    then have "2 ^ bsr (n div 2) \<le> n div 2 \<and> n div 2 < 2 ^ Suc (bsr (n div 2))" using 1 by simp
    then show ?thesis using False by (simp add: bsr.simps [of n])  linarith
  qed
qed

end
