(* ===== verification/Frame_Bitmap.thy ===== *)
theory Frame_Bitmap
  imports Hwaccel
begin

text \<open>
  The frame bitmap of \<^verbatim>\<open>kernel/mm/pmm.c\<close>: one bit per page frame, 1 for allocated,
  handled a word at a time. The array is a function from word index to word; frame numbers
  and counts are naturals (physical addresses divided by the page size, at most \<open>2 ^ 52\<close>, so
  that nothing wraps). The word loops are shown to do what a loop over single bits would,
  and to touch no word outside the array.
\<close>

definition PMM_MAX_FRAMES :: nat where "PMM_MAX_FRAMES = 2 ^ 24"

type_synonym bitmap = "nat \<Rightarrow> u64"

definition bitmap_test :: "bitmap \<Rightarrow> nat \<Rightarrow> bool" where
  "bitmap_test bm frame = (if frame \<ge> PMM_MAX_FRAMES then True else bit (bm (frame div 64)) (frame mod 64))"

definition word_mask :: "nat \<Rightarrow> nat \<Rightarrow> u64" where
  "word_mask b n = push_bit b (hw_bzhi64 (NOT 0) n)"

text \<open>\<open>None\<close> where the clamp reports an empty range.\<close>

definition range_clamp :: "nat \<Rightarrow> nat \<Rightarrow> nat option" where
  "range_clamp frame count =
     (if frame \<ge> PMM_MAX_FRAMES then None
      else let c = (if count > PMM_MAX_FRAMES - frame then PMM_MAX_FRAMES - frame else count)
           in if c \<noteq> 0 then Some c else None)"

function bitmap_set_loop :: "bitmap \<Rightarrow> nat \<Rightarrow> nat \<Rightarrow> u64 \<Rightarrow> bitmap \<times> u64" where
  "bitmap_set_loop bm frame count changed =
     (if count = 0 then (bm, changed)
      else let b = frame mod 64;
               n = (if 64 - b > count then count else 64 - b);
               mask = word_mask b n;
               w = bm (frame div 64)
           in bitmap_set_loop (bm(frame div 64 := w OR mask)) (frame + n) (count - n)
                (changed + hw_popcnt64 (hw_andn64 w mask)))"
  by pat_completeness auto
termination
proof (relation "measure (\<lambda>(bm, frame, count, changed). count)", goal_cases)
  case (2 bm frame count changed b n mask w)
  then show ?case using mod_less_divisor [of 64 frame] by (auto split: if_splits)
qed simp

function bitmap_clear_loop :: "bitmap \<Rightarrow> nat \<Rightarrow> nat \<Rightarrow> u64 \<Rightarrow> bitmap \<times> u64" where
  "bitmap_clear_loop bm frame count changed =
     (if count = 0 then (bm, changed)
      else let b = frame mod 64;
               n = (if 64 - b > count then count else 64 - b);
               mask = word_mask b n;
               w = bm (frame div 64)
           in bitmap_clear_loop (bm(frame div 64 := w AND NOT mask)) (frame + n) (count - n)
                (changed + hw_popcnt64 (w AND mask)))"
  by pat_completeness auto
termination
proof (relation "measure (\<lambda>(bm, frame, count, changed). count)", goal_cases)
  case (2 bm frame count changed b n mask w)
  then show ?case using mod_less_divisor [of 64 frame] by (auto split: if_splits)
qed simp

declare bitmap_set_loop.simps [simp del] bitmap_clear_loop.simps [simp del]

definition bitmap_range_set :: "bitmap \<Rightarrow> nat \<Rightarrow> nat \<Rightarrow> bitmap \<times> u64" where
  "bitmap_range_set bm frame count =
     (case range_clamp frame count of None \<Rightarrow> (bm, 0) | Some c \<Rightarrow> bitmap_set_loop bm frame c 0)"

definition bitmap_range_clear :: "bitmap \<Rightarrow> nat \<Rightarrow> nat \<Rightarrow> bitmap \<times> u64" where
  "bitmap_range_clear bm frame count =
     (case range_clamp frame count of None \<Rightarrow> (bm, 0) | Some c \<Rightarrow> bitmap_clear_loop bm frame c 0)"

text \<open>The whole words, then the last partial word, of the test for a free range.\<close>

fun bitmap_clear_tail :: "bitmap \<Rightarrow> nat \<Rightarrow> nat \<Rightarrow> bool" where
  "bitmap_clear_tail bm frame count =
     (if count \<ge> 64 then
        (if frame \<ge> PMM_MAX_FRAMES then False
         else if bm (frame div 64) \<noteq> 0 then False
         else bitmap_clear_tail bm (frame + 64) (count - 64))
      else if count \<noteq> 0 then
        (if frame \<ge> PMM_MAX_FRAMES then False
         else if bm (frame div 64) AND word_mask 0 count \<noteq> 0 then False
         else True)
      else True)"

declare bitmap_clear_tail.simps [simp del]

definition bitmap_range_is_clear :: "bitmap \<Rightarrow> nat \<Rightarrow> nat \<Rightarrow> bool" where
  "bitmap_range_is_clear bm frame count =
     (if count = 0 then True
      else let b = frame mod 64
           in if b \<noteq> 0 then
                (let n = (if 64 - b > count then count else 64 - b)
                 in if frame \<ge> PMM_MAX_FRAMES then False
                    else if bm (frame div 64) AND word_mask b n \<noteq> 0 then False
                    else bitmap_clear_tail bm (frame + n) (count - n))
              else bitmap_clear_tail bm frame count)"

section \<open>Reference: a loop over single bits\<close>

abbreviation (input) fbit :: "bitmap \<Rightarrow> nat \<Rightarrow> bool" where
  "fbit bm k \<equiv> bit (bm (k div 64)) (k mod 64)"

lemma bit_word_mask:
  assumes "b + n \<le> 64"
  shows "bit (word_mask b n) i \<longleftrightarrow> b \<le> i \<and> i < b + n"
proof
  assume "bit (word_mask b n) i"
  moreover from this have "i < 64" using bit_imp_le_length by fastforce
  ultimately show "b \<le> i \<and> i < b + n" by (auto simp: word_mask_def bit_simps bit_hw_bzhi64)
next
  assume "b \<le> i \<and> i < b + n"
  then show "bit (word_mask b n) i" using assms by (auto simp: word_mask_def bit_simps bit_hw_bzhi64)
qed

text \<open>The frames of one word that a step of the loops handles.\<close>

lemma chunk:
  fixes frame k :: nat
  assumes "n \<le> 64 - frame mod 64"
  shows "frame \<le> k \<and> k < frame + n \<longleftrightarrow>
    k div 64 = frame div 64 \<and> frame mod 64 \<le> k mod 64 \<and> k mod 64 < frame mod 64 + n"
proof -
  have gen: "64 * q + b \<le> 64 * p + j \<and> 64 * p + j < 64 * q + b + n \<longleftrightarrow> p = q \<and> b \<le> j \<and> j < b + n"
    if "n \<le> 64 - b" "b < 64" "j < 64" for p q b j :: nat
    using that by (cases p q rule: linorder_cases) auto
  show ?thesis
    using gen [OF assms, of "k mod 64" "frame div 64" "k div 64"] by simp
qed

lemma card_chunk:
  fixes frame :: nat
  assumes "n \<le> 64 - frame mod 64"
  shows "card {k. frame \<le> k \<and> k < frame + n \<and> P (k mod 64)}
    = card {i. frame mod 64 \<le> i \<and> i < frame mod 64 + n \<and> P i}"
proof -
  have "{k. frame \<le> k \<and> k < frame + n \<and> P (k mod 64)}
      = (\<lambda>i. 64 * (frame div 64) + i) ` {i. frame mod 64 \<le> i \<and> i < frame mod 64 + n \<and> P i}"
    (is "?A = ?f ` ?B")
  proof
    show "?A \<subseteq> ?f ` ?B"
    proof
      fix k assume "k \<in> ?A"
      then have "k mod 64 \<in> ?B" and q: "k div 64 = frame div 64" using chunk [OF assms, of k] by auto
      moreover have "k = ?f (k mod 64)" unfolding q [symmetric] by simp
      ultimately show "k \<in> ?f ` ?B" by blast
    qed
    show "?f ` ?B \<subseteq> ?A"
    proof
      fix k assume "k \<in> ?f ` ?B"
      then obtain i where i: "i \<in> ?B" "k = 64 * (frame div 64) + i" by blast
      moreover from i have "i < 64" using assms mod_less_divisor [of 64 frame] by auto
      ultimately have "k mod 64 = i" "k div 64 = frame div 64" by simp_all
      then show "k \<in> ?A" using i(1) chunk [OF assms, of k] by auto
    qed
  qed
  then show ?thesis by (simp only:) (rule card_image, simp add: inj_on_def)
qed

text \<open>How many frames of a range have a given state.\<close>

definition count_bits :: "bitmap \<Rightarrow> bool \<Rightarrow> nat \<Rightarrow> nat \<Rightarrow> nat" where
  "count_bits bm v frame count = card {k. frame \<le> k \<and> k < frame + count \<and> fbit bm k = v}"

lemma count_bits_0 [simp]: "count_bits bm v frame 0 = 0"
proof -
  have "{k. frame \<le> k \<and> k < frame + 0 \<and> fbit bm k = v} = {}" by auto
  then show ?thesis unfolding count_bits_def by (simp only: card.empty)
qed

lemma count_bits_le: "count_bits bm v frame count \<le> count"
proof -
  have "card {k. frame \<le> k \<and> k < frame + count \<and> fbit bm k = v} \<le> card {frame..<frame + count}"
    by (rule card_mono) auto
  then show ?thesis by (simp add: count_bits_def)
qed

lemma count_bits_full:
  "count_bits bm v frame count = count \<longleftrightarrow> (\<forall>k. frame \<le> k \<and> k < frame + count \<longrightarrow> fbit bm k = v)"
proof -
  let ?A = "{k. frame \<le> k \<and> k < frame + count \<and> fbit bm k = v}"
  have "?A \<subseteq> {frame..<frame + count}" by auto
  then have "card ?A = count \<Longrightarrow> ?A = {frame..<frame + count}"
    by (intro card_subset_eq) simp_all
  moreover have "?A = {frame..<frame + count} \<Longrightarrow> card ?A = count" by simp
  moreover have "?A = {frame..<frame + count} \<longleftrightarrow> (\<forall>k. frame \<le> k \<and> k < frame + count \<longrightarrow> fbit bm k = v)"
    by (auto simp: set_eq_iff)
  ultimately show ?thesis unfolding count_bits_def by blast
qed

lemma count_bits_split:
  "n \<le> count \<Longrightarrow> count_bits bm v frame count = count_bits bm v frame n + count_bits bm v (frame + n) (count - n)"
proof -
  assume n: "n \<le> count"
  have "{k. frame \<le> k \<and> k < frame + count \<and> fbit bm k = v}
      = {k. frame \<le> k \<and> k < frame + n \<and> fbit bm k = v}
      \<union> {k. frame + n \<le> k \<and> k < frame + n + (count - n) \<and> fbit bm k = v}"
    using n by auto
  moreover have "card ({k. frame \<le> k \<and> k < frame + n \<and> fbit bm k = v}
      \<union> {k. frame + n \<le> k \<and> k < frame + n + (count - n) \<and> fbit bm k = v})
    = card {k. frame \<le> k \<and> k < frame + n \<and> fbit bm k = v}
      + card {k. frame + n \<le> k \<and> k < frame + n + (count - n) \<and> fbit bm k = v}"
    by (rule card_Un_disjoint) auto
  ultimately show ?thesis unfolding count_bits_def by (simp only:)
qed

lemma count_bits_chunk:
  assumes "n \<le> 64 - frame mod 64"
  shows "count_bits bm v frame n
    = card {i. frame mod 64 \<le> i \<and> i < frame mod 64 + n \<and> bit (bm (frame div 64)) i = v}"
proof -
  have "{k. frame \<le> k \<and> k < frame + n \<and> fbit bm k = v}
      = {k. frame \<le> k \<and> k < frame + n \<and> bit (bm (frame div 64)) (k mod 64) = v}"
    by (rule Collect_cong) (use chunk [OF assms] in metis)
  then show ?thesis unfolding count_bits_def
    by (simp only: card_chunk [OF assms, of "\<lambda>i. bit (bm (frame div 64)) i = v"])
qed

lemma count_bits_cong:
  "(\<And>k. frame \<le> k \<Longrightarrow> k < frame + count \<Longrightarrow> fbit bm k = fbit bm' k)
    \<Longrightarrow> count_bits bm v frame count = count_bits bm' v frame count"
  unfolding count_bits_def by (rule arg_cong [of _ _ card]) auto


text \<open>One step of either loop on the word that holds the current frame.\<close>

lemma fbit_upd:
  fixes frame :: nat
  assumes "n \<le> 64 - frame mod 64"
    and "\<And>i. i < 64 \<Longrightarrow> bit w i \<longleftrightarrow> (if frame mod 64 \<le> i \<and> i < frame mod 64 + n then v else bit (bm (frame div 64)) i)"
  shows "fbit (bm(frame div 64 := w)) k \<longleftrightarrow> (if frame \<le> k \<and> k < frame + n then v else fbit bm k)"
  unfolding chunk [OF assms(1)] using assms(2) [of "k mod 64"] by auto

lemma chunk_bound: "(if 64 - frame mod 64 > count then count else 64 - frame mod 64) \<le> 64 - frame mod (64::nat)"
  by simp

lemma bitmap_set_loop:
  "(\<forall>k. fbit (fst (bitmap_set_loop bm frame count ch)) k \<longleftrightarrow> frame \<le> k \<and> k < frame + count \<or> fbit bm k)
    \<and> snd (bitmap_set_loop bm frame count ch) = ch + of_nat (count_bits bm False frame count)"
proof (induction bm frame count ch rule: bitmap_set_loop.induct)
  case (1 bm frame count ch)
  show ?case
  proof (cases "count = 0")
    case True
    then show ?thesis by (subst (1 2) bitmap_set_loop.simps) auto
  next
    case False
    define n where "n = (if 64 - frame mod 64 > count then count else 64 - frame mod 64)"
    define w where "w = bm (frame div 64)"
    define m where "m = word_mask (frame mod 64) n"
    define bm1 where "bm1 = bm(frame div 64 := w OR m)"
    have n: "n \<le> 64 - frame mod 64" "n \<le> count" by (simp_all add: n_def)
    have m: "bit m i \<longleftrightarrow> frame mod 64 \<le> i \<and> i < frame mod 64 + n" for i
      unfolding m_def using n(1) mod_less_divisor [of 64 frame] by (intro bit_word_mask) linarith
    have step: "bitmap_set_loop bm frame count ch
        = bitmap_set_loop bm1 (frame + n) (count - n) (ch + hw_popcnt64 (hw_andn64 w m))"
      using False by (subst bitmap_set_loop.simps) (simp add: Let_def n_def w_def m_def bm1_def)
    have ih: "(\<forall>k. fbit (fst (bitmap_set_loop bm1 (frame + n) (count - n) c)) k \<longleftrightarrow>
          frame + n \<le> k \<and> k < frame + n + (count - n) \<or> fbit bm1 k)
        \<and> snd (bitmap_set_loop bm1 (frame + n) (count - n) c)
          = c + of_nat (count_bits bm1 False (frame + n) (count - n))"
      if "c = ch + hw_popcnt64 (hw_andn64 w m)" for c
      unfolding that bm1_def m_def w_def n_def by (rule 1 [OF False refl refl refl refl])
    have b1: "fbit bm1 k \<longleftrightarrow> (if frame \<le> k \<and> k < frame + n then True else fbit bm k)" for k
      unfolding bm1_def by (rule fbit_upd [OF n(1)]) (auto simp: bit_simps m w_def)
    have "{i. bit (hw_andn64 w m) i} = {i. frame mod 64 \<le> i \<and> i < frame mod 64 + n \<and> bit (bm (frame div 64)) i = False}"
      by (auto simp: bit_hw_andn64 m w_def)
    then have "count_bits bm False frame n = unat (hw_popcnt64 (hw_andn64 w m))"
      by (simp only: hw_popcnt64_card count_bits_chunk [OF n(1)])
    then have c1: "hw_popcnt64 (hw_andn64 w m) = of_nat (count_bits bm False frame n)" by simp
    have c2: "count_bits bm1 False (frame + n) (count - n) = count_bits bm False (frame + n) (count - n)"
      by (rule count_bits_cong) (simp add: b1)
    have rng: "(frame + n \<le> k \<and> k < frame + n + (count - n) \<or> frame \<le> k \<and> k < frame + n) = (frame \<le> k \<and> k < frame + count)" for k
      using n(2) by linarith
    show ?thesis
      using ih [OF refl] unfolding step by (simp add: b1 c1 c2 count_bits_split [OF n(2), of bm False frame]) (use rng in blast)
  qed
qed

lemma bitmap_clear_loop:
  "(\<forall>k. fbit (fst (bitmap_clear_loop bm frame count ch)) k \<longleftrightarrow> \<not> (frame \<le> k \<and> k < frame + count) \<and> fbit bm k)
    \<and> snd (bitmap_clear_loop bm frame count ch) = ch + of_nat (count_bits bm True frame count)"
proof (induction bm frame count ch rule: bitmap_clear_loop.induct)
  case (1 bm frame count ch)
  show ?case
  proof (cases "count = 0")
    case True
    then show ?thesis by (subst (1 2) bitmap_clear_loop.simps) auto
  next
    case False
    define n where "n = (if 64 - frame mod 64 > count then count else 64 - frame mod 64)"
    define w where "w = bm (frame div 64)"
    define m where "m = word_mask (frame mod 64) n"
    define bm1 where "bm1 = bm(frame div 64 := w AND NOT m)"
    have n: "n \<le> 64 - frame mod 64" "n \<le> count" by (simp_all add: n_def)
    have m: "bit m i \<longleftrightarrow> frame mod 64 \<le> i \<and> i < frame mod 64 + n" for i
      unfolding m_def using n(1) mod_less_divisor [of 64 frame] by (intro bit_word_mask) linarith
    have step: "bitmap_clear_loop bm frame count ch
        = bitmap_clear_loop bm1 (frame + n) (count - n) (ch + hw_popcnt64 (w AND m))"
      using False by (subst bitmap_clear_loop.simps) (simp add: Let_def n_def w_def m_def bm1_def)
    have ih: "(\<forall>k. fbit (fst (bitmap_clear_loop bm1 (frame + n) (count - n) c)) k \<longleftrightarrow>
          \<not> (frame + n \<le> k \<and> k < frame + n + (count - n)) \<and> fbit bm1 k)
        \<and> snd (bitmap_clear_loop bm1 (frame + n) (count - n) c)
          = c + of_nat (count_bits bm1 True (frame + n) (count - n))"
      if "c = ch + hw_popcnt64 (w AND m)" for c
      unfolding that bm1_def m_def w_def n_def by (rule 1 [OF False refl refl refl refl])
    have b1: "fbit bm1 k \<longleftrightarrow> (if frame \<le> k \<and> k < frame + n then False else fbit bm k)" for k
      unfolding bm1_def by (rule fbit_upd [OF n(1)]) (auto simp: bit_simps m w_def)
    have "{i. bit (w AND m) i} = {i. frame mod 64 \<le> i \<and> i < frame mod 64 + n \<and> bit (bm (frame div 64)) i = True}"
      by (auto simp: bit_simps m w_def)
    then have "count_bits bm True frame n = unat (hw_popcnt64 (w AND m))"
      by (simp only: hw_popcnt64_card count_bits_chunk [OF n(1)])
    then have c1: "hw_popcnt64 (w AND m) = of_nat (count_bits bm True frame n)" by simp
    have c2: "count_bits bm1 True (frame + n) (count - n) = count_bits bm True (frame + n) (count - n)"
      by (rule count_bits_cong) (simp add: b1)
    have rng: "(frame + n \<le> k \<and> k < frame + n + (count - n) \<or> frame \<le> k \<and> k < frame + n) = (frame \<le> k \<and> k < frame + count)" for k
      using n(2) by linarith
    have b1': "fbit bm1 k \<longleftrightarrow> \<not> (frame \<le> k \<and> k < frame + n) \<and> fbit bm k" for k
      by (simp add: b1)
    have "fbit (fst (bitmap_clear_loop bm frame count ch)) k \<longleftrightarrow> \<not> (frame \<le> k \<and> k < frame + count) \<and> fbit bm k" for k
      unfolding step using spec [OF conjunct1 [OF ih [OF refl]], of k] b1' [of k] rng [of k] by blast
    moreover have "snd (bitmap_clear_loop bm frame count ch) = ch + of_nat (count_bits bm True frame count)"
      unfolding step using conjunct2 [OF ih [OF refl]] by (simp add: c1 c2 count_bits_split [OF n(2)])
    ultimately show ?thesis by blast
  qed
qed


text \<open>Testing a range.\<close>

lemma word_part_clear:
  fixes frame :: nat
  assumes "n \<le> 64 - frame mod 64"
  shows "bm (frame div 64) AND word_mask (frame mod 64) n = 0
    \<longleftrightarrow> (\<forall>k. frame \<le> k \<and> k < frame + n \<longrightarrow> \<not> fbit bm k)"
proof -
  have m: "bit (word_mask (frame mod 64) n) i \<longleftrightarrow> frame mod 64 \<le> i \<and> i < frame mod 64 + n" for i
    using assms mod_less_divisor [of 64 frame] by (intro bit_word_mask) linarith
  have lt: "i < 64" if "i < frame mod 64 + n" for i
    using that assms mod_less_divisor [of 64 frame] by linarith
  have "bm (frame div 64) AND word_mask (frame mod 64) n = 0
      \<longleftrightarrow> card {i. frame mod 64 \<le> i \<and> i < frame mod 64 + n \<and> bit (bm (frame div 64)) i = True} = 0"
    by (subst card_0_eq) (use lt in \<open>auto simp: bit_eq_iff bit_simps m\<close>)
  also have "\<dots> \<longleftrightarrow> count_bits bm True frame n = 0" by (simp only: count_bits_chunk [OF assms])
  also have "\<dots> \<longleftrightarrow> (\<forall>k. frame \<le> k \<and> k < frame + n \<longrightarrow> \<not> fbit bm k)"
    unfolding count_bits_def by (subst card_0_eq) auto
  finally show ?thesis .
qed

lemma word_mask_full: "word_mask 0 64 = NOT 0"
  by (rule bit_eqI) (auto simp: bit_word_mask bit_simps)

lemma bitmap_clear_tail_0 [simp]: "bitmap_clear_tail bm frame 0"
  by (subst bitmap_clear_tail.simps) simp

lemma bitmap_clear_tail:
  assumes "frame mod 64 = 0"
  shows "bitmap_clear_tail bm frame count \<longleftrightarrow>
    (\<forall>k. frame \<le> k \<and> k < frame + count \<longrightarrow> \<not> bitmap_test bm k)"
  using assms
proof (induction bm frame count rule: bitmap_clear_tail.induct)
  case (1 bm frame count)
  have out: "(\<forall>k. frame \<le> k \<and> k < frame + c \<longrightarrow> \<not> bitmap_test bm k) \<longleftrightarrow> False"
    if "frame \<ge> PMM_MAX_FRAMES" "c > 0" for c
    using that by (auto simp: bitmap_test_def intro!: exI [of _ frame])
  have inn: "(\<forall>k. frame \<le> k \<and> k < frame + c \<longrightarrow> \<not> bitmap_test bm k)
      \<longleftrightarrow> bm (frame div 64) AND word_mask 0 c = 0"
    if "frame < PMM_MAX_FRAMES" "c \<le> 64" for c
  proof -
    obtain q where "frame = 64 * q" using 1(2) by (auto simp: mod_eq_0_iff_dvd)
    then have "frame + 64 \<le> PMM_MAX_FRAMES" using that(1) by (simp add: PMM_MAX_FRAMES_def)
    then show ?thesis using word_part_clear [of c frame bm] 1(2) that(2) by (auto simp: bitmap_test_def)
  qed
  show ?case
  proof (cases "count \<ge> 64")
    case True
    show ?thesis
    proof (cases "frame \<ge> PMM_MAX_FRAMES")
      case True
      with \<open>count \<ge> 64\<close> show ?thesis using out [of count] by (subst bitmap_clear_tail.simps) simp
    next
      case False
      have w: "bm (frame div 64) = 0 \<longleftrightarrow> (\<forall>k. frame \<le> k \<and> k < frame + 64 \<longrightarrow> \<not> bitmap_test bm k)"
        using inn [of 64] False by (simp add: word_mask_full)
      have rng: "frame \<le> k \<and> k < frame + count \<longleftrightarrow>
          frame \<le> k \<and> k < frame + 64 \<or> frame + 64 \<le> k \<and> k < frame + 64 + (count - 64)" for k
        using \<open>count \<ge> 64\<close> by linarith
      have "bitmap_clear_tail bm frame count
          \<longleftrightarrow> bm (frame div 64) = 0 \<and> bitmap_clear_tail bm (frame + 64) (count - 64)"
        using \<open>count \<ge> 64\<close> False by (subst bitmap_clear_tail.simps) simp
      moreover have "bitmap_clear_tail bm (frame + 64) (count - 64) \<longleftrightarrow>
          (\<forall>k. frame + 64 \<le> k \<and> k < frame + 64 + (count - 64) \<longrightarrow> \<not> bitmap_test bm k)"
        if "bm (frame div 64) = 0"
        using 1(1) [OF \<open>count \<ge> 64\<close> False] that 1(2) by simp
      ultimately show ?thesis using w rng by blast
    qed
  next
    case False
    then show ?thesis
      using out [of count] inn [of count] by (cases "count = 0") (auto simp: bitmap_clear_tail.simps [of bm frame count])
  qed
qed

lemma bitmap_range_is_clear:
  "bitmap_range_is_clear bm frame count \<longleftrightarrow>
    (\<forall>k. frame \<le> k \<and> k < frame + count \<longrightarrow> \<not> bitmap_test bm k)"
proof (cases "count = 0 \<or> frame mod 64 = 0")
  case True
  then show ?thesis using bitmap_clear_tail [of frame bm count] by (auto simp: bitmap_range_is_clear_def)
next
  case False
  define n where "n = (if 64 - frame mod 64 > count then count else 64 - frame mod 64)"
  have n: "n \<le> 64 - frame mod 64" "n \<le> count" "n > 0" using False by (simp_all add: n_def)
  have eq: "bitmap_range_is_clear bm frame count \<longleftrightarrow> frame < PMM_MAX_FRAMES
      \<and> bm (frame div 64) AND word_mask (frame mod 64) n = 0 \<and> bitmap_clear_tail bm (frame + n) (count - n)"
    using False by (simp add: bitmap_range_is_clear_def Let_def n_def not_le)
  have tail: "bitmap_clear_tail bm (frame + n) (count - n) \<longleftrightarrow>
      (\<forall>k. frame + n \<le> k \<and> k < frame + n + (count - n) \<longrightarrow> \<not> bitmap_test bm k)"
  proof (cases "n = count")
    case True
    then show ?thesis by (subst bitmap_clear_tail.simps) auto
  next
    case False
    then have "n = 64 - frame mod 64" by (simp add: n_def split: if_splits)
    then have "(frame + n) mod 64 = 0"
      using mod_less_divisor [of 64 frame] mod_add_left_eq [of frame 64 n] by simp
    then show ?thesis by (rule bitmap_clear_tail)
  qed
  have rng: "frame \<le> k \<and> k < frame + count \<longleftrightarrow>
      frame \<le> k \<and> k < frame + n \<or> frame + n \<le> k \<and> k < frame + n + (count - n)" for k
    using n(2) by linarith
  have out: "\<exists>k. frame \<le> k \<and> k < frame + count \<and> bitmap_test bm k" if "\<not> frame < PMM_MAX_FRAMES"
    using that n by (intro exI [of _ frame]) (simp add: bitmap_test_def)
  have inn: "bm (frame div 64) AND word_mask (frame mod 64) n = 0 \<longleftrightarrow>
      (\<forall>k. frame \<le> k \<and> k < frame + n \<longrightarrow> \<not> bitmap_test bm k)" if "frame < PMM_MAX_FRAMES"
  proof -
    have "64 * (frame div 64) + 64 \<le> PMM_MAX_FRAMES"
      using that less_mult_imp_div_less [of frame "2 ^ 18" 64] by (simp add: PMM_MAX_FRAMES_def)
    then have "frame + n \<le> PMM_MAX_FRAMES" using n(1) mod_less_divisor [of 64 frame] mult_div_mod_eq [of 64 frame] by linarith
    then show ?thesis using word_part_clear [OF n(1), of bm] by (auto simp: bitmap_test_def)
  qed
  show ?thesis
  proof (cases "frame < PMM_MAX_FRAMES")
    case True
    show ?thesis unfolding eq tail inn [OF True] using True rng by blast
  next
    case False
    then show ?thesis unfolding eq using out by blast
  qed
qed

text \<open>The two updates within the bitmap, and what they report.\<close>

lemma range_clamp_in [simp]:
  "frame + count \<le> PMM_MAX_FRAMES \<Longrightarrow> 0 < count \<Longrightarrow> range_clamp frame count = Some count"
  by (simp add: range_clamp_def)

lemma bitmap_range_set:
  assumes "frame + count \<le> PMM_MAX_FRAMES" "0 < count"
  shows "bitmap_test (fst (bitmap_range_set bm frame count)) k \<longleftrightarrow> frame \<le> k \<and> k < frame + count \<or> bitmap_test bm k"
    and "snd (bitmap_range_set bm frame count) = of_nat (count_bits bm False frame count)"
  using assms bitmap_set_loop [of bm frame count 0] by (simp_all add: bitmap_range_set_def bitmap_test_def)

lemma bitmap_range_clear:
  assumes "frame + count \<le> PMM_MAX_FRAMES" "0 < count"
  shows "bitmap_test (fst (bitmap_range_clear bm frame count)) k \<longleftrightarrow> \<not> (frame \<le> k \<and> k < frame + count) \<and> bitmap_test bm k"
    and "snd (bitmap_range_clear bm frame count) = of_nat (count_bits bm True frame count)"
  using assms bitmap_clear_loop [of bm frame count 0] by (auto simp: bitmap_range_clear_def bitmap_test_def)

section \<open>The word loops and loops over single bits\<close>

lemma bitmap_eqI:
  assumes "\<And>k. bit (bm (k div 64)) (k mod 64) = bit (bm' (k div 64)) (k mod 64)"
  shows "bm = (bm' :: bitmap)"
proof (rule ext, rule bit_eqI)
  fix w i assume "possible_bit TYPE(64 word) i"
  then have i: "i < 64" by simp
  have "(64 * w + i) div 64 = w" "(64 * w + i) mod 64 = i" using i by simp_all
  then show "bit (bm w) i = bit (bm' w) i" using assms [of "64 * w + i"] by simp
qed

fun set_bits :: "nat \<Rightarrow> nat \<Rightarrow> bitmap \<Rightarrow> bitmap" where
  "set_bits f 0 bm = bm"
| "set_bits f (Suc n) bm = set_bits (Suc f) n (bm(f div 64 := set_bit (f mod 64) (bm (f div 64))))"

fun clear_bits :: "nat \<Rightarrow> nat \<Rightarrow> bitmap \<Rightarrow> bitmap" where
  "clear_bits f 0 bm = bm"
| "clear_bits f (Suc n) bm = clear_bits (Suc f) n (bm(f div 64 := unset_bit (f mod 64) (bm (f div 64))))"

lemma same_bit:
  assumes "(k::nat) div 64 = f div 64"
  shows "k mod 64 = f mod 64 \<longleftrightarrow> k = f"
  using assms by (metis div_mult_mod_eq)

lemma fbit_set1: "fbit (bm(f div 64 := set_bit (f mod 64) (bm (f div 64)))) k \<longleftrightarrow> k = f \<or> fbit bm k"
proof (cases "k div 64 = f div 64")
  case True
  then show ?thesis by (auto simp: bit_set_bit_iff same_bit [OF True, symmetric])
next
  case False
  then show ?thesis by auto
qed

lemma fbit_clear1: "fbit (bm(f div 64 := unset_bit (f mod 64) (bm (f div 64)))) k \<longleftrightarrow> k \<noteq> f \<and> fbit bm k"
proof (cases "k div 64 = f div 64")
  case True
  then show ?thesis by (auto simp: bit_unset_bit_iff same_bit [OF True, symmetric])
next
  case False
  then show ?thesis by auto
qed

lemma fbit_set_bits: "fbit (set_bits f n bm) k \<longleftrightarrow> f \<le> k \<and> k < f + n \<or> fbit bm k"
proof (induction n arbitrary: f bm)
  case (Suc n)
  show ?case unfolding set_bits.simps Suc.IH fbit_set1 by auto
qed auto

lemma fbit_clear_bits: "fbit (clear_bits f n bm) k \<longleftrightarrow> \<not> (f \<le> k \<and> k < f + n) \<and> fbit bm k"
proof (induction n arbitrary: f bm)
  case (Suc n)
  show ?case unfolding clear_bits.simps Suc.IH fbit_clear1 by auto
qed auto

definition in_array :: "nat \<Rightarrow> nat \<Rightarrow> nat" where
  "in_array f n = min n (PMM_MAX_FRAMES - f)"

lemma range_clamp_min: "range_clamp f n = (if in_array f n = 0 then None else Some (in_array f n))"
  by (auto simp: range_clamp_def in_array_def Let_def min_def)

text \<open>C16: the word-at-a-time operations on the frame bitmap are loops over single bits: setting
  and clearing a range, clipped to the array, with the exact number of bits that changed, and
  the test that every frame of a range exists and is free.\<close>

theorem bitmap_ops_bitwise:
  "bitmap_range_set bm f n = (set_bits f (in_array f n) bm, of_nat (count_bits bm False f (in_array f n)))
    \<and> bitmap_range_clear bm f n = (clear_bits f (in_array f n) bm, of_nat (count_bits bm True f (in_array f n)))
    \<and> bitmap_range_is_clear bm f n = list_all (\<lambda>k. \<not> bitmap_test bm k) [f..<f + n]"
proof -
  let ?c = "in_array f n"
  have "fst (bitmap_set_loop bm f ?c 0) = set_bits f ?c bm"
    by (rule bitmap_eqI) (simp only: bitmap_set_loop fbit_set_bits)
  then have 1: "bitmap_set_loop bm f ?c 0 = (set_bits f ?c bm, of_nat (count_bits bm False f ?c))"
    using bitmap_set_loop [of bm f ?c 0] by (simp add: prod_eq_iff)
  have "fst (bitmap_clear_loop bm f ?c 0) = clear_bits f ?c bm"
    by (rule bitmap_eqI) (simp only: bitmap_clear_loop fbit_clear_bits)
  then have 2: "bitmap_clear_loop bm f ?c 0 = (clear_bits f ?c bm, of_nat (count_bits bm True f ?c))"
    using bitmap_clear_loop [of bm f ?c 0] by (simp add: prod_eq_iff)
  have "bitmap_range_is_clear bm f n = list_all (\<lambda>k. \<not> bitmap_test bm k) [f..<f + n]"
    by (auto simp: bitmap_range_is_clear list_all_iff)
  moreover have "bitmap_range_set bm f n = (set_bits f ?c bm, of_nat (count_bits bm False f ?c))"
    by (cases "?c = 0") (simp_all add: bitmap_range_set_def range_clamp_min 1)
  moreover have "bitmap_range_clear bm f n = (clear_bits f ?c bm, of_nat (count_bits bm True f ?c))"
    by (cases "?c = 0") (simp_all add: bitmap_range_clear_def range_clamp_min 2)
  ultimately show ?thesis by blast
qed

end
