(* ===== verification/Pmm.thy ===== *)
theory Pmm
  imports Frame_Bitmap
begin

text \<open>
  The physical page allocator (\<^verbatim>\<open>kernel/mm/pmm.c\<close>): two zones of buddy free lists, the
  frame bitmap and the per-CPU caches of single pages. The free lists are doubly linked
  through headers stored in the free pages themselves; \<open>page_hdr\<close> is the memory at the start
  of each page, free or not, read as a header, so that what the owner of a page wrote there is
  what the allocator would read. A pointer is \<open>None\<close> for null and otherwise the physical
  address of the page it points to. What runs under the lock, or with interrupts off on the
  owning CPU, is one function; the current CPU is an argument. Orders are naturals.
\<close>

section \<open>State\<close>

record free_block =
  fb_next :: "u64 option"
  fb_prev :: "u64 option"
  fb_order :: u32
  fb_magic :: u64

record pmm_zone =
  free_list :: "nat \<Rightarrow> u64 option"
  zblocks :: "nat \<Rightarrow> u64"
  orders_mask :: u32
  free_frames :: u64
  total_frames :: u64

record pmm =
  g_bitmap :: bitmap
  page_hdr :: "u64 \<Rightarrow> free_block"
  g_zone :: "nat \<Rightarrow> pmm_zone"
  g_pcp :: "nat \<Rightarrow> nat \<Rightarrow> u64 list"
  g_pmm_percpu_ready :: bool
  g_pmm_pressure :: u32

definition PMM_MAX_ORDER :: nat where "PMM_MAX_ORDER = 18"
definition PMM_BLOCK_MAGIC :: u64 where "PMM_BLOCK_MAGIC = 0x504D4D31"
definition PMM_DMA32_LIMIT :: u64 where "PMM_DMA32_LIMIT = 0x100000000"
definition PCP_CAP :: nat where "PCP_CAP = 128"
definition PCP_BATCH :: nat where "PCP_BATCH = 64"

abbreviation (input) PMM_ZONE_DMA32 :: nat where "PMM_ZONE_DMA32 \<equiv> 0"
abbreviation (input) PMM_ZONE_NORMAL :: nat where "PMM_ZONE_NORMAL \<equiv> 1"
abbreviation (input) PAGE_SIZE :: u64 where "PAGE_SIZE \<equiv> 0x1000"

definition phys_to_frame :: "u64 \<Rightarrow> nat" where
  "phys_to_frame p = unat p div 4096"

definition zone_of :: "u64 \<Rightarrow> nat" where
  "zone_of p = (if p < PMM_DMA32_LIMIT then PMM_ZONE_DMA32 else PMM_ZONE_NORMAL)"

definition buddy_of :: "u64 \<Rightarrow> nat \<Rightarrow> u64" where
  "buddy_of phys order = phys XOR push_bit order PAGE_SIZE"

abbreviation (input) upd_zone :: "nat \<Rightarrow> (pmm_zone \<Rightarrow> pmm_zone) \<Rightarrow> pmm \<Rightarrow> pmm" where
  "upd_zone z f s \<equiv> s\<lparr>g_zone := (g_zone s)(z := f (g_zone s z))\<rparr>"

abbreviation (input) upd_hdr :: "u64 \<Rightarrow> (free_block \<Rightarrow> free_block) \<Rightarrow> pmm \<Rightarrow> pmm" where
  "upd_hdr a f s \<equiv> s\<lparr>page_hdr := (page_hdr s)(a := f (page_hdr s a))\<rparr>"

section \<open>The free lists\<close>

definition zone_mark_order :: "nat \<Rightarrow> pmm_zone \<Rightarrow> pmm_zone" where
  "zone_mark_order order z =
     (if free_list z order \<noteq> None
      then z\<lparr>orders_mask := orders_mask z OR push_bit order 1\<rparr>
      else z\<lparr>orders_mask := orders_mask z AND NOT (push_bit order 1)\<rparr>)"

definition blk_insert :: "nat \<Rightarrow> nat \<Rightarrow> u64 \<Rightarrow> pmm \<Rightarrow> pmm" where
  "blk_insert zi order phys s0 =
     (let head = free_list (g_zone s0 zi) order;
          s1 = upd_hdr phys (\<lambda>b. b\<lparr>fb_next := head, fb_prev := None,
                 fb_order := of_nat order, fb_magic := PMM_BLOCK_MAGIC\<rparr>) s0;
          s2 = (case head of None \<Rightarrow> s1 | Some n \<Rightarrow> upd_hdr n (\<lambda>b. b\<lparr>fb_prev := Some phys\<rparr>) s1)
      in upd_zone zi (\<lambda>z. z\<lparr>free_list := (free_list z)(order := Some phys),
             zblocks := (zblocks z)(order := zblocks z order + 1),
             free_frames := free_frames z + push_bit order 1,
             orders_mask := orders_mask z OR push_bit order 1\<rparr>) s2)"

definition blk_unlink :: "nat \<Rightarrow> nat \<Rightarrow> u64 \<Rightarrow> pmm \<Rightarrow> pmm" where
  "blk_unlink zi order blk s0 =
     (let next0 = fb_next (page_hdr s0 blk);
          s1 = (case fb_prev (page_hdr s0 blk) of
                  Some p \<Rightarrow> upd_hdr p (\<lambda>b. b\<lparr>fb_next := next0\<rparr>) s0
                | None \<Rightarrow> upd_zone zi (\<lambda>z. z\<lparr>free_list := (free_list z)(order := next0)\<rparr>) s0);
          s2 = (case fb_next (page_hdr s1 blk) of
                  Some n \<Rightarrow> upd_hdr n (\<lambda>b. b\<lparr>fb_prev := fb_prev (page_hdr s1 blk)\<rparr>) s1
                | None \<Rightarrow> s1);
          s3 = upd_hdr blk (\<lambda>b. b\<lparr>fb_magic := 0, fb_next := None, fb_prev := None\<rparr>) s2
      in upd_zone zi (\<lambda>z. zone_mark_order order
             (z\<lparr>zblocks := (zblocks z)(order := zblocks z order - 1),
                free_frames := free_frames z - push_bit order 1\<rparr>)) s3)"

definition blk_pop :: "nat \<Rightarrow> nat \<Rightarrow> pmm \<Rightarrow> pmm \<times> u64" where
  "blk_pop zi order s =
     (case free_list (g_zone s zi) order of
        None \<Rightarrow> (s, 0)
      | Some blk \<Rightarrow> (blk_unlink zi order blk s, blk))"

definition blk_remove :: "nat \<Rightarrow> nat \<Rightarrow> u64 \<Rightarrow> pmm \<Rightarrow> pmm \<times> bool" where
  "blk_remove zi order phys s =
     (if fb_magic (page_hdr s phys) \<noteq> PMM_BLOCK_MAGIC \<or> fb_order (page_hdr s phys) \<noteq> of_nat order
      then (s, False)
      else (blk_unlink zi order phys s, True))"

section \<open>Allocating and freeing under the lock\<close>

fun split_loop :: "nat \<Rightarrow> u64 \<Rightarrow> nat \<Rightarrow> nat \<Rightarrow> pmm \<Rightarrow> pmm" where
  "split_loop zi blk order 0 s = s"
| "split_loop zi blk order (Suc found) s =
     (if Suc found > order
      then split_loop zi blk order found (blk_insert zi found (blk + push_bit found PAGE_SIZE) s)
      else s)"

definition zone_alloc_locked :: "nat \<Rightarrow> nat \<Rightarrow> pmm \<Rightarrow> pmm \<times> u64" where
  "zone_alloc_locked zi order s =
     (let avail = orders_mask (g_zone s zi) AND NOT (push_bit order 1 - 1)
      in if avail = 0 then (s, 0)
         else let found = hw_ctz32 avail;
                  (s1, blk) = blk_pop zi found s
              in if blk = 0
                 then (upd_zone zi (\<lambda>z. z\<lparr>orders_mask := orders_mask z AND NOT (push_bit found 1)\<rparr>) s1, 0)
                 else let s2 = split_loop zi blk order found s1;
                          bm = fst (bitmap_range_set (g_bitmap s2) (phys_to_frame blk) (2 ^ order))
                      in (s2\<lparr>g_bitmap := bm\<rparr>, blk))"

definition zone_alloc_any_locked :: "nat \<Rightarrow> pmm \<Rightarrow> pmm \<times> u64" where
  "zone_alloc_any_locked order s =
     (let (s1, p) = zone_alloc_locked PMM_ZONE_NORMAL order s
      in if p = 0 then zone_alloc_locked PMM_ZONE_DMA32 order s1 else (s1, p))"

text \<open>The coalescing loop returns the block that is finally inserted.\<close>

function merge_loop :: "nat \<Rightarrow> u64 \<Rightarrow> nat \<Rightarrow> pmm \<Rightarrow> pmm \<times> u64 \<times> nat" where
  "merge_loop zi phys order s =
     (if order < PMM_MAX_ORDER then
        (let bud = buddy_of phys order
         in if \<not> bitmap_range_is_clear (g_bitmap s) (phys_to_frame bud) (2 ^ order) then (s, phys, order)
            else let (s1, ok) = blk_remove zi order bud s
                 in if \<not> ok then (s1, phys, order)
                    else merge_loop zi (min phys bud) (Suc order) s1)
      else (s, phys, order))"
  by pat_completeness auto
termination by (relation "measure (\<lambda>(zi, phys, order, s). PMM_MAX_ORDER - order)") auto

declare merge_loop.simps [simp del]

definition zone_free_locked :: "u64 \<Rightarrow> nat \<Rightarrow> pmm \<Rightarrow> pmm \<times> bool" where
  "zone_free_locked phys order s =
     (let zi = zone_of phys;
          (bm, was_allocated) = bitmap_range_clear (g_bitmap s) (phys_to_frame phys) (2 ^ order);
          s1 = s\<lparr>g_bitmap := bm\<rparr>
      in if was_allocated \<noteq> push_bit order 1 then (s1, False)
         else let (s2, phys', order') = merge_loop zi phys order s1
              in (blk_insert zi order' phys' s2, True))"

section \<open>The per-CPU caches\<close>

text \<open>A cache is the list of its \<^verbatim>\<open>count\<close> valid slots, the top of the stack last.\<close>

fun zone_bulk_alloc :: "nat \<Rightarrow> nat \<Rightarrow> pmm \<Rightarrow> pmm \<times> u64 list" where
  "zone_bulk_alloc zone 0 s = (s, [])"
| "zone_bulk_alloc zone (Suc want) s =
     (let (s1, p) = zone_alloc_locked zone 0 s
      in if p = 0 then (s1, [])
         else let (s2, ps) = zone_bulk_alloc zone want s1 in (s2, p # ps))"

fun zone_bulk_free :: "u64 list \<Rightarrow> pmm \<Rightarrow> pmm" where
  "zone_bulk_free [] s = s"
| "zone_bulk_free (p # ps) s = zone_bulk_free ps (fst (zone_free_locked p 0 s))"

abbreviation (input) set_pcp :: "nat \<Rightarrow> nat \<Rightarrow> u64 list \<Rightarrow> pmm \<Rightarrow> pmm" where
  "set_pcp cpu zone ps s \<equiv> s\<lparr>g_pcp := (g_pcp s)(cpu := (g_pcp s cpu)(zone := ps))\<rparr>"

definition pcp_alloc :: "nat \<Rightarrow> nat \<Rightarrow> pmm \<Rightarrow> pmm \<times> u64" where
  "pcp_alloc cpu zone s =
     (if g_pcp s cpu zone = [] then
        (if orders_mask (g_zone s zone) = 0 then (s, 0)
         else let (s1, ps) = zone_bulk_alloc zone PCP_BATCH s
              in if ps = [] then (s1, 0)
                 else (set_pcp cpu zone (butlast ps) s1, last ps))
      else (set_pcp cpu zone (butlast (g_pcp s cpu zone)) s, last (g_pcp s cpu zone)))"

definition pcp_free :: "nat \<Rightarrow> u64 \<Rightarrow> pmm \<Rightarrow> pmm" where
  "pcp_free cpu phys s =
     (let zone = zone_of phys;
          s1 = (if length (g_pcp s cpu zone) = PCP_CAP
                then let s0 = zone_bulk_free (take PCP_BATCH (g_pcp s cpu zone)) s
                     in set_pcp cpu zone (drop PCP_BATCH (g_pcp s cpu zone)) s0
                else s)
      in set_pcp cpu zone (g_pcp s1 cpu zone @ [phys]) s1)"

definition pmm_enable_percpu :: "pmm \<Rightarrow> pmm" where
  "pmm_enable_percpu s = s\<lparr>g_pmm_percpu_ready := True\<rparr>"

definition drain_zone :: "nat \<Rightarrow> nat \<Rightarrow> pmm \<Rightarrow> pmm" where
  "drain_zone cpu zone s =
     (let tmp = g_pcp s cpu zone in zone_bulk_free tmp (set_pcp cpu zone [] s))"

definition pmm_drain_local :: "nat \<Rightarrow> pmm \<Rightarrow> pmm" where
  "pmm_drain_local cpu s =
     (if \<not> g_pmm_percpu_ready s then s
      else drain_zone cpu PMM_ZONE_NORMAL (drain_zone cpu PMM_ZONE_DMA32 s))"

definition pcp_cached :: "nat \<Rightarrow> nat \<Rightarrow> pmm \<Rightarrow> u64" where
  "pcp_cached ncpu zone s =
     (if \<not> g_pmm_percpu_ready s then 0
      else of_nat (sum_list (map (\<lambda>c. length (g_pcp s c zone)) [0..<min ncpu 64])))"

text \<open>The callback of the reclaim worker, which runs on the CPU that owns the cache. \<open>None\<close> is
  the panic on a page the allocator refuses.\<close>

fun reclaim_zone :: "nat \<Rightarrow> nat \<Rightarrow> nat \<Rightarrow> nat \<Rightarrow> pmm \<Rightarrow> (pmm \<times> nat) option" where
  "reclaim_zone cpu zone 0 moved s = Some (s, moved)"
| "reclaim_zone cpu zone (Suc quota) moved s =
     (if g_pcp s cpu zone = [] then Some (s, moved)
      else let phys = last (g_pcp s cpu zone);
               (s1, ok) = zone_free_locked phys 0 (set_pcp cpu zone (butlast (g_pcp s cpu zone)) s)
           in if \<not> ok then None else reclaim_zone cpu zone quota (Suc moved) s1)"

definition pmm_reclaim_callback ::
    "nat \<Rightarrow> bool \<Rightarrow> u32 \<Rightarrow> nat \<Rightarrow> pmm \<Rightarrow> (pmm \<times> nat \<times> bool) option" where
  "pmm_reclaim_callback cpu locked zones0 budget0 s =
     (let budget = (if budget0 > 32 then 32 else budget0);
          zones = zones0 AND 3
      in if g_pmm_percpu_ready s \<and> cpu < 64 \<and> budget \<noteq> 0 \<and> zones \<noteq> 0 then
           (if \<not> locked then
              (let quota = budget div (of_bool (bit zones 0) + of_bool (bit zones 1))
               in case (if bit zones 0 then reclaim_zone cpu 0 quota 0 s else Some (s, 0)) of
                    None \<Rightarrow> None
                  | Some (s1, m1) \<Rightarrow>
                      (case (if m1 < budget \<and> bit zones 1 then reclaim_zone cpu 1 quota m1 s1 else Some (s1, m1)) of
                         None \<Rightarrow> None
                       | Some (s2, m2) \<Rightarrow> Some (s2, m2, False)))
            else Some (s, 0, True))
         else Some (s, 0, False))"

section \<open>The interface\<close>

abbreviation (input) publish :: "u32 \<Rightarrow> pmm \<times> u64 \<Rightarrow> pmm \<times> u64" where
  "publish zones r \<equiv> (if snd r = 0 then (fst r)\<lparr>g_pmm_pressure := g_pmm_pressure (fst r) OR zones\<rparr> else fst r, snd r)"

definition pmm_alloc :: "nat \<Rightarrow> nat \<Rightarrow> pmm \<Rightarrow> pmm \<times> u64" where
  "pmm_alloc cpu order s =
     (if order > PMM_MAX_ORDER then (s, 0)
      else let (s1, r1) = (if order = 0 \<and> g_pmm_percpu_ready s
                           then let (sa, ra) = pcp_alloc cpu PMM_ZONE_NORMAL s
                                in if ra = 0 then pcp_alloc cpu PMM_ZONE_DMA32 sa else (sa, ra)
                           else (s, 0));
               (s2, r2) = (if r1 = 0 then zone_alloc_any_locked order s1 else (s1, r1));
               (s3, r3) = (if r2 = 0 \<and> g_pmm_percpu_ready s2
                           then zone_alloc_any_locked order (pmm_drain_local cpu s2) else (s2, r2))
           in publish 3 (s3, r3))"

definition pmm_alloc_32 :: "nat \<Rightarrow> nat \<Rightarrow> pmm \<Rightarrow> pmm \<times> u64" where
  "pmm_alloc_32 cpu order s =
     (if order > PMM_MAX_ORDER then (s, 0)
      else let (s1, r1) = (if order = 0 \<and> g_pmm_percpu_ready s
                           then pcp_alloc cpu PMM_ZONE_DMA32 s else (s, 0));
               (s2, r2) = (if r1 = 0 then zone_alloc_locked PMM_ZONE_DMA32 order s1 else (s1, r1));
               (s3, r3) = (if r2 = 0 \<and> g_pmm_percpu_ready s2
                           then zone_alloc_locked PMM_ZONE_DMA32 order (pmm_drain_local cpu s2) else (s2, r2))
           in publish 1 (s3, r3))"

text \<open>Clearing the pages clears what would be read as their headers.\<close>

definition clear_pages :: "u64 \<Rightarrow> nat \<Rightarrow> pmm \<Rightarrow> pmm" where
  "clear_pages p n s =
     s\<lparr>page_hdr := (\<lambda>a. if a \<in> set (map (\<lambda>i. p + of_nat i * PAGE_SIZE) [0..<n])
         then \<lparr>fb_next = None, fb_prev = None, fb_order = 0, fb_magic = 0\<rparr> else page_hdr s a)\<rparr>"

definition pmm_alloc_zeroed :: "nat \<Rightarrow> nat \<Rightarrow> pmm \<Rightarrow> pmm \<times> u64" where
  "pmm_alloc_zeroed cpu order s =
     (let (s1, p) = pmm_alloc cpu order s
      in if p \<noteq> 0 then (clear_pages p (2 ^ order) s1, p) else (s1, p))"

text \<open>\<open>None\<close> is the panic on a misaligned address.\<close>

definition pmm_free :: "nat \<Rightarrow> u64 \<Rightarrow> nat \<Rightarrow> pmm \<Rightarrow> pmm option" where
  "pmm_free cpu phys order s =
     (if phys = 0 \<or> order > PMM_MAX_ORDER then Some s
      else if phys AND (push_bit order PAGE_SIZE - 1) \<noteq> 0 then None
      else if order = 0 \<and> g_pmm_percpu_ready s then Some (pcp_free cpu phys s)
      else Some (fst (zone_free_locked phys order s)))"

definition pages_to_order :: "u64 \<Rightarrow> nat option" where
  "pages_to_order count =
     (if count > push_bit PMM_MAX_ORDER 1 then None
      else if count \<le> 1 then Some 0
      else let order = 64 - hw_clz64 (count - 1)
           in Some (if order > PMM_MAX_ORDER then PMM_MAX_ORDER else order))"

definition pmm_alloc_pages :: "nat \<Rightarrow> u64 \<Rightarrow> pmm \<Rightarrow> pmm \<times> u64" where
  "pmm_alloc_pages cpu page_count s =
     (if page_count = 0 then (s, 0)
      else case pages_to_order page_count of None \<Rightarrow> (s, 0) | Some order \<Rightarrow> pmm_alloc cpu order s)"

definition pmm_alloc_pages_32 :: "nat \<Rightarrow> u64 \<Rightarrow> pmm \<Rightarrow> pmm \<times> u64" where
  "pmm_alloc_pages_32 cpu page_count s =
     (if page_count = 0 then (s, 0)
      else case pages_to_order page_count of None \<Rightarrow> (s, 0) | Some order \<Rightarrow> pmm_alloc_32 cpu order s)"

text \<open>The largest order, going down from the given one, at which a block fits.\<close>

fun run_order :: "u64 \<Rightarrow> nat \<Rightarrow> nat \<Rightarrow> nat" where
  "run_order cur left 0 = 0"
| "run_order cur left (Suc ord) =
     (if left \<ge> 2 ^ Suc ord \<and> cur AND (push_bit (Suc ord) PAGE_SIZE - 1) = 0 then Suc ord
      else run_order cur left ord)"

function free_run :: "nat \<Rightarrow> u64 \<Rightarrow> nat \<Rightarrow> pmm \<Rightarrow> pmm option" where
  "free_run cpu cur left s =
     (if left = 0 then Some s
      else let ord = run_order cur left PMM_MAX_ORDER
           in case pmm_free cpu cur ord s of
                None \<Rightarrow> None
              | Some s1 \<Rightarrow> free_run cpu (cur + push_bit ord PAGE_SIZE) (left - 2 ^ ord) s1)"
  by pat_completeness auto
termination by (relation "measure (\<lambda>(cpu, cur, left, s). left)") auto

declare free_run.simps [simp del]

definition pmm_free_pages :: "nat \<Rightarrow> u64 \<Rightarrow> u64 \<Rightarrow> pmm \<Rightarrow> pmm option" where
  "pmm_free_pages cpu phys page_count s =
     (if phys = 0 \<or> page_count = 0 then Some s
      else case pages_to_order page_count of
             Some order \<Rightarrow> pmm_free cpu phys order s
           | None \<Rightarrow> free_run cpu phys (unat page_count) s)"

definition pmm_get_free_pages :: "nat \<Rightarrow> pmm \<Rightarrow> u64" where
  "pmm_get_free_pages ncpu s =
     free_frames (g_zone s 0) + pcp_cached ncpu 0 s + (free_frames (g_zone s 1) + pcp_cached ncpu 1 s)"

definition pmm_get_total_pages :: "pmm \<Rightarrow> u64" where
  "pmm_get_total_pages s = total_frames (g_zone s 0) + total_frames (g_zone s 1)"

section \<open>Initialisation\<close>

record memmap_entry =
  mm_base :: u64
  mm_length :: u64
  mm_type :: u64

definition PAGE_ALIGN_UP :: "u64 \<Rightarrow> u64" where
  "PAGE_ALIGN_UP a = (a + PAGE_SIZE - 1) AND NOT (PAGE_SIZE - 1)"

definition PAGE_ALIGN_DOWN :: "u64 \<Rightarrow> u64" where
  "PAGE_ALIGN_DOWN a = a AND NOT (PAGE_SIZE - 1)"

definition PMM_MAX_ADDR :: nat where "PMM_MAX_ADDR = 4096 * PMM_MAX_FRAMES"

text \<open>The part of an entry that is added: \<open>None\<close> where the code skips the entry.\<close>

definition region_of :: "memmap_entry \<Rightarrow> (nat \<times> nat) option" where
  "region_of e =
     (if mm_type e \<noteq> 0 then None
      else let base0 = PAGE_ALIGN_UP (mm_base e);
               end = unat (PAGE_ALIGN_DOWN (mm_base e + mm_length e));
               base = unat (if base0 < PAGE_SIZE then PAGE_SIZE else base0)
           in if base \<ge> end then None
              else if base \<ge> PMM_MAX_ADDR then None
              else Some (base, if end > PMM_MAX_ADDR then PMM_MAX_ADDR else end))"

fun init_order :: "nat \<Rightarrow> nat \<Rightarrow> nat \<Rightarrow> nat" where
  "init_order cur end 0 = 0"
| "init_order cur end (Suc ord) =
     (if cur mod (4096 * 2 ^ Suc ord) = 0 \<and> cur + 4096 * 2 ^ Suc ord \<le> end then Suc ord
      else init_order cur end ord)"

function init_blocks :: "nat \<Rightarrow> nat \<Rightarrow> pmm \<Rightarrow> pmm" where
  "init_blocks cur end s =
     (if cur < end then
        (let ord = init_order cur end PMM_MAX_ORDER;
             zi = zone_of (of_nat cur);
             s1 = blk_insert zi ord (of_nat cur) s
         in init_blocks (cur + 4096 * 2 ^ ord) end
              (upd_zone zi (\<lambda>z. z\<lparr>total_frames := total_frames z + push_bit ord 1\<rparr>) s1))
      else s)"
  by pat_completeness auto
termination by (relation "measure (\<lambda>(cur, end, s). end - cur)") (auto intro!: diff_less_mono2)

declare init_blocks.simps [simp del]

definition init_region :: "memmap_entry \<Rightarrow> pmm \<Rightarrow> pmm" where
  "init_region e s =
     (case region_of e of
        None \<Rightarrow> s
      | Some (base, end) \<Rightarrow>
          init_blocks base end (s\<lparr>g_bitmap :=
            fst (bitmap_range_clear (g_bitmap s) (base div 4096) ((end - base) div 4096))\<rparr>))"

definition pmm_init :: "memmap_entry list \<Rightarrow> pmm \<Rightarrow> pmm" where
  "pmm_init entries s =
     fold init_region entries
       (s\<lparr>g_bitmap := (\<lambda>w. -1), g_pcp := (\<lambda>c zone. []),
          g_zone := (\<lambda>zi. \<lparr>free_list = (\<lambda>order. None), zblocks = (\<lambda>order. 0), orders_mask = 0,
                           free_frames = 0, total_frames = 0\<rparr>)\<rparr>)"

end
