(* ===== verification/Buddy.thy ===== *)
theory Buddy
  imports Az_Prelude
begin

text \<open>
  Sets of naturally aligned power-of-two blocks, the specification level of the buddy
  allocator of \<^verbatim>\<open>kernel/mm/pmm.c\<close>. A block is a pair of its first frame and its order.
  Two aligned blocks are nested or disjoint; splitting and merging keep a set of blocks
  disjoint; and a set without a pair of free buddies is determined by the frames it covers.
\<close>

section \<open>Blocks\<close>

type_synonym block = "nat \<times> nat"

definition frames :: "block \<Rightarrow> nat set" where
  "frames b = {fst b ..< fst b + 2 ^ snd b}"

definition aligned :: "block \<Rightarrow> bool" where
  "aligned b \<longleftrightarrow> 2 ^ snd b dvd fst b"

definition buddy :: "nat \<Rightarrow> nat \<Rightarrow> nat" where
  "buddy f o' = flip_bit o' f"

lemma frames_iff: "k \<in> frames (f, p) \<longleftrightarrow> f \<le> k \<and> k < f + 2 ^ p"
  by (simp add: frames_def)

lemma frames_base [simp, intro]: "f \<in> frames (f, p)"
  by (simp add: frames_def)

lemma frames_not_empty [simp]: "frames b \<noteq> {}"
  by (simp add: frames_def)

lemma finite_frames [simp]: "finite (frames b)"
  by (simp add: frames_def)

lemma card_frames [simp]: "card (frames b) = 2 ^ snd b"
  by (simp add: frames_def)

lemma frames_0 [simp]: "frames (f, 0) = {f}"
  by (auto simp: frames_def)

lemma aligned_0 [simp]: "aligned (f, 0)"
  by (simp add: aligned_def)

lemma aligned_frames:
  assumes "aligned (f, p)"
  shows "k \<in> frames (f, p) \<longleftrightarrow> k div 2 ^ p = f div 2 ^ p"
proof -
  obtain q where q: "f = 2 ^ p * q" using assms by (auto simp: aligned_def)
  have "k div 2 ^ p = q \<longleftrightarrow> q \<le> k div 2 ^ p \<and> k div 2 ^ p < Suc q" by auto
  also have "\<dots> \<longleftrightarrow> q * 2 ^ p \<le> k \<and> k < Suc q * 2 ^ p"
    by (simp only: less_eq_div_iff_mult_less_eq div_less_iff_less_mult zero_less_power zero_less_numeral)
  finally show ?thesis by (auto simp: q frames_iff algebra_simps)
qed

text \<open>Aligned blocks are nested or disjoint.\<close>

lemma nested_or_disjoint:
  assumes "aligned (f, p)" and "aligned (g, q)" and "p \<le> q"
    and k: "k \<in> frames (f, p)" "k \<in> frames (g, q)"
  shows "frames (f, p) \<subseteq> frames (g, q)"
proof
  fix j assume j: "j \<in> frames (f, p)"
  have "(2::nat) ^ q = 2 ^ p * 2 ^ (q - p)" using assms(3) by (simp flip: power_add)
  then have dq: "i div 2 ^ q = i div 2 ^ p div 2 ^ (q - p)" for i :: nat
    by (simp add: div_mult2_eq)
  show "j \<in> frames (g, q)"
    using j k assms(1,2) by (simp add: aligned_frames dq)
qed

lemma frames_mono: "p \<le> q \<Longrightarrow> frames (f, p) \<subseteq> frames (f, q)"
proof -
  assume "p \<le> q"
  then have le: "(2::nat) ^ p \<le> 2 ^ q" by (intro power_increasing) simp_all
  show ?thesis
  proof
    fix x assume "x \<in> frames (f, p)"
    with le show "x \<in> frames (f, q)" unfolding frames_iff by linarith
  qed
qed

lemma frames_subset_order: "frames (f, p) \<subseteq> frames (g, q) \<Longrightarrow> p \<le> q"
proof -
  assume "frames (f, p) \<subseteq> frames (g, q)"
  then have "card (frames (f, p)) \<le> card (frames (g, q))" by (rule card_mono [rotated]) simp
  then show ?thesis by simp
qed

lemma frames_same_order:
  assumes "frames (f, p) \<subseteq> frames (g, p)"
  shows "f = g"
proof -
  have "frames (f, p) = frames (g, p)"
    using assms by (rule card_subset_eq [rotated]) simp_all
  then show ?thesis
    by (metis frames_base frames_iff le_antisym)
qed

lemma aligned_mono: "aligned (f, q) \<Longrightarrow> p \<le> q \<Longrightarrow> aligned (f, p)"
  by (auto simp: aligned_def intro: dvd_trans le_imp_power_dvd)

lemma frames_bound:
  assumes "\<And>k. k \<in> frames (g, q) \<Longrightarrow> k < m"
  shows "g + 2 ^ q \<le> m"
proof -
  have "(0::nat) < 2 ^ q" by simp
  then have "g + 2 ^ q - 1 \<in> frames (g, q)" unfolding frames_iff by linarith
  from assms [OF this] show ?thesis by linarith
qed

section \<open>Buddies\<close>

lemma unset_bit_minus: "bit f p \<Longrightarrow> unset_bit p f = f - 2 ^ p" for f :: nat
proof -
  assume b: "bit f p"
  have "set_bit p (unset_bit p f) = f" by (rule bit_eqI) (use b in \<open>auto simp: bit_simps\<close>)
  moreover have "set_bit p (unset_bit p f) = unset_bit p f + 2 ^ p"
    by (simp add: set_bit_eq bit_simps)
  ultimately show ?thesis by simp
qed

lemma bit_ge: "bit f p \<Longrightarrow> 2 ^ p \<le> f" for f :: nat
proof (rule ccontr)
  assume "bit f p" "\<not> 2 ^ p \<le> f"
  then show False by (simp add: bit_iff_odd)
qed

lemma buddy_if: "buddy f p = (if bit f p then f - 2 ^ p else f + 2 ^ p)"
  by (simp add: buddy_def flip_bit_eq_if set_bit_eq unset_bit_minus)

lemma bit_of_mult: "bit (2 ^ p * q :: nat) p = odd q"
  by (simp add: bit_iff_odd)

lemma buddy_mult: "buddy (2 ^ p * q) p = 2 ^ p * (if odd q then q - 1 else q + 1)"
  by (simp add: buddy_if bit_of_mult diff_mult_distrib2)

lemma aligned_buddy: "aligned (f, p) \<Longrightarrow> aligned (buddy f p, p)"
  by (auto simp: aligned_def buddy_mult elim!: dvdE)

lemma buddy_buddy [simp]: "buddy (buddy f p) p = f"
  unfolding buddy_def by (rule bit_eqI) (auto simp: bit_simps)

lemma buddy_neq [simp]: "buddy f p \<noteq> f" "f \<noteq> buddy f p"
proof -
  have "bit (buddy f p) p \<noteq> bit f p" by (simp add: buddy_def bit_simps)
  then show "buddy f p \<noteq> f" by metis
  then show "f \<noteq> buddy f p" by metis
qed

lemma buddy_low: "aligned (f, q) \<Longrightarrow> k < q \<Longrightarrow> buddy f k = f + 2 ^ k"
proof -
  assume "aligned (f, q)" and "k < q"
  then obtain t j where "f = 2 ^ q * t" "q = Suc (k + j)"
    using less_imp_Suc_add [of k q] by (auto simp: aligned_def dvd_def)
  then have f: "f = 2 ^ k * (2 * (2 ^ j * t))" by (simp add: power_add)
  have "buddy (2 ^ k * (2 * (2 ^ j * t))) k = 2 ^ k * (2 * (2 ^ j * t)) + 2 ^ k"
    unfolding buddy_mult by simp
  then show ?thesis using f by simp
qed

lemma buddy_less: "f < 2 ^ n \<Longrightarrow> p < n \<Longrightarrow> buddy f p < 2 ^ n"
  by (simp add: buddy_def take_bit_nat_eq_self_iff [symmetric] take_bit_flip_bit_eq)

lemma buddy_disjoint: "aligned (f, p) \<Longrightarrow> frames (f, p) \<inter> frames (buddy f p, p) = {}"
  by (auto simp: aligned_def frames_iff buddy_mult elim!: dvdE split: if_splits elim!: oddE)

text \<open>The union of a block and its buddy is the block of the next order.\<close>

lemma merge_aligned: "aligned (f, p) \<Longrightarrow> aligned (min f (buddy f p), Suc p)"
  by (auto simp: aligned_def buddy_mult min_def elim!: dvdE oddE evenE split: if_splits)

lemma merge_frames:
  "aligned (f, p) \<Longrightarrow> frames (min f (buddy f p), Suc p) = frames (f, p) \<union> frames (buddy f p, p)"
  by (auto simp: aligned_def frames_iff buddy_mult min_def elim!: dvdE oddE split: if_splits)

lemma buddy_in_larger:
  assumes "aligned (f, p)" "aligned (g, q)" "p < q" "frames (f, p) \<subseteq> frames (g, q)"
  shows "frames (buddy f p, p) \<subseteq> frames (g, q)"
proof -
  have "f \<in> frames (min f (buddy f p), Suc p)" using assms(1) by (simp add: merge_frames)
  then have "frames (min f (buddy f p), Suc p) \<subseteq> frames (g, q)"
    using assms by (intro nested_or_disjoint [of _ _ _ _ f]) (auto simp: merge_aligned)
  then show ?thesis using assms(1) by (simp add: merge_frames)
qed

section \<open>Sets of blocks\<close>

definition cover :: "block set \<Rightarrow> nat set" where
  "cover B = (\<Union>b\<in>B. frames b)"

definition blocks_ok :: "block set \<Rightarrow> bool" where
  "blocks_ok B \<longleftrightarrow> (\<forall>b\<in>B. aligned b) \<and> (\<forall>b\<in>B. \<forall>c\<in>B. b \<noteq> c \<longrightarrow> frames b \<inter> frames c = {})"

lemma cover_simps [simp]:
  "cover {} = {}"
  "cover (insert b B) = frames b \<union> cover B"
  "cover (B \<union> C) = cover B \<union> cover C"
  by (auto simp: cover_def)

lemma cover_mono: "b \<in> B \<Longrightarrow> frames b \<subseteq> cover B"
  by (auto simp: cover_def)

lemma in_cover_base: "(f, p) \<in> B \<Longrightarrow> f \<in> cover B"
  using cover_mono by blast

lemma blocks_okD:
  "blocks_ok B \<Longrightarrow> b \<in> B \<Longrightarrow> aligned b"
  "blocks_ok B \<Longrightarrow> b \<in> B \<Longrightarrow> c \<in> B \<Longrightarrow> k \<in> frames b \<Longrightarrow> k \<in> frames c \<Longrightarrow> b = c"
  unfolding blocks_ok_def by blast+

lemma blocks_ok_empty [simp]: "blocks_ok {}"
  by (simp add: blocks_ok_def)

lemma blocks_ok_subset: "blocks_ok B \<Longrightarrow> C \<subseteq> B \<Longrightarrow> blocks_ok C"
  unfolding blocks_ok_def by blast

lemma blocks_ok_insert:
  "blocks_ok B \<Longrightarrow> aligned b \<Longrightarrow> frames b \<inter> cover B = {} \<Longrightarrow> blocks_ok (insert b B)"
  unfolding blocks_ok_def cover_def by blast

lemma blocks_ok_union:
  "blocks_ok B \<Longrightarrow> blocks_ok C \<Longrightarrow> cover B \<inter> cover C = {} \<Longrightarrow> blocks_ok (B \<union> C)"
  unfolding blocks_ok_def cover_def by blast

lemma cover_remove:
  assumes "blocks_ok B" "b \<in> B"
  shows "cover (B - {b}) = cover B - frames b"
  using assms unfolding blocks_ok_def cover_def by blast

lemma cover_minus:
  assumes "blocks_ok B" "S \<subseteq> B"
  shows "cover (B - S) = cover B - cover S"
proof (rule set_eqI, rule iffI)
  fix k assume "k \<in> cover (B - S)"
  then obtain b where b: "b \<in> B" "b \<notin> S" "k \<in> frames b" by (auto simp: cover_def)
  have "k \<notin> frames c" if "c \<in> S" for c
    using blocks_okD(2) [OF assms(1) b(1), of c k] b that assms(2) by auto
  then show "k \<in> cover B - cover S" using b by (auto simp: cover_def)
qed (auto simp: cover_def)

lemma notin_if_disjoint: "frames b \<inter> cover B = {} \<Longrightarrow> b \<notin> B"
  using cover_mono frames_not_empty by (metis Int_absorb2)

text \<open>A block that is outside the covered frames while its buddy is covered: the buddy's base
  is the base of a block of the set, of at most the same order. This is what makes the
  header found at the buddy's address believable.\<close>

lemma buddy_base_in:
  assumes B: "blocks_ok B" and f: "aligned (f, p)" "frames (f, p) \<inter> cover B = {}"
    and b: "frames (buddy f p, p) \<subseteq> cover B"
  shows "\<exists>q\<le>p. (buddy f p, q) \<in> B"
proof -
  have "buddy f p \<in> cover B" using b by auto
  then obtain g q where gq: "(g, q) \<in> B" "buddy f p \<in> frames (g, q)" by (auto simp: cover_def)
  note al = blocks_okD(1) [OF B gq(1)] aligned_buddy [OF f(1)]
  have "q \<le> p"
  proof (rule ccontr)
    assume "\<not> q \<le> p"
    then have "frames (buddy f p, p) \<subseteq> frames (g, q)"
      using nested_or_disjoint [OF al(2) al(1), of "buddy f p"] gq(2) by auto
    then have "frames (f, p) \<subseteq> frames (g, q)"
      using buddy_in_larger [OF al(2) al(1)] \<open>\<not> q \<le> p\<close> by simp
    then show False using cover_mono [OF gq(1)] f(2) frames_not_empty [of "(f, p)"] by blast
  qed
  have "frames (g, q) \<subseteq> frames (buddy f p, p)"
    by (rule nested_or_disjoint [OF al(1) al(2) \<open>q \<le> p\<close> gq(2)]) simp
  then have "g = buddy f p" using gq(2) frames_base [of g q] by (auto simp: frames_iff)
  with gq(1) \<open>q \<le> p\<close> show ?thesis by auto
qed

section \<open>Splitting\<close>

text \<open>The upper halves that remain of a block of order \<open>q\<close> at \<open>f\<close> when its first block of
  order \<open>p\<close> is carved out.\<close>

definition halves :: "nat \<Rightarrow> nat \<Rightarrow> nat \<Rightarrow> block set" where
  "halves f p q = {(f + 2 ^ k, k) | k. p \<le> k \<and> k < q}"

lemma halves_empty [simp]: "q \<le> p \<Longrightarrow> halves f p q = {}"
  by (auto simp: halves_def)

lemma halves_Suc: "p \<le> q \<Longrightarrow> halves f p (Suc q) = insert (f + 2 ^ q, q) (halves f p q)"
  by (auto simp: halves_def less_Suc_eq)

lemma cover_halves: "p \<le> q \<Longrightarrow> cover (halves f p q) = frames (f, q) - frames (f, p)"
proof (induction q)
  case (Suc q)
  show ?case
  proof (cases "p \<le> q")
    case True
    have "{f..<f + (b + b)} - {f..<f + a} = {f + b..<f + b + b} \<union> ({f..<f + b} - {f..<f + a})"
      if "a \<le> b" for a b :: nat
      using that by auto
    from this [of "2 ^ p" "2 ^ q"] True
    have "frames (f, Suc q) - frames (f, p) = frames (f + 2 ^ q, q) \<union> (frames (f, q) - frames (f, p))"
      by (simp add: frames_def mult_2)
    then show ?thesis by (simp add: halves_Suc True Suc.IH)
  next
    case False
    with Suc.prems have "p = Suc q" by simp
    then show ?thesis by simp
  qed
qed simp

lemma blocks_ok_halves:
  assumes "aligned (f, q)"
  shows "blocks_ok (halves f p q)"
  using assms
proof (induction q)
  case (Suc q)
  have f: "aligned (f, q)" using Suc.prems by (rule aligned_mono) simp
  show ?case
  proof (cases "p \<le> q")
    case True
    have "aligned (f + 2 ^ q, q)" using f by (simp add: aligned_def)
    moreover have "frames (f + 2 ^ q, q) \<inter> cover (halves f p q) = {}"
      by (auto simp: cover_halves [OF True] frames_iff)
    ultimately show ?thesis using Suc.IH [OF f] by (simp add: halves_Suc True blocks_ok_insert)
  qed simp
qed simp

section \<open>Canonical sets\<close>

text \<open>No free block has its buddy free at the same order: everything that can be merged is.\<close>

definition merged :: "nat \<Rightarrow> block set \<Rightarrow> bool" where
  "merged m B \<longleftrightarrow> (\<forall>(f, p)\<in>B. p \<le> m \<and> (p < m \<longrightarrow> (buddy f p, p) \<notin> B))"

lemma mergedD:
  "merged m B \<Longrightarrow> (f, p) \<in> B \<Longrightarrow> p \<le> m"
  "merged m B \<Longrightarrow> (f, p) \<in> B \<Longrightarrow> p < m \<Longrightarrow> (buddy f p, p) \<notin> B"
  by (auto simp: merged_def)

text \<open>A covered aligned block has no smaller block of a canonical set inside it.\<close>

lemma merged_no_smaller:
  assumes B: "blocks_ok B" "merged m B" and f: "aligned (f, p)" "frames (f, p) \<subseteq> cover B" "p \<le> m"
  shows "(g, q) \<in> B \<Longrightarrow> q < p \<Longrightarrow> frames (g, q) \<subseteq> frames (f, p) \<Longrightarrow> False"
proof (induction q arbitrary: g rule: less_induct)
  case (less q)
  have ag: "aligned (g, q)" by (rule blocks_okD(1) [OF B(1) less.prems(1)])
  have "frames (buddy g q, q) \<subseteq> frames (f, p)"
    by (rule buddy_in_larger [OF ag f(1) less.prems(2,3)])
  then have "buddy g q \<in> cover B" using f(2) frames_base [of "buddy g q" q] by blast
  then obtain h r where hr: "(h, r) \<in> B" "buddy g q \<in> frames (h, r)"
    by (auto simp: cover_def)
  have ah: "aligned (h, r)" by (rule blocks_okD(1) [OF B(1) hr(1)])
  consider "r < q" | "r = q" | "q < r" by linarith
  then show False
  proof cases
    case 1
    then have "frames (h, r) \<subseteq> frames (buddy g q, q)"
      by (intro nested_or_disjoint [OF ah aligned_buddy [OF ag] _ hr(2)]) simp_all
    then show False
      using less.IH [OF 1 hr(1)] 1 less.prems(2) \<open>frames (buddy g q, q) \<subseteq> frames (f, p)\<close>
      by (meson less_trans subset_trans)
  next
    case 2
    then have "frames (buddy g q, q) \<subseteq> frames (h, q)"
      using nested_or_disjoint [OF aligned_buddy [OF ag] ah, of "buddy g q"] hr(2) by simp
    then have "h = buddy g q" using frames_same_order by metis
    then show False using mergedD(2) [OF B(2) less.prems(1)] hr(1) 2 less.prems(2) f(3) by simp
  next
    case 3
    then have "frames (buddy g q, q) \<subseteq> frames (h, r)"
      using nested_or_disjoint [OF aligned_buddy [OF ag] ah, of "buddy g q"] hr(2) by simp
    then have "frames (g, q) \<subseteq> frames (h, r)"
      using buddy_in_larger [OF aligned_buddy [OF ag] ah 3] by simp
    then have "(g, q) = (h, r)"
      using blocks_okD(2) [OF B(1) less.prems(1) hr(1), of g] by auto
    with 3 show False by simp
  qed
qed

lemma merged_subset:
  assumes B: "blocks_ok B" "merged m B" and C: "blocks_ok C" "merged m C"
    and c: "cover B = cover C"
  shows "B \<subseteq> C"
proof
  fix b assume b: "b \<in> B"
  obtain f p where fp: "b = (f, p)" by (cases b)
  have "f \<in> cover C" using b fp c in_cover_base by metis
  then obtain g q where gq: "(g, q) \<in> C" "f \<in> frames (g, q)" by (auto simp: cover_def)
  have af: "aligned (f, p)" and ag: "aligned (g, q)"
    using blocks_okD(1) B(1) C(1) b gq(1) fp by auto
  have cf: "frames (f, p) \<subseteq> cover C" and cg: "frames (g, q) \<subseteq> cover B"
    using cover_mono b gq(1) fp c by metis+
  have pm: "p \<le> m" "q \<le> m" using mergedD(1) B(2) C(2) b gq(1) fp by auto
  have "\<not> q < p"
  proof
    assume "q < p"
    moreover from this have "frames (g, q) \<subseteq> frames (f, p)"
      by (intro nested_or_disjoint [OF ag af _ gq(2)]) simp_all
    ultimately show False by (rule merged_no_smaller [OF C af cf pm(1) gq(1)])
  qed
  moreover have "\<not> p < q"
  proof
    assume "p < q"
    moreover from this have "frames (f, p) \<subseteq> frames (g, q)"
      using gq(2) by (intro nested_or_disjoint [OF af ag, of f]) simp_all
    ultimately show False using merged_no_smaller [OF B ag cg pm(2)] b fp by blast
  qed
  ultimately have "p = q" by simp
  then have "frames (f, p) \<subseteq> frames (g, p)"
    using gq(2) af ag by (intro nested_or_disjoint [of _ _ _ _ f]) simp_all
  then have "f = g" by (rule frames_same_order)
  with \<open>p = q\<close> gq(1) fp show "b \<in> C" by simp
qed

lemma merged_unique:
  assumes "blocks_ok B" "merged m B" "blocks_ok C" "merged m C" "cover B = cover C"
  shows "B = C"
  using merged_subset [OF assms] merged_subset [of C m B] assms by auto

end
