(* ===== verification/Pmm_Lists.thy ===== *)
theory Pmm_Lists
  imports Pmm Buddy
begin

text \<open>
  The free lists of the page allocator as sequences of frames: what a chain of headers
  represents, and that inserting and unlinking a header does to the sequence what it should,
  whatever the memory outside the lists holds.
\<close>

section \<open>Addresses\<close>

definition addr_of :: "nat \<Rightarrow> u64" where
  "addr_of f = of_nat (4096 * f)"

abbreviation (input) in_mem :: "nat \<Rightarrow> bool" where
  "in_mem f \<equiv> f < PMM_MAX_FRAMES"

lemma unat_addr_of: "in_mem f \<Longrightarrow> unat (addr_of f) = 4096 * f"
  unfolding addr_of_def PMM_MAX_FRAMES_def unsigned_of_nat by (subst take_bit_nat_eq_self) simp_all

lemma phys_to_frame_addr_of [simp]: "in_mem f \<Longrightarrow> phys_to_frame (addr_of f) = f"
  by (simp add: phys_to_frame_def unat_addr_of)

lemma addr_of_inj: "in_mem f \<Longrightarrow> in_mem g \<Longrightarrow> addr_of f = addr_of g \<longleftrightarrow> f = g"
  by (metis phys_to_frame_addr_of)

lemma addr_of_0_iff: "in_mem f \<Longrightarrow> addr_of f = 0 \<longleftrightarrow> f = 0"
proof -
  have "addr_of 0 = 0" by (simp add: addr_of_def)
  moreover have "in_mem 0" by (simp add: PMM_MAX_FRAMES_def)
  moreover assume "in_mem f"
  ultimately show ?thesis using addr_of_inj [of f 0] by simp
qed

lemma addr_of_add: "addr_of f + push_bit k PAGE_SIZE = addr_of (f + 2 ^ k)"
  by (simp add: addr_of_def push_bit_eq_mult algebra_simps)

lemma addr_of_le: "in_mem f \<Longrightarrow> in_mem g \<Longrightarrow> addr_of f \<le> addr_of g \<longleftrightarrow> f \<le> g"
  by (simp add: word_le_nat_alt unat_addr_of)

lemma min_addr_of: "in_mem f \<Longrightarrow> in_mem g \<Longrightarrow> min (addr_of f) (addr_of g) = addr_of (min f g)"
  by (simp add: min_def addr_of_le)

definition zone_fr :: "nat \<Rightarrow> nat" where
  "zone_fr f = (if f < 2 ^ 20 then 0 else 1)"

lemma zone_of_addr_of: "in_mem f \<Longrightarrow> zone_of (addr_of f) = zone_fr f"
  by (simp add: zone_of_def zone_fr_def PMM_DMA32_LIMIT_def word_less_nat_alt unat_addr_of)

lemma addr_of_push_bit: "addr_of f = push_bit 12 (of_nat f)"
  by (simp add: addr_of_def push_bit_eq_mult)

lemma buddy_of_addr_of: "buddy_of (addr_of f) p = addr_of (buddy f p)"
proof -
  have "push_bit p PAGE_SIZE = push_bit 12 (push_bit p 1)"
    by (simp add: push_bit_eq_mult)
  moreover have "(of_nat (buddy f p) :: u64) = of_nat f XOR push_bit p 1"
    by (simp add: buddy_def flip_bit_eq_xor of_nat_xor_eq of_nat_push_bit)
  ultimately show ?thesis by (simp add: buddy_of_def addr_of_push_bit push_bit_xor)
qed

section \<open>Chains\<close>

text \<open>The addresses \<open>as\<close> from the pointer \<open>first\<close> on, linked in both directions, entered
  from \<open>prv\<close> and left to \<open>nxt\<close>; \<open>lst\<close> is the last one.\<close>

fun dseg :: "(u64 \<Rightarrow> free_block) \<Rightarrow> u64 option \<Rightarrow> u64 list \<Rightarrow> u64 option \<Rightarrow> u64 option \<Rightarrow> u64 option \<Rightarrow> bool" where
  "dseg h prv [] first nxt lst \<longleftrightarrow> first = nxt \<and> lst = prv"
| "dseg h prv (a # as) first nxt lst \<longleftrightarrow>
     first = Some a \<and> fb_prev (h a) = prv \<and> dseg h (Some a) as (fb_next (h a)) nxt lst"

definition dlist :: "(u64 \<Rightarrow> free_block) \<Rightarrow> u64 list \<Rightarrow> u64 option \<Rightarrow> bool" where
  "dlist h as first \<longleftrightarrow> (\<exists>lst. dseg h None as first None lst)"

lemma dseg_append:
  "dseg h prv (as @ bs) first nxt lst \<longleftrightarrow> (\<exists>m l. dseg h prv as first m l \<and> dseg h l bs m nxt lst)"
  by (induction as arbitrary: prv first) auto

lemma dseg_cong:
  "(\<And>a. a \<in> set as \<Longrightarrow> fb_next (h a) = fb_next (h' a) \<and> fb_prev (h a) = fb_prev (h' a))
    \<Longrightarrow> dseg h prv as first nxt lst = dseg h' prv as first nxt lst"
  by (induction as arbitrary: prv first) auto

lemma dlist_cong:
  "(\<And>a. a \<in> set as \<Longrightarrow> fb_next (h a) = fb_next (h' a) \<and> fb_prev (h a) = fb_prev (h' a))
    \<Longrightarrow> dlist h as first = dlist h' as first"
  unfolding dlist_def using dseg_cong by metis

lemma dseg_last: "dseg h prv as first nxt lst \<Longrightarrow> lst = (if as = [] then prv else Some (last as))"
  by (induction as arbitrary: prv first) auto

lemma dseg_first: "dseg h prv as first nxt lst \<Longrightarrow> first = (if as = [] then nxt else Some (hd as))"
  by (cases as) auto

lemma dseg_set_next:
  assumes "dseg h prv (as @ [p]) first nxt lst" "p \<notin> set as"
  shows "dseg (h(p := (h p)\<lparr>fb_next := m\<rparr>)) prv (as @ [p]) first m lst"
proof -
  obtain q l where s: "dseg h prv as first q l" "dseg h l [p] q nxt lst"
    using assms(1) by (auto simp: dseg_append)
  have "dseg (h(p := (h p)\<lparr>fb_next := m\<rparr>)) prv as first q l"
    using s(1) assms(2) by (subst dseg_cong [of _ _ h]) auto
  then show ?thesis using s(2) by (auto simp: dseg_append)
qed

lemma dseg_set_prev:
  assumes "dseg h prv (y # as) first nxt lst" "y \<notin> set as"
  shows "dseg (h(y := (h y)\<lparr>fb_prev := q\<rparr>)) q (y # as) first nxt lst"
proof -
  have "dseg (h(y := (h y)\<lparr>fb_prev := q\<rparr>)) (Some y) as (fb_next (h y)) nxt lst"
    using assms by (subst dseg_cong [of _ _ h]) auto
  then show ?thesis using assms(1) by simp
qed

text \<open>The headers after an insertion and after an unlinking, as the code assigns them.\<close>

definition hdr_insert :: "u64 \<Rightarrow> nat \<Rightarrow> u64 option \<Rightarrow> (u64 \<Rightarrow> free_block) \<Rightarrow> u64 \<Rightarrow> free_block" where
  "hdr_insert a ord first h =
     (let h1 = h(a := (h a)\<lparr>fb_next := first, fb_prev := None, fb_order := of_nat ord, fb_magic := PMM_BLOCK_MAGIC\<rparr>)
      in case first of None \<Rightarrow> h1 | Some n \<Rightarrow> h1(n := (h1 n)\<lparr>fb_prev := Some a\<rparr>))"

definition hdr_unlink :: "u64 \<Rightarrow> (u64 \<Rightarrow> free_block) \<Rightarrow> u64 \<Rightarrow> free_block" where
  "hdr_unlink a h =
     (let h1 = (case fb_prev (h a) of Some p \<Rightarrow> h(p := (h p)\<lparr>fb_next := fb_next (h a)\<rparr>) | None \<Rightarrow> h);
          h2 = (case fb_next (h1 a) of Some n \<Rightarrow> h1(n := (h1 n)\<lparr>fb_prev := fb_prev (h1 a)\<rparr>) | None \<Rightarrow> h1)
      in h2(a := (h2 a)\<lparr>fb_magic := 0, fb_next := None, fb_prev := None\<rparr>))"

lemma page_hdr_blk_insert [simp]:
  "page_hdr (blk_insert zi ord a s) = hdr_insert a ord (free_list (g_zone s zi) ord) (page_hdr s)"
  by (simp add: blk_insert_def hdr_insert_def Let_def split: option.split)

lemma page_hdr_blk_unlink [simp]:
  "page_hdr (blk_unlink zi ord a s) = hdr_unlink a (page_hdr s)"
  by (simp add: blk_unlink_def hdr_unlink_def Let_def split: option.split)

lemma dlist_insert:
  assumes "dlist h as first" "a \<notin> set as" "distinct as"
  shows "dlist (hdr_insert a ord first h) (a # as) (Some a)"
proof (cases as)
  case Nil
  with assms(1) show ?thesis by (auto simp: dlist_def hdr_insert_def)
next
  case (Cons n bs)
  let ?h1 = "h(a := (h a)\<lparr>fb_next := first, fb_prev := None, fb_order := of_nat ord, fb_magic := PMM_BLOCK_MAGIC\<rparr>)"
  obtain lst where s: "dseg h None (n # bs) first None lst" using assms(1) Cons by (auto simp: dlist_def)
  then have f: "first = Some n" by simp
  have "dseg ?h1 None (n # bs) first None lst"
    using s assms(2) Cons by (subst dseg_cong [of _ _ h]) auto
  then have "dseg (?h1(n := (?h1 n)\<lparr>fb_prev := Some a\<rparr>)) (Some a) (n # bs) first None lst"
    by (rule dseg_set_prev) (use assms(3) Cons in simp)
  then show ?thesis using Cons f assms(2) by (auto simp: dlist_def hdr_insert_def Let_def)
qed

lemma hdr_insert_same:
  "first \<noteq> Some a \<Longrightarrow> fb_order (hdr_insert a ord first h a) = of_nat ord \<and> fb_magic (hdr_insert a ord first h a) = PMM_BLOCK_MAGIC"
  by (auto simp: hdr_insert_def Let_def split: option.split)

lemma hdr_insert_other:
  "b \<noteq> a \<Longrightarrow> fb_order (hdr_insert a ord first h b) = fb_order (h b) \<and> fb_magic (hdr_insert a ord first h b) = fb_magic (h b)"
  by (auto simp: hdr_insert_def Let_def split: option.split)

lemma hdr_insert_apart:
  "b \<noteq> a \<Longrightarrow> first \<noteq> Some b \<Longrightarrow> hdr_insert a ord first h b = h b"
  by (auto simp: hdr_insert_def Let_def split: option.split)

lemma dlist_first: "dlist h as first \<Longrightarrow> first = (if as = [] then None else Some (hd as))"
  using dseg_first by (fastforce simp: dlist_def)

lemma dlist_split:
  assumes "dlist h (xs @ a # ys) first"
  shows "fb_prev (h a) = (if xs = [] then None else Some (last xs))"
    "fb_next (h a) = (if ys = [] then None else Some (hd ys))"
proof -
  obtain lst m l where s: "dseg h None xs first m l" "dseg h l (a # ys) m None lst"
    using assms by (auto simp: dlist_def dseg_append)
  show "fb_prev (h a) = (if xs = [] then None else Some (last xs))" using s(2) dseg_last [OF s(1)] by simp
  show "fb_next (h a) = (if ys = [] then None else Some (hd ys))"
    using s(2) dseg_first [of h "Some a" ys "fb_next (h a)" None lst] by simp
qed

lemma hdr_unlink_apart:
  assumes "dlist h (xs @ a # ys) first" "b \<notin> set (xs @ a # ys)"
  shows "hdr_unlink a h b = h b"
  using dlist_split [OF assms(1)] assms(2)
  by (cases xs rule: rev_cases; cases ys) (auto simp: hdr_unlink_def Let_def)

lemma hdr_unlink_magic:
  "fb_order (hdr_unlink a h b) = fb_order (h b) \<and> fb_magic (hdr_unlink a h b) = (if b = a then 0 else fb_magic (h b))"
  by (auto simp: hdr_unlink_def Let_def split: option.split)

lemma dlist_unlink:
  assumes "dlist h (xs @ a # ys) first" "distinct (xs @ a # ys)"
  shows "dlist (hdr_unlink a h) (xs @ ys) (if xs = [] then fb_next (h a) else first)"
proof -
  obtain lst m l where s: "dseg h None xs first m l" "dseg h l (a # ys) m None lst"
    using assms(1) by (auto simp: dlist_def dseg_append)
  then have a: "m = Some a" "fb_prev (h a) = l" "dseg h (Some a) ys (fb_next (h a)) None lst" by auto
  note l = dseg_last [OF s(1)]
  have lx: "p \<in> set xs" if "l = Some p" for p using that l by (auto split: if_splits)
  define h1 where "h1 = (case l of Some p \<Rightarrow> h(p := (h p)\<lparr>fb_next := fb_next (h a)\<rparr>) | None \<Rightarrow> h)"
  have 1: "dseg h1 None xs (if xs = [] then fb_next (h a) else first) (fb_next (h a)) l"
  proof (cases xs rule: rev_cases)
    case Nil
    then show ?thesis using l by simp
  next
    case (snoc xs' p)
    then have "l = Some p" using l by simp
    then show ?thesis using dseg_set_next [of h None xs' p first m l "fb_next (h a)"] s(1) snoc assms(2)
      by (simp add: h1_def)
  qed
  have 2: "dseg h1 (Some a) ys (fb_next (h a)) None lst"
    using a(3) lx assms(2) by (subst dseg_cong [of _ _ h]) (auto simp: h1_def split: option.split)
  have h1a: "fb_next (h1 a) = fb_next (h a)" "fb_prev (h1 a) = l"
    using lx assms(2) a(2) by (auto simp: h1_def split: option.split)
  define h2 where "h2 = (case fb_next (h a) of Some n \<Rightarrow> h1(n := (h1 n)\<lparr>fb_prev := l\<rparr>) | None \<Rightarrow> h1)"
  have 3: "\<exists>lst. dseg h2 l ys (fb_next (h a)) None lst"
  proof (cases ys)
    case Nil
    then show ?thesis using 2 by (auto simp: h2_def)
  next
    case (Cons n ys')
    then have "fb_next (h a) = Some n" using 2 by simp
    then show ?thesis using dseg_set_prev [of h1 "Some a" n ys' "fb_next (h a)" None lst l] 2 Cons assms(2)
      by (auto simp: h2_def)
  qed
  have n: "fb_next (h a) = Some n \<Longrightarrow> n \<in> set ys" for n
    using dseg_first [OF a(3)] by (cases ys) auto
  have 4: "dseg h2 None xs (if xs = [] then fb_next (h a) else first) (fb_next (h a)) l"
    using 1 assms(2) n by (subst dseg_cong [of _ _ h1]) (auto simp: h2_def split: option.split)
  let ?h3 = "h2(a := (h2 a)\<lparr>fb_magic := 0, fb_next := None, fb_prev := None\<rparr>)"
  have "?h3 = hdr_unlink a h"
    unfolding hdr_unlink_def Let_def a(2) h1_def [symmetric] h1a h2_def [symmetric] by (rule refl)
  moreover have "dseg ?h3 None xs f (fb_next (h a)) l" if "dseg h2 None xs f (fb_next (h a)) l" for f
    using that assms(2) by (subst dseg_cong [of _ _ h2]) auto
  moreover have "dseg ?h3 l ys (fb_next (h a)) None lst'" if "dseg h2 l ys (fb_next (h a)) None lst'" for lst'
    using that assms(2) by (subst dseg_cong [of _ _ h2]) auto
  ultimately show ?thesis using 3 4 unfolding dlist_def dseg_append by metis
qed

end
