(* ===== verification/Pmm_Inv.thy ===== *)
theory Pmm_Inv
  imports Pmm_Lists
begin

text \<open>
  The page allocator refines a set of free blocks: the invariant of lists, headers, masks and
  counters, its preservation by inserting, unlinking, splitting and coalescing, and the effect
  of the allocation and the freeing under the lock on the set of free blocks and the bitmap.
\<close>

section \<open>The invariant\<close>

definition zone_ok :: "(u64 \<Rightarrow> free_block) \<Rightarrow> pmm_zone \<Rightarrow> (nat \<Rightarrow> nat list) \<Rightarrow> bool" where
  "zone_ok h z L \<longleftrightarrow>
     (\<forall>p. dlist h (map addr_of (L p)) (free_list z p) \<or> p > PMM_MAX_ORDER) \<and>
     (\<forall>p. zblocks z p = of_nat (length (L p)) \<or> p > PMM_MAX_ORDER) \<and>
     (\<forall>p. bit (orders_mask z) p \<longleftrightarrow> L p \<noteq> []) \<and>
     (\<forall>p f. f \<in> set (L p) \<longrightarrow> fb_order (h (addr_of f)) = of_nat p \<and> fb_magic (h (addr_of f)) = PMM_BLOCK_MAGIC) \<and>
     free_frames z = of_nat (\<Sum>p\<le>PMM_MAX_ORDER. length (L p) * 2 ^ p)"

definition block_fits :: "block \<Rightarrow> bool" where
  "block_fits b \<longleftrightarrow> snd b \<le> PMM_MAX_ORDER \<and> aligned b \<and> 1 \<le> fst b \<and> fst b + 2 ^ snd b \<le> PMM_MAX_FRAMES"

definition blks :: "(nat \<Rightarrow> nat \<Rightarrow> nat list) \<Rightarrow> block set" where
  "blks L = {(f, p). f \<in> set (L (zone_fr f) p)}"

definition lists_ok :: "(nat \<Rightarrow> nat \<Rightarrow> nat list) \<Rightarrow> bool" where
  "lists_ok L \<longleftrightarrow> (\<forall>z p. distinct (L z p)) \<and> (\<forall>z p f. f \<in> set (L z p) \<longrightarrow> zone_fr f = z \<and> block_fits (f, p))
     \<and> blocks_ok (blks L)"

definition lists_rep :: "pmm \<Rightarrow> (nat \<Rightarrow> nat \<Rightarrow> nat list) \<Rightarrow> bool" where
  "lists_rep s L \<longleftrightarrow> lists_ok L \<and> (\<forall>z\<le>1. zone_ok (page_hdr s) (g_zone s z) (L z))"

text \<open>The free lists hold the blocks \<open>B\<close>.\<close>

definition free_rep :: "pmm \<Rightarrow> block set \<Rightarrow> bool" where
  "free_rep s B \<longleftrightarrow> (\<exists>L. lists_rep s L \<and> blks L = B)"

text \<open>What an operation on the lists leaves alone: everything but the lists and the memory of
  the pages in \<open>F\<close>.\<close>

definition only_free :: "nat set \<Rightarrow> pmm \<Rightarrow> pmm \<Rightarrow> bool" where
  "only_free F s s' \<longleftrightarrow> g_pcp s' = g_pcp s \<and> g_pmm_percpu_ready s' = g_pmm_percpu_ready s
     \<and> g_pmm_pressure s' = g_pmm_pressure s \<and> (\<forall>z. total_frames (g_zone s' z) = total_frames (g_zone s z))
     \<and> (\<forall>a. a \<notin> addr_of ` F \<longrightarrow> page_hdr s' a = page_hdr s a)"

lemma only_free_refl [simp]: "only_free F s s"
  by (simp add: only_free_def)

lemma only_free_trans: "only_free F s s' \<Longrightarrow> only_free F s' s'' \<Longrightarrow> only_free F s s''"
  by (simp add: only_free_def)

lemma only_free_mono: "only_free F s s' \<Longrightarrow> F \<subseteq> G \<Longrightarrow> only_free G s s'"
  unfolding only_free_def by blast

lemma zone_fr_less: "zone_fr f \<le> 1"
  by (simp add: zone_fr_def)

lemma lists_okD:
  assumes "lists_ok L" "f \<in> set (L z p)"
  shows "zone_fr f = z" "block_fits (f, p)" "z \<le> 1" "p \<le> PMM_MAX_ORDER" "f < PMM_MAX_FRAMES" "1 \<le> f"
    "(f, p) \<in> blks L"
proof -
  show z: "zone_fr f = z" and b: "block_fits (f, p)" using assms by (auto simp: lists_ok_def)
  show "z \<le> 1" using z zone_fr_less by metis
  have "(0::nat) < 2 ^ p" by simp
  then show "f < PMM_MAX_FRAMES" using b by (simp only: block_fits_def fst_conv snd_conv) linarith
  show "p \<le> PMM_MAX_ORDER" "1 \<le> f" using b by (simp_all add: block_fits_def)
  show "(f, p) \<in> blks L" using assms(2) z by (simp add: blks_def)
qed

lemma lists_ok_same:
  assumes "lists_ok L" "f \<in> set (L z p)" "f \<in> set (L z' p')"
  shows "z = z' \<and> p = p'"
proof -
  have "blocks_ok (blks L)" using assms(1) by (simp add: lists_ok_def)
  from blocks_okD(2) [OF this lists_okD(7) [OF assms(1,2)] lists_okD(7) [OF assms(1,3)], of f]
  show ?thesis using lists_okD(1) [OF assms(1,2)] lists_okD(1) [OF assms(1,3)] by simp
qed

lemma free_repD:
  assumes "free_rep s B"
  shows "blocks_ok B" "b \<in> B \<Longrightarrow> block_fits b" "k \<in> cover B \<Longrightarrow> 1 \<le> k \<and> k < PMM_MAX_FRAMES"
proof -
  obtain L where L: "lists_ok L" "blks L = B" using assms by (auto simp: free_rep_def lists_rep_def)
  show "blocks_ok B" using L by (auto simp: lists_ok_def)
  show fits: "block_fits b" if "b \<in> B" for b
    using that L lists_okD(2) by (cases b) (auto simp: blks_def)
  show "1 \<le> k \<and> k < PMM_MAX_FRAMES" if "k \<in> cover B"
    using that fits by (fastforce simp: cover_def frames_def block_fits_def)
qed

lemma block_fits_in_mem: "block_fits (f, p) \<Longrightarrow> k \<in> frames (f, p) \<Longrightarrow> in_mem k \<and> 1 \<le> k"
  by (auto simp: block_fits_def frames_iff)

lemma zone_fr_frames:
  assumes "aligned (f, p)" "p \<le> PMM_MAX_ORDER" "k \<in> frames (f, p)"
  shows "zone_fr k = zone_fr f"
proof -
  have "k < 2 ^ 20 \<longleftrightarrow> k div 2 ^ p < 2 ^ (20 - p)" for k :: nat
  proof -
    have "(2::nat) ^ 20 = 2 ^ (20 - p) * 2 ^ p" using assms(2) by (simp add: PMM_MAX_ORDER_def flip: power_add)
    then show ?thesis by (simp add: div_less_iff_less_mult)
  qed
  then show ?thesis using assms(1,3) by (simp add: zone_fr_def aligned_frames)
qed

section \<open>One zone\<close>

text \<open>The sequences of one zone hold different frames of the memory.\<close>

definition seqs_ok :: "(nat \<Rightarrow> nat list) \<Rightarrow> bool" where
  "seqs_ok L \<longleftrightarrow> (\<forall>p. distinct (L p)) \<and> (\<forall>p f. f \<in> set (L p) \<longrightarrow> in_mem f)
     \<and> (\<forall>p q f. f \<in> set (L p) \<longrightarrow> f \<in> set (L q) \<longrightarrow> p = q)"

lemma lists_ok_seqs: "lists_ok L \<Longrightarrow> seqs_ok (L z)"
  unfolding seqs_ok_def using lists_okD(5) lists_ok_same by (metis lists_ok_def)

lemma zone_ok_cong:
  assumes "\<And>f p. f \<in> set (L p) \<Longrightarrow> h (addr_of f) = h' (addr_of f)"
  shows "zone_ok h z L = zone_ok h' z L"
proof -
  have "dlist h (map addr_of (L p)) (free_list z p) = dlist h' (map addr_of (L p)) (free_list z p)" for p
    using assms by (intro dlist_cong) auto
  moreover have "(\<forall>p f. f \<in> set (L p) \<longrightarrow> fb_order (h (addr_of f)) = of_nat p \<and> fb_magic (h (addr_of f)) = PMM_BLOCK_MAGIC)
      = (\<forall>p f. f \<in> set (L p) \<longrightarrow> fb_order (h' (addr_of f)) = of_nat p \<and> fb_magic (h' (addr_of f)) = PMM_BLOCK_MAGIC)"
    using assms by metis
  ultimately show ?thesis unfolding zone_ok_def by (simp only:)
qed

lemma zone_okD:
  assumes "zone_ok h z L"
  shows "p \<le> PMM_MAX_ORDER \<Longrightarrow> dlist h (map addr_of (L p)) (free_list z p)"
    "p \<le> PMM_MAX_ORDER \<Longrightarrow> free_list z p = (if L p = [] then None else Some (addr_of (hd (L p))))"
    "f \<in> set (L p) \<Longrightarrow> fb_order (h (addr_of f)) = of_nat p \<and> fb_magic (h (addr_of f)) = PMM_BLOCK_MAGIC"
    "bit (orders_mask z) p \<longleftrightarrow> L p \<noteq> []"
proof -
  show 1: "dlist h (map addr_of (L p)) (free_list z p)" if "p \<le> PMM_MAX_ORDER"
    using assms that by (auto simp: zone_ok_def)
  show "free_list z p = (if L p = [] then None else Some (addr_of (hd (L p))))" if "p \<le> PMM_MAX_ORDER"
    using dlist_first [OF 1 [OF that]] by (simp add: hd_map)
qed (use assms in \<open>auto simp: zone_ok_def\<close>)

definition zone_insert :: "nat \<Rightarrow> u64 \<Rightarrow> pmm_zone \<Rightarrow> pmm_zone" where
  "zone_insert p a z = z\<lparr>free_list := (free_list z)(p := Some a), zblocks := (zblocks z)(p := zblocks z p + 1),
     free_frames := free_frames z + push_bit p 1, orders_mask := orders_mask z OR push_bit p 1\<rparr>"

lemma g_zone_blk_insert [simp]:
  "g_zone (blk_insert zi p a s) = (g_zone s)(zi := zone_insert p a (g_zone s zi))"
  by (auto simp: blk_insert_def Let_def zone_insert_def split: option.split)

lemma sum_upd_length:
  assumes "p \<le> (m::nat)"
  shows "(\<Sum>q\<le>m. length ((L(p := xs)) q) * 2 ^ q) + length (L p) * 2 ^ p = length xs * 2 ^ p + (\<Sum>q\<le>m. length (L q) * (2::nat) ^ q)"
proof -
  have "(\<Sum>q\<in>{..m} - {p}. length ((L(p := xs)) q) * 2 ^ q) = (\<Sum>q\<in>{..m} - {p}. length (L q) * (2::nat) ^ q)"
    by (rule sum.cong) auto
  then show ?thesis
    using assms sum.remove [of "{..m}" p "\<lambda>q. length ((L(p := xs)) q) * (2::nat) ^ q"]
      sum.remove [of "{..m}" p "\<lambda>q. length (L q) * (2::nat) ^ q"] by simp
qed

lemma zone_ok_insert:
  assumes z: "zone_ok h z L" and L: "seqs_ok L" and p: "p \<le> PMM_MAX_ORDER"
    and f: "in_mem f" "\<And>q. f \<notin> set (L q)"
  shows "zone_ok (hdr_insert (addr_of f) p (free_list z p) h) (zone_insert p (addr_of f) z) (L(p := f # L p))"
proof -
  let ?h = "hdr_insert (addr_of f) p (free_list z p) h"
  have ne: "addr_of g \<noteq> addr_of f" if "g \<in> set (L q)" for g q
    using that f L by (auto simp: addr_of_inj seqs_ok_def)
  note fl = zone_okD(2) [OF z p]
  have hd: "free_list z p \<noteq> Some (addr_of f)"
    using ne [of "hd (L p)" p] by (auto simp: fl)
  have nhd: "free_list z p \<noteq> Some (addr_of g)" if "g \<in> set (L q)" "q \<noteq> p" for g q
  proof
    assume "free_list z p = Some (addr_of g)"
    then have "L p \<noteq> []" "addr_of (hd (L p)) = addr_of g" by (auto simp: fl split: if_splits)
    then have "g \<in> set (L p)" using L that(1) hd_in_set addr_of_inj by (metis seqs_ok_def)
    then show False using L that by (auto simp: seqs_ok_def)
  qed
  have other: "dlist ?h (map addr_of (L q)) fl' = dlist h (map addr_of (L q)) fl'" if "q \<noteq> p" for q fl'
    using ne nhd that by (intro dlist_cong) (auto simp: hdr_insert_apart)
  have this_list: "dlist ?h (addr_of f # map addr_of (L p)) (Some (addr_of f))"
    using zone_okD(1) [OF z p] by (rule dlist_insert)
      (use ne [symmetric] L in \<open>auto simp: seqs_ok_def distinct_map inj_on_def addr_of_inj\<close>)
  have fr: "free_frames z + push_bit p 1 = of_nat (\<Sum>q\<le>PMM_MAX_ORDER. length ((L(p := f # L p)) q) * 2 ^ q)"
  proof -
    have "(\<Sum>q\<le>PMM_MAX_ORDER. length ((L(p := f # L p)) q) * 2 ^ q) = 2 ^ p + (\<Sum>q\<le>PMM_MAX_ORDER. length (L q) * 2 ^ q)"
      using sum_upd_length [OF p, of L "f # L p"] by simp
    then show ?thesis using z by (simp add: zone_ok_def push_bit_eq_mult)
  qed
  have head: "fb_order (?h (addr_of g)) = of_nat q \<and> fb_magic (?h (addr_of g)) = PMM_BLOCK_MAGIC"
    if "g \<in> set ((L(p := f # L p)) q)" for g q
  proof (cases "g = f")
    case True
    then show ?thesis using that f hd by (auto simp: hdr_insert_same split: if_splits)
  next
    case False
    then have "g \<in> set (L q)" using that by (auto split: if_splits)
    then show ?thesis using ne zone_okD(3) [OF z] by (auto simp: hdr_insert_other)
  qed
  show ?thesis
    unfolding zone_ok_def
  proof (intro conjI allI impI)
    show "dlist ?h (map addr_of ((L(p := f # L p)) q)) (free_list (zone_insert p (addr_of f) z) q) \<or> q > PMM_MAX_ORDER" for q
      using this_list other zone_okD(1) [OF z, of q] by (auto simp: zone_insert_def)
    show "zblocks (zone_insert p (addr_of f) z) q = of_nat (length ((L(p := f # L p)) q)) \<or> q > PMM_MAX_ORDER" for q
      using z by (auto simp: zone_insert_def zone_ok_def)
    show "bit (orders_mask (zone_insert p (addr_of f) z)) q \<longleftrightarrow> (L(p := f # L p)) q \<noteq> []" for q
      using zone_okD(4) [OF z, of q] p by (auto simp: zone_insert_def bit_simps PMM_MAX_ORDER_def)
    show "free_frames (zone_insert p (addr_of f) z) = of_nat (\<Sum>q\<le>PMM_MAX_ORDER. length ((L(p := f # L p)) q) * 2 ^ q)"
      using fr by (simp add: zone_insert_def)
  qed (use head in blast)+
qed

text \<open>Removing a block from its sequence.\<close>

definition zone_unlink :: "nat \<Rightarrow> u64 option \<Rightarrow> bool \<Rightarrow> pmm_zone \<Rightarrow> pmm_zone" where
  "zone_unlink p nxt first z = zone_mark_order p (z\<lparr>free_list := (if first then (free_list z)(p := nxt) else free_list z),
     zblocks := (zblocks z)(p := zblocks z p - 1), free_frames := free_frames z - push_bit p 1\<rparr>)"

lemma g_zone_blk_unlink [simp]:
  "g_zone (blk_unlink zi p a s) = (g_zone s)(zi := zone_unlink p (fb_next (page_hdr s a)) (fb_prev (page_hdr s a) = None) (g_zone s zi))"
  by (auto simp: blk_unlink_def Let_def zone_unlink_def split: option.split)

lemma zone_unlink_simps [simp]:
  "free_list (zone_unlink p nxt fs z) = (if fs then (free_list z)(p := nxt) else free_list z)"
  "zblocks (zone_unlink p nxt fs z) = (zblocks z)(p := zblocks z p - 1)"
  "free_frames (zone_unlink p nxt fs z) = free_frames z - push_bit p 1"
  "total_frames (zone_unlink p nxt fs z) = total_frames z"
  by (simp_all add: zone_unlink_def zone_mark_order_def)

lemma zone_ok_unlink:
  assumes z: "zone_ok h z L" and L: "seqs_ok L" and p: "p \<le> PMM_MAX_ORDER" and f: "f \<in> set (L p)"
  shows "zone_ok (hdr_unlink (addr_of f) h)
    (zone_unlink p (fb_next (h (addr_of f))) (fb_prev (h (addr_of f)) = None) z) (L(p := remove1 f (L p)))"
    (is "zone_ok ?h ?z ?L")
proof -
  obtain xs ys where xy: "L p = xs @ f # ys" using f by (meson split_list)
  have dist: "distinct (xs @ f # ys)" using L xy by (metis seqs_ok_def)
  then have rem: "remove1 f (L p) = xs @ ys" by (simp add: xy remove1_append)
  have len: "length (L p) = Suc (length (remove1 f (L p)))" by (simp only: rem) (simp add: xy)
  note dl = zone_okD(1) [OF z p, unfolded xy, simplified]
  have inj: "addr_of g \<noteq> addr_of g'" if "g \<in> set (L q)" "g' \<in> set (L p)" "g \<noteq> g'" for g g' q
    using that L by (metis addr_of_inj seqs_ok_def)
  have "inj_on addr_of (set (L p))" using inj by (meson inj_onI)
  then have dmap: "distinct (map addr_of xs @ addr_of f # map addr_of ys)"
    using dist xy distinct_map [of addr_of "L p"] by simp
  note pn = dlist_split [OF dl]
  have lists: "dlist ?h (map addr_of (?L q)) (free_list ?z q)" if "q \<le> PMM_MAX_ORDER" for q
  proof (cases "q = p")
    case True
    have "free_list z p = Some (addr_of f)" if "xs = []"
      using zone_okD(2) [OF z p] that xy by simp
    then show ?thesis using dlist_unlink [OF dl dmap] True pn(1) by (auto simp: rem split: if_splits)
  next
    case False
    have "addr_of g \<notin> set (map addr_of xs @ addr_of f # map addr_of ys)" if "g \<in> set (L q)" for g
    proof
      assume "addr_of g \<in> set (map addr_of xs @ addr_of f # map addr_of ys)"
      then obtain g' where "g' \<in> set (L p)" "addr_of g = addr_of g'" by (auto simp: xy)
      then show False using inj [OF that] that False L by (metis seqs_ok_def)
    qed
    then have "dlist ?h (map addr_of (L q)) (free_list z q)"
      using zone_okD(1) [OF z that] hdr_unlink_apart [OF dl] by (subst dlist_cong [of _ _ h]) auto
    then show ?thesis using False by simp
  qed
  have fr: "free_frames ?z = of_nat (\<Sum>q\<le>PMM_MAX_ORDER. length (?L q) * 2 ^ q)"
  proof -
    have "(\<Sum>q\<le>PMM_MAX_ORDER. length (L q) * 2 ^ q) = 2 ^ p + (\<Sum>q\<le>PMM_MAX_ORDER. length (?L q) * 2 ^ q)"
      using sum_upd_length [OF p, of L "remove1 f (L p)"] by (simp only: len mult_Suc)
    moreover have "free_frames z = of_nat (\<Sum>q\<le>PMM_MAX_ORDER. length (L q) * 2 ^ q)"
      using z by (simp add: zone_ok_def)
    ultimately show ?thesis by (simp add: push_bit_eq_mult)
  qed
  have mask: "bit (orders_mask ?z) q \<longleftrightarrow> ?L q \<noteq> []" for q
  proof (cases "q = p")
    case True
    have "free_list ?z p = None \<longleftrightarrow> ?L p = []" using dlist_first [OF lists [OF p]] by (auto split: if_splits)
    then show ?thesis using True p
      by (auto simp: zone_unlink_def zone_mark_order_def bit_simps PMM_MAX_ORDER_def)
  next
    case False
    then show ?thesis using zone_okD(4) [OF z, of q]
      by (auto simp: zone_unlink_def zone_mark_order_def bit_simps dest: bit_imp_le_length)
  qed
  have head: "fb_order (?h (addr_of g)) = of_nat q \<and> fb_magic (?h (addr_of g)) = PMM_BLOCK_MAGIC"
    if "g \<in> set (?L q)" for g q
  proof -
    have g: "g \<in> set (L q)" "g \<noteq> f"
      using that f L dist xy by (auto simp: rem seqs_ok_def split: if_splits)
    then show ?thesis using zone_okD(3) [OF z g(1)] inj [OF g(1) f g(2)] by (simp add: hdr_unlink_magic)
  qed
  show ?thesis
    unfolding zone_ok_def
  proof (intro conjI allI impI)
    show "dlist ?h (map addr_of (?L q)) (free_list ?z q) \<or> q > PMM_MAX_ORDER" for q
      using lists [of q] by linarith
    show "zblocks ?z q = of_nat (length (?L q)) \<or> q > PMM_MAX_ORDER" for q
    proof (cases "q = p")
      case True
      have "zblocks z p = of_nat (length (L p))" using z p by (auto simp: zone_ok_def)
      then show ?thesis using True by (simp add: len)
    next
      case False
      then show ?thesis using z by (auto simp: zone_ok_def)
    qed
  qed (use mask head fr in blast)+
qed

section \<open>Inserting and unlinking on the set of free blocks\<close>

lemma free_repI:
  "lists_ok L \<Longrightarrow> (\<And>z. z \<le> 1 \<Longrightarrow> zone_ok (page_hdr s) (g_zone s z) (L z)) \<Longrightarrow> blks L = B \<Longrightarrow> free_rep s B"
  unfolding free_rep_def lists_rep_def by blast

lemma blk_insert_rest [simp]:
  "g_bitmap (blk_insert zi p a s) = g_bitmap s" "g_pcp (blk_insert zi p a s) = g_pcp s"
  "g_pmm_percpu_ready (blk_insert zi p a s) = g_pmm_percpu_ready s"
  "g_pmm_pressure (blk_insert zi p a s) = g_pmm_pressure s"
  by (simp_all add: blk_insert_def Let_def split: option.split)

lemma blk_unlink_rest [simp]:
  "g_bitmap (blk_unlink zi p a s) = g_bitmap s" "g_pcp (blk_unlink zi p a s) = g_pcp s"
  "g_pmm_percpu_ready (blk_unlink zi p a s) = g_pmm_percpu_ready s"
  "g_pmm_pressure (blk_unlink zi p a s) = g_pmm_pressure s"
  by (simp_all add: blk_unlink_def Let_def split: option.split)

text \<open>The sequences of the other zone are not touched.\<close>

lemma other_zone:
  assumes L: "lists_ok L" and z: "zone_ok h zr (L z)" and f: "in_mem f" "zone_fr f \<noteq> z"
    and h: "\<And>k. in_mem k \<Longrightarrow> zone_fr k \<noteq> zone_fr f \<Longrightarrow> h' (addr_of k) = h (addr_of k)"
  shows "zone_ok h' zr (L z)"
proof -
  have "h' (addr_of g) = h (addr_of g)" if "g \<in> set (L z p)" for g p
    using h lists_okD(1,5) [OF L that] f by metis
  then show ?thesis using z zone_ok_cong [of "L z" h' h] by metis
qed

lemma free_rep_insert:
  assumes rep: "free_rep s B" and b: "block_fits (f, p)" and new: "frames (f, p) \<inter> cover B = {}"
  shows "free_rep (blk_insert (zone_fr f) p (addr_of f) s) (insert (f, p) B)"
    and "only_free (insert f (cover B)) s (blk_insert (zone_fr f) p (addr_of f) s)"
proof -
  obtain L where L: "lists_ok L" and B: "blks L = B"
    and "\<forall>z\<le>1. zone_ok (page_hdr s) (g_zone s z) (L z)"
    using rep by (auto simp: free_rep_def lists_rep_def)
  note Z = this(3) [rule_format]
  let ?z = "zone_fr f" and ?s' = "blk_insert (zone_fr f) p (addr_of f) s"
  let ?L = "L(?z := (L ?z)(p := f # L ?z p))"
  have mem: "in_mem f" and p: "p \<le> PMM_MAX_ORDER" using block_fits_in_mem [OF b, of f] b by (auto simp: block_fits_def)
  have fresh: "f \<notin> set (L z q)" for z q
    using new lists_okD(7) [OF L, of f z q] in_cover_base [of f q B] B frames_base [of f p] by blast
  have B': "blks ?L = insert (f, p) B" by (auto simp: blks_def B [symmetric] split: if_splits)
  have "lists_ok ?L"
    unfolding lists_ok_def B'
  proof (intro conjI allI impI)
    show "distinct (?L z q)" for z q using L fresh by (simp add: lists_ok_def)
    show "zone_fr g = z" "block_fits (g, q)" if "g \<in> set (?L z q)" for z q g
      using that L b by (auto simp: lists_ok_def split: if_splits)
    show "blocks_ok (insert (f, p) B)"
      using free_repD(1) [OF rep] b new by (intro blocks_ok_insert) (auto simp: block_fits_def)
  qed
  note zf = zone_okD(2) [OF Z [OF zone_fr_less [of f]] p]
  have apart: "page_hdr ?s' (addr_of k) = page_hdr s (addr_of k)"
    if "in_mem k" "k \<noteq> f" "\<And>g. g \<in> set (L ?z p) \<Longrightarrow> k \<noteq> g" for k
  proof -
    have "free_list (g_zone s ?z) p \<noteq> Some (addr_of k)"
    proof (cases "L ?z p = []")
      case False
      then have "hd (L ?z p) \<in> set (L ?z p)" by simp
      then have "addr_of (hd (L ?z p)) \<noteq> addr_of k"
        using that(3) addr_of_inj [OF lists_okD(5) [OF L] that(1)] by blast
      then show ?thesis using False by (simp add: zf)
    qed (simp add: zf)
    then show ?thesis using that mem by (simp add: hdr_insert_apart addr_of_inj)
  qed
  have zok: "zone_ok (page_hdr ?s') (g_zone ?s' z) (?L z)" if z: "z \<le> 1" for z
  proof (cases "z = ?z")
    case True
    then show ?thesis
      using zone_ok_insert [OF Z [OF z] lists_ok_seqs [OF L] p mem fresh] by simp
  next
    case False
    have "zone_ok (page_hdr ?s') (g_zone s z) (L z)"
    proof (rule other_zone [where L = L and z = z, OF L Z [OF z] mem])
      show "page_hdr ?s' (addr_of k) = page_hdr s (addr_of k)" if "in_mem k" "zone_fr k \<noteq> ?z" for k
        using that lists_okD(1) [OF L] by (intro apart) metis+
    qed (use False in simp)
    then show ?thesis using False by simp
  qed
  show "free_rep ?s' (insert (f, p) B)"
    using \<open>lists_ok ?L\<close> zok B' by (rule free_repI)
  have "page_hdr ?s' a = page_hdr s a" if "a \<notin> addr_of ` insert f (cover B)" for a
  proof -
    have "hd (L ?z p) \<in> cover B" if "L ?z p \<noteq> []"
      using lists_okD(7) [OF L hd_in_set [OF that]] in_cover_base B by metis
    then have "free_list (g_zone s ?z) p \<noteq> Some a" using that by (auto simp: zf)
    then show ?thesis using that by (auto simp: hdr_insert_apart)
  qed
  then show "only_free (insert f (cover B)) s ?s'"
    by (simp add: only_free_def zone_insert_def)
qed

lemma free_rep_unlink:
  assumes rep: "free_rep s B" and b: "(f, p) \<in> B"
  shows "free_rep (blk_unlink (zone_fr f) p (addr_of f) s) (B - {(f, p)})"
    and "only_free (cover B) s (blk_unlink (zone_fr f) p (addr_of f) s)"
proof -
  obtain L where L: "lists_ok L" and B: "blks L = B"
    and "\<forall>z\<le>1. zone_ok (page_hdr s) (g_zone s z) (L z)"
    using rep by (auto simp: free_rep_def lists_rep_def)
  note Z = this(3) [rule_format]
  let ?z = "zone_fr f" and ?s' = "blk_unlink (zone_fr f) p (addr_of f) s"
  let ?L = "L(?z := (L ?z)(p := remove1 f (L ?z p)))"
  have f: "f \<in> set (L ?z p)" using b B by (auto simp: blks_def)
  note mem = lists_okD(5) [OF L f] and p = lists_okD(4) [OF L f]
  have d: "distinct (L z q)" for z q using L by (simp add: lists_ok_def)
  have B': "blks ?L = B - {(f, p)}" by (auto simp: blks_def B [symmetric] d split: if_splits)
  have "lists_ok ?L"
    unfolding lists_ok_def B'
  proof (intro conjI allI impI)
    show "distinct (?L z q)" for z q using d by simp
    show "zone_fr g = z" "block_fits (g, q)" if "g \<in> set (?L z q)" for z q g
      using that L by (auto simp: lists_ok_def d split: if_splits)
    show "blocks_ok (B - {(f, p)})"
      using free_repD(1) [OF rep] by (rule blocks_ok_subset) auto
  qed
  obtain xs ys where xy: "L ?z p = xs @ f # ys" using f by (meson split_list)
  note dl = zone_okD(1) [OF Z [OF zone_fr_less [of f]] p, unfolded xy, simplified]
  have apart: "page_hdr ?s' a = page_hdr s a" if "a \<notin> addr_of ` set (L ?z p)" for a
    using hdr_unlink_apart [OF dl] that by (simp add: xy image_Un)
  have zok: "zone_ok (page_hdr ?s') (g_zone ?s' z) (?L z)" if z: "z \<le> 1" for z
  proof (cases "z = ?z")
    case True
    then show ?thesis using zone_ok_unlink [OF Z [OF z] lists_ok_seqs [OF L] p] f by simp
  next
    case False
    have "zone_ok (page_hdr ?s') (g_zone s z) (L z)"
    proof (rule other_zone [where L = L and z = z, OF L Z [OF z] mem])
      show "page_hdr ?s' (addr_of k) = page_hdr s (addr_of k)" if "in_mem k" "zone_fr k \<noteq> ?z" for k
      proof (rule apart, rule notI, elim imageE)
        fix g assume g: "addr_of k = addr_of g" "g \<in> set (L ?z p)"
        then have "k = g" using addr_of_inj [OF that(1) lists_okD(5) [OF L g(2)]] by simp
        then show False using that(2) lists_okD(1) [OF L g(2)] by simp
      qed
    qed (use False in simp)
    then show ?thesis using False by simp
  qed
  show "free_rep ?s' (B - {(f, p)})"
    using \<open>lists_ok ?L\<close> zok B' by (rule free_repI)
  have "addr_of ` set (L ?z p) \<subseteq> addr_of ` cover B"
    using lists_okD(7) [OF L] in_cover_base B by blast
  then have "page_hdr ?s' a = page_hdr s a" if "a \<notin> addr_of ` cover B" for a
    using apart that by blast
  then show "only_free (cover B) s ?s'"
    by (simp add: only_free_def)
qed

end
