(* ===== verification/Pmm_Core.thy ===== *)
theory Pmm_Core
  imports Pmm_Inv
begin

text \<open>
  What allocation and freeing under the lock do to the set of free blocks and to the bitmap:
  splitting, coalescing and the refusal of a double free.
\<close>

section \<open>The bitmap and the free blocks\<close>

text \<open>A block is free exactly when its frames are clear in the bitmap.\<close>

definition bm_rep :: "pmm \<Rightarrow> nat set \<Rightarrow> bool" where
  "bm_rep s F \<longleftrightarrow> (\<forall>k. bitmap_test (g_bitmap s) k \<longleftrightarrow> k \<notin> F)"

definition buddy_rep :: "pmm \<Rightarrow> block set \<Rightarrow> bool" where
  "buddy_rep s B \<longleftrightarrow> free_rep s B \<and> bm_rep s (cover B)"

lemma range_clear_iff: "bm_rep s F \<Longrightarrow> bitmap_range_is_clear (g_bitmap s) f (2 ^ p) \<longleftrightarrow> frames (f, p) \<subseteq> F"
  by (auto simp: bitmap_range_is_clear bm_rep_def frames_iff)

lemma block_fits_rangeD:
  "block_fits (f, p) \<Longrightarrow> f + 2 ^ p \<le> PMM_MAX_FRAMES \<and> (0::nat) < 2 ^ p"
  by (simp add: block_fits_def)

lemma free_rep_hdr:
  assumes "free_rep s B" "(g, q) \<in> B"
  shows "fb_order (page_hdr s (addr_of g)) = of_nat q \<and> fb_magic (page_hdr s (addr_of g)) = PMM_BLOCK_MAGIC"
proof -
  obtain L where L: "blks L = B" "\<forall>z\<le>1. zone_ok (page_hdr s) (g_zone s z) (L z)"
    using assms(1) by (auto simp: free_rep_def lists_rep_def)
  have "g \<in> set (L (zone_fr g) q)" using assms(2) L(1) by (auto simp: blks_def)
  moreover have "zone_ok (page_hdr s) (g_zone s (zone_fr g)) (L (zone_fr g))"
    using L(2) zone_fr_less [of g] by blast
  ultimately show ?thesis using zone_okD(3) by metis
qed

section \<open>Splitting\<close>

lemma split_loop:
  assumes "free_rep s B" "block_fits (f, q)" "frames (f, q) \<inter> cover B = {}" "p \<le> q"
  shows "free_rep (split_loop (zone_fr f) (addr_of f) p q s) (B \<union> halves f p q)"
    and "only_free (cover B \<union> frames (f, q)) s (split_loop (zone_fr f) (addr_of f) p q s)"
    and "g_bitmap (split_loop (zone_fr f) (addr_of f) p q s) = g_bitmap s"
proof -
  have "free_rep (split_loop (zone_fr f) (addr_of f) p q s) (B \<union> halves f p q) \<and>
      only_free (cover B \<union> frames (f, q)) s (split_loop (zone_fr f) (addr_of f) p q s) \<and>
      g_bitmap (split_loop (zone_fr f) (addr_of f) p q s) = g_bitmap s"
    using assms
  proof (induction q arbitrary: s B)
    case (Suc q)
    show ?case
    proof (cases "p = Suc q")
      case True
      then show ?thesis using Suc.prems(1) by simp
    next
      case False
      with Suc.prems(4) have pq: "p \<le> q" by simp
      let ?h = "f + 2 ^ q" and ?s1 = "blk_insert (zone_fr f) q (addr_of f + push_bit q PAGE_SIZE) s"
      have al: "aligned (f, Suc q)" "aligned (f, q)" "aligned (?h, q)"
        using Suc.prems(2) by (auto simp: block_fits_def aligned_def elim: dvd_trans [rotated])
      have sub: "frames (f, Suc q) = frames (f, q) \<union> frames (?h, q)" by (auto simp: frames_iff)
      have dis: "frames (f, q) \<inter> frames (?h, q) = {}" by (auto simp: frames_iff)
      have fits: "block_fits (f, q)" "block_fits (?h, q)"
        using Suc.prems(2) al by (auto simp: block_fits_def)
      have z: "zone_fr ?h = zone_fr f"
        using zone_fr_frames [OF al(1), of ?h] Suc.prems(2) sub by (auto simp: block_fits_def)
      have ins: "free_rep ?s1 (insert (?h, q) B)" "only_free (insert ?h (cover B)) s ?s1"
        using free_rep_insert [OF Suc.prems(1) fits(2)] Suc.prems(3) sub by (auto simp: addr_of_add z)
      have "frames (f, q) \<inter> cover (insert (?h, q) B) = {}"
        using Suc.prems(3) sub dis by auto
      note ih = Suc.IH [OF ins(1) fits(1) this pq]
      have "insert (?h, q) B \<union> halves f p q = B \<union> halves f p (Suc q)" by (auto simp: halves_Suc [OF pq])
      moreover have "only_free (cover B \<union> frames (f, Suc q)) s ?s1"
        using ins(2) by (rule only_free_mono) (auto simp: sub)
      moreover have "cover (insert (?h, q) B) \<union> frames (f, q) = cover B \<union> frames (f, Suc q)"
        by (auto simp: sub)
      ultimately show ?thesis using ih pq only_free_trans by (auto simp: less_Suc_eq_le)
    qed
  qed simp
  then show "free_rep (split_loop (zone_fr f) (addr_of f) p q s) (B \<union> halves f p q)"
    "only_free (cover B \<union> frames (f, q)) s (split_loop (zone_fr f) (addr_of f) p q s)"
    "g_bitmap (split_loop (zone_fr f) (addr_of f) p q s) = g_bitmap s" by blast+
qed

section \<open>Allocating\<close>

lemma avail_bit:
  "bit (m AND NOT (push_bit p 1 - 1) :: u32) q \<longleftrightarrow> bit m q \<and> p \<le> q"
  by (auto simp: bit_simps push_bit_eq_mult simp flip: mask_eq_decr_exp dest: bit_imp_le_length)

text \<open>The free blocks after a block of order \<open>p\<close> was carved out of \<open>(f, q)\<close>.\<close>

definition carve :: "block set \<Rightarrow> nat \<Rightarrow> nat \<Rightarrow> nat \<Rightarrow> block set" where
  "carve B f p q = (B - {(f, q)}) \<union> halves f p q"

lemma cover_carve:
  assumes "blocks_ok B" "(f, q) \<in> B" "p \<le> q"
  shows "cover (carve B f p q) = cover B - frames (f, p)"
proof -
  have "frames (f, p) \<subseteq> frames (f, q)"
    using assms(3) by (auto simp: frames_iff elim!: less_le_trans)
  moreover have "frames (f, q) \<subseteq> cover B" using assms(2) by (rule cover_mono)
  ultimately show ?thesis
    using assms by (auto simp: carve_def cover_halves cover_remove)
qed

text \<open>Allocation takes the smallest sufficient block of the zone, or reports that there is none.\<close>

lemma zone_alloc_locked:
  assumes rep: "buddy_rep s B" and z: "z \<le> 1" and p: "p \<le> PMM_MAX_ORDER"
    and res: "zone_alloc_locked z p s = (s', r)"
  shows "(r = 0 \<and> s' = s \<and> (\<forall>f q. (f, q) \<in> B \<longrightarrow> zone_fr f = z \<longrightarrow> q < p)) \<or>
    (\<exists>f q. r = addr_of f \<and> (f, q) \<in> B \<and> zone_fr f = z \<and> p \<le> q
      \<and> (\<forall>g q'. (g, q') \<in> B \<longrightarrow> zone_fr g = z \<longrightarrow> p \<le> q' \<longrightarrow> q \<le> q')
      \<and> buddy_rep s' (carve B f p q) \<and> only_free (cover B) s s')"
proof -
  have free: "free_rep s B" and bm: "bm_rep s (cover B)" using rep by (auto simp: buddy_rep_def)
  obtain L where L: "lists_ok L" and B: "blks L = B" and Z: "zone_ok (page_hdr s) (g_zone s z) (L z)"
    using free z by (auto simp: free_rep_def lists_rep_def)
  define avail where "avail = orders_mask (g_zone s z) AND NOT (push_bit p 1 - 1)"
  have av: "bit avail q \<longleftrightarrow> L z q \<noteq> [] \<and> p \<le> q" for q
    unfolding avail_def avail_bit zone_okD(4) [OF Z] by (rule refl)
  have ex: "L z q \<noteq> [] \<longleftrightarrow> (\<exists>f. (f, q) \<in> B \<and> zone_fr f = z)" for q
    using lists_okD(1) [OF L, of _ z q] by (auto simp: B [symmetric] blks_def) (metis list.set_intros(1) neq_Nil_conv)+
  show ?thesis
  proof (cases "avail = 0")
    case True
    then have "zone_alloc_locked z p s = (s, 0)"
      unfolding zone_alloc_locked_def avail_def [symmetric] Let_def by simp
    moreover have "q < p" if "(f, q) \<in> B" "zone_fr f = z" for f q
      using av [of q] ex [of q] that True by auto
    ultimately show ?thesis using res by auto
  next
    case False
    define q where "q = hw_ctz32 avail"
    have q: "bit avail q" "i < q \<Longrightarrow> \<not> bit avail i" for i
      using hw_ctz32 [OF False] by (auto simp: q_def)
    then have ne: "L z q \<noteq> []" and pq: "p \<le> q" using av by auto
    define f where "f = hd (L z q)"
    have f: "f \<in> set (L z q)" using ne by (simp add: f_def)
    note inB = lists_okD(7) [OF L f, unfolded B] and zf = lists_okD(1) [OF L f] and fits = lists_okD(2) [OF L f]
    have min: "q \<le> q'" if "(g, q') \<in> B" "zone_fr g = z" "p \<le> q'" for g q'
    proof -
      have "L z q' \<noteq> []" using ex [of q'] that(1,2) by blast
      then have "bit avail q'" using av [of q'] that(3) by blast
      then show ?thesis using q(2) [of q'] by (meson not_le)
    qed
    have qm: "q \<le> PMM_MAX_ORDER" using fits by (simp add: block_fits_def)
    have fl: "free_list (g_zone s z) q = Some (addr_of f)"
      using zone_okD(2) [OF Z qm] ne by (simp add: f_def)
    have mem: "in_mem f" and f1: "1 \<le> f" using block_fits_in_mem [OF fits, of f] by auto
    then have nz: "addr_of f \<noteq> 0" by (simp add: addr_of_0_iff)
    define s1 where "s1 = blk_unlink z q (addr_of f) s"
    define s2 where "s2 = split_loop z (addr_of f) p q s1"
    define s3 where "s3 = s2\<lparr>g_bitmap := fst (bitmap_range_set (g_bitmap s2) f (2 ^ p))\<rparr>"
    have "zone_alloc_locked z p s = (s3, addr_of f)"
      unfolding zone_alloc_locked_def avail_def [symmetric] Let_def q_def [symmetric] blk_pop_def
      using False fl nz mem by (simp add: s1_def s2_def s3_def)
    then have r: "s' = s3" "r = addr_of f" using res by auto
    have s1: "free_rep s1 (B - {(f, q)})" "only_free (cover B) s s1" "g_bitmap s1 = g_bitmap s"
      using free_rep_unlink [OF free inB] by (simp_all add: s1_def zf)
    have okB: "blocks_ok B" using free by (rule free_repD)
    have dis: "frames (f, q) \<inter> cover (B - {(f, q)}) = {}" by (auto simp: cover_remove [OF okB inB])
    note spl = split_loop [OF s1(1) fits dis pq, unfolded zf, folded s2_def]
    have s2: "free_rep s3 (carve B f p q)" "only_free (cover B) s s3"
    proof -
      have "free_rep s2 (carve B f p q)" using spl(1) by (simp add: carve_def)
      then show "free_rep s3 (carve B f p q)" by (simp add: s3_def free_rep_def lists_rep_def)
      have "cover (B - {(f, q)}) \<union> frames (f, q) = cover B"
        using cover_mono [OF inB] by (auto simp: cover_remove [OF okB inB])
      then have "only_free (cover B) s s2" using only_free_trans [OF s1(2)] spl(2) by simp
      then show "only_free (cover B) s s3" by (simp add: s3_def only_free_def)
    qed
    have "(2::nat) ^ p \<le> 2 ^ q" using pq by (intro power_increasing) simp_all
    then have "f + 2 ^ p \<le> PMM_MAX_FRAMES" using block_fits_rangeD [OF fits] by linarith
    then have "bm_rep s3 (cover (carve B f p q))"
      using bm spl(3) s1(3) cover_carve [OF okB inB pq]
      by (auto simp: bm_rep_def s3_def bitmap_range_set frames_iff)
    then have "buddy_rep s3 (carve B f p q)" using s2(1) by (simp add: buddy_rep_def)
    then show ?thesis using r inB zf pq min s2(2) by blast
  qed
qed

section \<open>Coalescing\<close>

text \<open>The block \<open>(f, p)\<close> is clear in the bitmap and on no list; \<open>F\<close> are the frames that are
  clear and not part of it.\<close>

lemma block_fits_merge:
  assumes "block_fits (f, p)" "block_fits (buddy f p, p)" "p < PMM_MAX_ORDER"
  shows "block_fits (min f (buddy f p), Suc p)"
proof -
  have "aligned (f, p)" using assms(1) by (simp add: block_fits_def)
  moreover have "min f (buddy f p) + 2 ^ Suc p \<le> PMM_MAX_FRAMES"
  proof -
    have "k < PMM_MAX_FRAMES" if "k \<in> frames (min f (buddy f p), Suc p)" for k
      using that block_fits_in_mem assms(1,2) \<open>aligned (f, p)\<close> by (auto simp: merge_frames)
    then show ?thesis by (rule frames_bound)
  qed
  moreover have "1 \<le> min f (buddy f p)" using assms(1,2) by (simp add: block_fits_def)
  ultimately show ?thesis using assms(3) merge_aligned [of f p] by (simp add: block_fits_def)
qed

lemma merge_loop:
  assumes "free_rep s B" "block_fits (f, p)" "frames (f, p) \<inter> cover B = {}"
    and "bm_rep s (cover B \<union> frames (f, p))"
    and "merge_loop (zone_fr f) (addr_of f) p s = (s', r, p')"
  shows "\<exists>f' B'. r = addr_of f' \<and> zone_fr f' = zone_fr f \<and> block_fits (f', p') \<and> free_rep s' B'
    \<and> frames (f', p') \<inter> cover B' = {} \<and> cover B' \<union> frames (f', p') = cover B \<union> frames (f, p)
    \<and> (merged PMM_MAX_ORDER B \<longrightarrow> merged PMM_MAX_ORDER (insert (f', p') B'))
    \<and> g_bitmap s' = g_bitmap s \<and> only_free (cover B) s s'"
  using assms
proof (induction "PMM_MAX_ORDER - p" arbitrary: f p s B)
  case 0
  then have "p = PMM_MAX_ORDER" by (simp add: block_fits_def)
  with 0(6) have "s' = s" "r = addr_of f" "p' = p" by (auto simp: merge_loop.simps)
  moreover have "merged PMM_MAX_ORDER (insert (f, p) B)" if "merged PMM_MAX_ORDER B"
    using that \<open>p = PMM_MAX_ORDER\<close> by (auto simp: merged_def)
  ultimately show ?case using 0 by auto
next
  case (Suc n)
  note rep = Suc.prems(1) and fits = Suc.prems(2) and dis = Suc.prems(3) and bm = Suc.prems(4) and res = Suc.prems(5)
  have p: "p < PMM_MAX_ORDER" and al: "aligned (f, p)" using Suc(2) fits by (auto simp: block_fits_def)
  let ?b = "buddy f p"
  have okB: "blocks_ok B" using rep by (rule free_repD)
  have mem: "in_mem f" using block_fits_in_mem [OF fits, of f] by simp
  have bmem: "in_mem ?b"
    using buddy_less [of f 24 p] mem p by (simp add: PMM_MAX_FRAMES_def PMM_MAX_ORDER_def)
  have stop: ?case
    if "s' = s" "r = addr_of f" "p' = p" "(?b, p) \<notin> B"
  proof -
    have "merged PMM_MAX_ORDER (insert (f, p) B)" if "merged PMM_MAX_ORDER B"
      unfolding merged_def
    proof (clarify, intro conjI impI)
      fix g q assume gq: "(g, q) \<in> insert (f, p) B"
      show "q \<le> PMM_MAX_ORDER" using gq p mergedD(1) [OF that] by auto
      show "(buddy g q, q) \<notin> insert (f, p) B" if q: "q < PMM_MAX_ORDER"
        using gq \<open>(?b, p) \<notin> B\<close> mergedD(2) [OF \<open>merged PMM_MAX_ORDER B\<close> _ q] buddy_buddy by auto
    qed
    then show ?thesis using that rep fits dis by auto
  qed
  show ?case
  proof (cases "frames (?b, p) \<subseteq> cover B \<union> frames (f, p)")
    case False
    then have "merge_loop (zone_fr f) (addr_of f) p s = (s, addr_of f, p)"
      using p bmem range_clear_iff [OF bm, of ?b p]
      by (subst merge_loop.simps) (simp add: buddy_of_addr_of Let_def)
    moreover have "(?b, p) \<notin> B" using False cover_mono by blast
    ultimately show ?thesis using res by (intro stop) auto
  next
    case True
    then have sub: "frames (?b, p) \<subseteq> cover B" using buddy_disjoint [OF al] by blast
    obtain q where q: "q \<le> p" "(?b, q) \<in> B" using buddy_base_in [OF okB al dis sub] by blast
    have hdr: "fb_order (page_hdr s (addr_of ?b)) = of_nat q \<and> fb_magic (page_hdr s (addr_of ?b)) = PMM_BLOCK_MAGIC"
      by (rule free_rep_hdr [OF rep q(2)])
    have ord: "(of_nat q :: u32) = of_nat p \<longleftrightarrow> q = p"
      using q(1) p by (simp add: word_of_nat_eq_iff take_bit_nat_eq_self PMM_MAX_ORDER_def)
    have clear: "bitmap_range_is_clear (g_bitmap s) (phys_to_frame (buddy_of (addr_of f) p)) (2 ^ p)"
      using True bmem range_clear_iff [OF bm, of ?b p] by (simp add: buddy_of_addr_of)
    show ?thesis
    proof (cases "q = p")
      case False
      then have "merge_loop (zone_fr f) (addr_of f) p s = (s, addr_of f, p)"
        using p clear hdr ord by (subst merge_loop.simps) (simp add: buddy_of_addr_of Let_def blk_remove_def)
      moreover have "(?b, p) \<notin> B" using q False blocks_okD(2) [OF okB q(2), of "(?b, p)" ?b] by auto
      ultimately show ?thesis using res by (intro stop) auto
    next
      case True
      let ?m = "min f ?b" and ?B = "B - {(?b, p)}"
      define s1 where "s1 = blk_unlink (zone_fr f) p (addr_of ?b) s"
      have inB: "(?b, p) \<in> B" using q True by simp
      have bfits: "block_fits (?b, p)" using free_repD(2) [OF rep inB] .
      have mfits: "block_fits (?m, Suc p)" by (rule block_fits_merge [OF fits bfits p])
      have mfr: "frames (?m, Suc p) = frames (f, p) \<union> frames (?b, p)" by (rule merge_frames [OF al])
      have mal: "aligned (?m, Suc p)" by (rule merge_aligned [OF al])
      have z: "zone_fr ?m = zone_fr f" "zone_fr ?b = zone_fr f"
        using zone_fr_frames [OF mal, of f] zone_fr_frames [OF mal, of ?b] mfr p by auto
      have step: "merge_loop (zone_fr f) (addr_of f) p s = merge_loop (zone_fr ?m) (addr_of ?m) (Suc p) s1"
        using p clear hdr ord True mem bmem
        by (subst merge_loop.simps) (simp add: buddy_of_addr_of Let_def blk_remove_def min_addr_of z s1_def)
      have s1: "free_rep s1 ?B" "only_free (cover B) s s1" "g_bitmap s1 = g_bitmap s"
        using free_rep_unlink [OF rep inB] by (simp_all add: s1_def z)
      have cov: "cover ?B = cover B - frames (?b, p)" by (rule cover_remove [OF okB inB])
      have all: "cover ?B \<union> frames (?m, Suc p) = cover B \<union> frames (f, p)"
        using sub by (auto simp: cov mfr)
      have dis': "frames (?m, Suc p) \<inter> cover ?B = {}" using dis by (auto simp: cov mfr)
      have bm': "bm_rep s1 (cover ?B \<union> frames (?m, Suc p))" using bm by (simp add: bm_rep_def s1(3) all)
      have mB: "merged PMM_MAX_ORDER ?B" if "merged PMM_MAX_ORDER B" using that by (auto simp: merged_def)
      have "n = PMM_MAX_ORDER - Suc p" using Suc(2) by simp
      from Suc.hyps(1) [OF this s1(1) mfits dis' bm' res [unfolded step]]
      obtain f' B' where *: "r = addr_of f'" "zone_fr f' = zone_fr ?m" "block_fits (f', p')" "free_rep s' B'"
        "frames (f', p') \<inter> cover B' = {}" "cover B' \<union> frames (f', p') = cover ?B \<union> frames (?m, Suc p)"
        "merged PMM_MAX_ORDER ?B \<longrightarrow> merged PMM_MAX_ORDER (insert (f', p') B')"
        "g_bitmap s' = g_bitmap s1" "only_free (cover ?B) s1 s'" by blast
      have "only_free (cover B) s s'"
        using s1(2) only_free_mono [OF *(9)] by (rule only_free_trans) (auto simp: cov)
      then show ?thesis using * mB by (auto simp: all z s1(3))
    qed
  qed
qed

section \<open>Freeing\<close>

lemma count_bits_test:
  assumes "bm_rep s F" "f + 2 ^ p \<le> PMM_MAX_FRAMES"
  shows "count_bits (g_bitmap s) True f (2 ^ p) = card (frames (f, p) - F)"
proof -
  have "bit (g_bitmap s (k div 64)) (k mod 64) \<longleftrightarrow> k \<notin> F" if "k \<in> frames (f, p)" for k
  proof -
    have "\<not> k \<ge> PMM_MAX_FRAMES" using that assms(2) by (simp add: frames_iff)
    moreover have "bitmap_test (g_bitmap s) k \<longleftrightarrow> k \<notin> F" using assms(1) by (simp add: bm_rep_def)
    ultimately show ?thesis by (simp add: bitmap_test_def)
  qed
  then have "{k. f \<le> k \<and> k < f + 2 ^ p \<and> bit (g_bitmap s (k div 64)) (k mod 64) = True} = frames (f, p) - F"
    by (auto simp: frames_iff)
  then show ?thesis by (simp only: count_bits_def)
qed

text \<open>The number of allocated frames that the bitmap reports decides.\<close>

lemma was_allocated:
  assumes bm: "bm_rep s F" and b: "block_fits (f, p)"
  shows "snd (bitmap_range_clear (g_bitmap s) f (2 ^ p)) = push_bit p 1 \<longleftrightarrow> frames (f, p) \<inter> F = {}"
proof -
  have le: "card (frames (f, p) - F) \<le> 2 ^ p"
    using card_mono [of "frames (f, p)" "frames (f, p) - F"] by simp
  have p: "p < 64" using b by (simp add: block_fits_def PMM_MAX_ORDER_def)
  have "(2::nat) ^ p < 2 ^ 64" by (rule power_strict_increasing) (use p in simp_all)
  with le have c: "card (frames (f, p) - F) < 2 ^ 64" by (rule le_less_trans)
  have "(of_nat (card (frames (f, p) - F)) :: u64) = of_nat (2 ^ p) \<longleftrightarrow> card (frames (f, p) - F) = 2 ^ p"
    by (simp only: word_of_nat_eq_iff) (simp add: take_bit_nat_eq_self [OF c] p)
  also have "\<dots> \<longleftrightarrow> frames (f, p) - F = frames (f, p)"
    using card_subset_eq [of "frames (f, p)" "frames (f, p) - F"] by auto
  finally show ?thesis
    using count_bits_test [OF bm, of f p] b
    by (auto simp: bitmap_range_clear block_fits_def push_bit_eq_mult)
qed

lemma zone_free_locked:
  assumes rep: "buddy_rep s B" and b: "block_fits (f, p)" and own: "frames (f, p) \<inter> cover B = {}"
  shows "\<exists>s' B'. zone_free_locked (addr_of f) p s = (s', True) \<and> buddy_rep s' B'
    \<and> cover B' = cover B \<union> frames (f, p) \<and> (merged PMM_MAX_ORDER B \<longrightarrow> merged PMM_MAX_ORDER B')
    \<and> only_free (cover B \<union> frames (f, p)) s s'"
proof -
  have free: "free_rep s B" and bm: "bm_rep s (cover B)" using rep by (auto simp: buddy_rep_def)
  have mem: "in_mem f" using block_fits_in_mem [OF b, of f] by simp
  define bm1 where "bm1 = fst (bitmap_range_clear (g_bitmap s) f (2 ^ p))"
  define s1 where "s1 = s\<lparr>g_bitmap := bm1\<rparr>"
  obtain s2 r p' where ml: "merge_loop (zone_fr f) (addr_of f) p s1 = (s2, r, p')" by (metis prod_cases3)
  have free1: "free_rep s1 B" using free by (simp add: s1_def free_rep_def lists_rep_def)
  have bm1: "bm_rep s1 (cover B \<union> frames (f, p))"
    using bm block_fits_rangeD [OF b] by (auto simp: bm_rep_def s1_def bm1_def bitmap_range_clear frames_iff)
  obtain f' B' where *: "r = addr_of f'" "zone_fr f' = zone_fr f" "block_fits (f', p')" "free_rep s2 B'"
    "frames (f', p') \<inter> cover B' = {}" "cover B' \<union> frames (f', p') = cover B \<union> frames (f, p)"
    "merged PMM_MAX_ORDER B \<longrightarrow> merged PMM_MAX_ORDER (insert (f', p') B')"
    "g_bitmap s2 = g_bitmap s1" "only_free (cover B) s1 s2"
    using merge_loop [OF free1 b own bm1 ml] by blast
  let ?s3 = "blk_insert (zone_fr f) p' (addr_of f') s2"
  have "snd (bitmap_range_clear (g_bitmap s) f (2 ^ p)) = push_bit p 1"
    using was_allocated [OF bm b] own by simp
  then have run: "zone_free_locked (addr_of f) p s = (?s3, True)"
    using mem ml *(1,2) by (simp add: zone_free_locked_def zone_of_addr_of case_prod_unfold Let_def bm1_def s1_def)
  have ins: "free_rep ?s3 (insert (f', p') B')" "only_free (insert f' (cover B')) s2 ?s3"
    using free_rep_insert [OF *(4,3,5)] *(2) by simp_all
  have cov: "cover (insert (f', p') B') = cover B \<union> frames (f, p)" using *(6) by auto
  have "bm_rep ?s3 (cover (insert (f', p') B'))" using bm1 *(8) by (simp only: cov bm_rep_def blk_insert_rest simp_thms)
  moreover have "only_free (cover B \<union> frames (f, p)) s1 ?s3"
  proof (rule only_free_trans)
    show "only_free (cover B \<union> frames (f, p)) s1 s2" using *(9) by (rule only_free_mono) auto
    show "only_free (cover B \<union> frames (f, p)) s2 ?s3"
      using ins(2) by (rule only_free_mono) (use *(6) in auto)
  qed
  then have "only_free (cover B \<union> frames (f, p)) s ?s3" by (simp add: only_free_def s1_def)
  ultimately show ?thesis using run ins(1) cov *(7) unfolding buddy_rep_def by blast
qed

text \<open>A double free is refused and changes nothing.\<close>

lemma zone_free_refused:
  assumes rep: "buddy_rep s B" and b: "block_fits (f, p)" and free: "frames (f, p) \<subseteq> cover B"
  shows "zone_free_locked (addr_of f) p s = (s, False)"
proof -
  have bm: "bm_rep s (cover B)" using rep by (simp add: buddy_rep_def)
  have mem: "in_mem f" using block_fits_in_mem [OF b, of f] by simp
  have range: "range_clamp f (2 ^ p) = Some (2 ^ p)" using block_fits_rangeD [OF b] by simp
  have "fst (bitmap_range_clear (g_bitmap s) f (2 ^ p)) = g_bitmap s"
  proof (rule bitmap_eqI)
    fix k
    have "\<not> bit (g_bitmap s (k div 64)) (k mod 64)" if "f \<le> k \<and> k < f + 2 ^ p"
    proof -
      have "k \<in> frames (f, p)" using that by (simp add: frames_iff)
      then show ?thesis using bm free block_fits_in_mem [OF b] by (fastforce simp: bm_rep_def bitmap_test_def)
    qed
    then show "bit (fst (bitmap_range_clear (g_bitmap s) f (2 ^ p)) (k div 64)) (k mod 64)
        = bit (g_bitmap s (k div 64)) (k mod 64)"
      using bitmap_clear_loop [of "g_bitmap s" f "2 ^ p" 0] by (auto simp: bitmap_range_clear_def range)
  qed
  moreover have "snd (bitmap_range_clear (g_bitmap s) f (2 ^ p)) \<noteq> push_bit p 1"
    using was_allocated [OF bm b] free frames_not_empty [of "(f, p)"] by (metis Int_absorb2)
  ultimately show ?thesis
    using mem by (simp add: zone_free_locked_def case_prod_unfold Let_def)
qed

end
