(* ===== verification/Pmm_Sys.thy ===== *)
theory Pmm_Sys
  imports Pmm_Core
begin

text \<open>
  The page allocator with its callers: the blocks that are out, the per-CPU caches, the free
  lists, and the critical sections of any number of CPUs in any order.
\<close>

section \<open>Who holds a frame\<close>

text \<open>The caches hold frames of their zone, each frame once. \<open>C\<close> gives them as frames.\<close>

definition caches_rep :: "pmm \<Rightarrow> (nat \<Rightarrow> nat \<Rightarrow> nat list) \<Rightarrow> bool" where
  "caches_rep s C \<longleftrightarrow> (\<forall>c z. g_pcp s c z = map addr_of (C c z) \<and> distinct (C c z)) \<and>
     (\<forall>c z k. k \<in> set (C c z) \<longrightarrow> block_fits (k, 0) \<and> zone_fr k = z) \<and>
     (\<forall>c z c' z' k. k \<in> set (C c z) \<longrightarrow> k \<in> set (C c' z') \<longrightarrow> c = c' \<and> z = z') \<and>
     (\<forall>c z. C c z \<noteq> [] \<longrightarrow> c < 64 \<and> g_pmm_percpu_ready s)"

definition cached :: "(nat \<Rightarrow> nat \<Rightarrow> nat list) \<Rightarrow> nat set" where
  "cached C = {k. \<exists>c z. k \<in> set (C c z)}"

lemma in_cachedI: "k \<in> set (C c z) \<Longrightarrow> k \<in> cached C"
  by (auto simp: cached_def)

text \<open>Of the frames \<open>T\<close> that the allocator manages, each is free, cached or in exactly one of
  the blocks \<open>out\<close> that are with their owners.\<close>

definition pmm_inv :: "nat set \<Rightarrow> pmm \<Rightarrow> block set \<Rightarrow> block set \<Rightarrow> (nat \<Rightarrow> nat \<Rightarrow> nat list) \<Rightarrow> bool" where
  "pmm_inv T s out B C \<longleftrightarrow> buddy_rep s B \<and> caches_rep s C \<and> blocks_ok out \<and> (\<forall>b\<in>out. block_fits b) \<and>
     cover B \<inter> cached C = {} \<and> cover B \<inter> cover out = {} \<and> cached C \<inter> cover out = {} \<and>
     cover B \<union> cached C \<union> cover out = T"

lemma pmm_invD:
  assumes "pmm_inv T s out B C"
  shows "buddy_rep s B" "caches_rep s C" "blocks_ok out" "b \<in> out \<Longrightarrow> block_fits b"
    "cover B \<inter> cached C = {}" "cover B \<inter> cover out = {}" "cached C \<inter> cover out = {}"
    "cover B \<union> cached C \<union> cover out = T"
  using assms by (auto simp: pmm_inv_def)

lemma caches_repD:
  assumes "caches_rep s C"
  shows "g_pcp s c z = map addr_of (C c z)" "distinct (C c z)"
    "k \<in> set (C c z) \<Longrightarrow> block_fits (k, 0)" "k \<in> set (C c z) \<Longrightarrow> zone_fr k = z"
    "k \<in> set (C c z) \<Longrightarrow> k \<in> set (C c' z') \<Longrightarrow> c = c' \<and> z = z'"
    "k \<in> set (C c z) \<Longrightarrow> c < 64 \<and> g_pmm_percpu_ready s"
proof -
  note c = assms [unfolded caches_rep_def]
  show "g_pcp s c z = map addr_of (C c z)" "distinct (C c z)" using c by blast+
  show "k \<in> set (C c z) \<Longrightarrow> block_fits (k, 0)" "k \<in> set (C c z) \<Longrightarrow> zone_fr k = z" using c by blast+
  show "k \<in> set (C c z) \<Longrightarrow> k \<in> set (C c' z') \<Longrightarrow> c = c' \<and> z = z'" using c by blast
  have "C c z \<noteq> [] \<Longrightarrow> c < 64 \<and> g_pmm_percpu_ready s" using c by blast
  then show "k \<in> set (C c z) \<Longrightarrow> c < 64 \<and> g_pmm_percpu_ready s" by (metis length_pos_if_in_set list.size(3) less_numeral_extra(3))
qed

lemma caches_rep_cong: "caches_rep s C \<Longrightarrow> g_pcp s' = g_pcp s \<Longrightarrow> g_pmm_percpu_ready s' = g_pmm_percpu_ready s \<Longrightarrow> caches_rep s' C"
  by (simp add: caches_rep_def)

lemma buddy_rep_pcp [simp]: "buddy_rep (s\<lparr>g_pcp := x\<rparr>) B = buddy_rep s B"
  by (simp add: buddy_rep_def free_rep_def lists_rep_def bm_rep_def)

lemma buddy_rep_pressure [simp]: "buddy_rep (s\<lparr>g_pmm_pressure := x\<rparr>) B = buddy_rep s B"
  by (simp add: buddy_rep_def free_rep_def lists_rep_def bm_rep_def)

lemma buddy_rep_ready [simp]: "buddy_rep (s\<lparr>g_pmm_percpu_ready := x\<rparr>) B = buddy_rep s B"
  by (simp add: buddy_rep_def free_rep_def lists_rep_def bm_rep_def)

lemma only_free_pcpD: "only_free F s s' \<Longrightarrow> g_pcp s' = g_pcp s \<and> g_pmm_percpu_ready s' = g_pmm_percpu_ready s"
  by (simp add: only_free_def)

text \<open>A set of single frames as blocks.\<close>

definition singles :: "nat set \<Rightarrow> block set" where
  "singles K = (\<lambda>k. (k, 0)) ` K"

lemma cover_singles [simp]: "cover (singles K) = K"
  by (auto simp: cover_def singles_def)

lemma blocks_ok_singles [simp]: "blocks_ok (singles K)"
  by (auto simp: blocks_ok_def singles_def)

lemma singles_simps [simp]: "singles {} = {}" "singles (insert k K) = insert (k, 0) (singles K)"
  by (simp_all add: singles_def)

section \<open>Taking blocks off and giving them back\<close>

lemma carve_fits:
  assumes "free_rep s B" "(f, q) \<in> B" "p \<le> q"
  shows "block_fits (f, p)" "frames (f, p) \<subseteq> cover B"
proof -
  have b: "block_fits (f, q)" using free_repD(2) [OF assms(1,2)] .
  have "(2::nat) ^ p \<le> 2 ^ q" using assms(3) by (intro power_increasing) simp_all
  then have "f + 2 ^ p \<le> PMM_MAX_FRAMES" "frames (f, p) \<subseteq> frames (f, q)"
    using block_fits_rangeD [OF b] frames_mono [OF assms(3)] by (linarith, blast)
  moreover have "aligned (f, p)" using b assms(3) by (auto simp: block_fits_def intro: aligned_mono)
  ultimately show "block_fits (f, p)" "frames (f, p) \<subseteq> cover B"
    using b assms(3) cover_mono [OF assms(2)] by (auto simp: block_fits_def)
qed

text \<open>Allocation under the lock hands a block to an owner.\<close>

lemma zone_alloc_inv:
  assumes inv: "pmm_inv T s out B C" and z: "z \<le> 1" and p: "p \<le> PMM_MAX_ORDER"
    and res: "zone_alloc_locked z p s = (s', r)"
  shows "(r = 0 \<and> s' = s \<and> (\<forall>f q. (f, q) \<in> B \<longrightarrow> zone_fr f = z \<longrightarrow> q < p)) \<or>
    (\<exists>f q. r = addr_of f \<and> (f, q) \<in> B \<and> zone_fr f = z \<and> p \<le> q \<and> block_fits (f, p)
      \<and> frames (f, p) \<subseteq> cover B \<and> pmm_inv T s' (insert (f, p) out) (carve B f p q) C
      \<and> only_free (cover B) s s')"
proof -
  note I = pmm_invD [OF inv]
  have free: "free_rep s B" using I(1) by (simp add: buddy_rep_def)
  from zone_alloc_locked [OF I(1) z p res] show ?thesis
  proof (elim disjE exE conjE)
    fix f q
    assume *: "r = addr_of f" "(f, q) \<in> B" "zone_fr f = z" "p \<le> q"
      and rep: "buddy_rep s' (carve B f p q)" and fr: "only_free (cover B) s s'"
    note fits = carve_fits [OF free *(2,4)]
    have cov: "cover (carve B f p q) = cover B - frames (f, p)"
      by (rule cover_carve [OF free_repD(1) [OF free] *(2,4)])
    have "caches_rep s' C" using I(2) only_free_pcpD [OF fr] by (auto intro: caches_rep_cong)
    moreover have "blocks_ok (insert (f, p) out)"
      using I(3,6) fits by (intro blocks_ok_insert) (auto simp: block_fits_def)
    moreover have "\<forall>b\<in>insert (f, p) out. block_fits b" using fits(1) I(4) by auto
    ultimately have "pmm_inv T s' (insert (f, p) out) (carve B f p q) C"
      using rep I(5,6,7,8) fits(2) by (auto simp: pmm_inv_def cov)
    then show ?thesis using * fits fr by blast
  qed blast
qed

text \<open>Freeing under the lock takes a block back.\<close>

lemma zone_free_inv:
  assumes inv: "pmm_inv T s out B C" and b: "(f, p) \<in> out"
  shows "\<exists>s' B'. zone_free_locked (addr_of f) p s = (s', True) \<and> pmm_inv T s' (out - {(f, p)}) B' C
    \<and> cover B' = cover B \<union> frames (f, p) \<and> (merged PMM_MAX_ORDER B \<longrightarrow> merged PMM_MAX_ORDER B')
    \<and> only_free (cover B \<union> frames (f, p)) s s'"
proof -
  note I = pmm_invD [OF inv]
  have sub: "frames (f, p) \<subseteq> cover out" using b by (rule cover_mono)
  have cov: "cover (out - {(f, p)}) = cover out - frames (f, p)" by (rule cover_remove [OF I(3) b])
  obtain s' B' where *: "zone_free_locked (addr_of f) p s = (s', True)" "buddy_rep s' B'"
    "cover B' = cover B \<union> frames (f, p)" "merged PMM_MAX_ORDER B \<longrightarrow> merged PMM_MAX_ORDER B'"
    "only_free (cover B \<union> frames (f, p)) s s'"
    using zone_free_locked [OF I(1) I(4) [OF b]] sub I(6) by blast
  have "caches_rep s' C" using I(2) only_free_pcpD [OF *(5)] by (auto intro: caches_rep_cong)
  moreover have "blocks_ok (out - {(f, p)})" using I(3) by (rule blocks_ok_subset) auto
  ultimately have "pmm_inv T s' (out - {(f, p)}) B' C"
    using *(2,3) I(4,5,6,7,8) sub unfolding pmm_inv_def cov by auto
  then show ?thesis using * by blast
qed

lemma zone_bulk_free_inv:
  assumes "pmm_inv T s out B C" "distinct ks" "singles (set ks) \<subseteq> out"
  shows "\<exists>B'. pmm_inv T (zone_bulk_free (map addr_of ks) s) (out - singles (set ks)) B' C
    \<and> cover B' = cover B \<union> set ks \<and> (merged PMM_MAX_ORDER B \<longrightarrow> merged PMM_MAX_ORDER B')
    \<and> only_free (cover B \<union> set ks) s (zone_bulk_free (map addr_of ks) s)"
  using assms
proof (induction ks arbitrary: s out B)
  case Nil
  then show ?case by auto
next
  case (Cons k ks)
  obtain s' B' where *: "zone_free_locked (addr_of k) 0 s = (s', True)" "pmm_inv T s' (out - {(k, 0)}) B' C"
    "cover B' = cover B \<union> {k}" "merged PMM_MAX_ORDER B \<longrightarrow> merged PMM_MAX_ORDER B'"
    "only_free (cover B \<union> {k}) s s'"
    using zone_free_inv [OF Cons.prems(1), of k 0] Cons.prems(3) by auto
  have "singles (set ks) \<subseteq> out - {(k, 0)}" using Cons.prems(2,3) by (auto simp: singles_def)
  from Cons.IH [OF *(2) _ this] Cons.prems(2)
  obtain B'' where **: "pmm_inv T (zone_bulk_free (map addr_of ks) s') (out - {(k, 0)} - singles (set ks)) B'' C"
    "cover B'' = cover B' \<union> set ks" "merged PMM_MAX_ORDER B' \<longrightarrow> merged PMM_MAX_ORDER B''"
    "only_free (cover B' \<union> set ks) s' (zone_bulk_free (map addr_of ks) s')" by auto
  have "out - {(k, 0)} - singles (set ks) = out - singles (set (k # ks))" by auto
  moreover have "only_free (cover B \<union> set (k # ks)) s (zone_bulk_free (map addr_of ks) s')"
    by (rule only_free_trans [OF only_free_mono [OF *(5)] only_free_mono [OF **(4)]]) (auto simp: *(3))
  ultimately show ?case using * ** by auto
qed

lemma merged_carve:
  assumes B: "blocks_ok B" "merged m B" and b: "(f, q) \<in> B" "p \<le> q"
  shows "merged m (carve B f p q)"
  unfolding merged_def
proof (clarify, intro conjI impI)
  have al: "aligned (f, q)" and qm: "q \<le> m" using blocks_okD(1) [OF B(1) b(1)] mergedD(1) [OF B(2) b(1)] by auto
  have no: "(f, k) \<notin> B - {(f, q)}" for k
    using blocks_okD(2) [OF B(1) b(1), of "(f, k)" f] by auto
  fix g k assume gk: "(g, k) \<in> carve B f p q"
  show "k \<le> m" using gk qm mergedD(1) [OF B(2)] by (auto simp: carve_def halves_def)
  assume k: "k < m"
  show "(buddy g k, k) \<notin> carve B f p q"
  proof
    assume c: "(buddy g k, k) \<in> carve B f p q"
    have low: "buddy f k = f + 2 ^ k" if "k < q" using buddy_low [OF al that] .
    consider "(g, k) \<in> B - {(f, q)}" | "g = f + 2 ^ k" "k < q" using gk by (auto simp: carve_def halves_def)
    then show False
    proof cases
      case 1
      then have "(buddy g k, k) \<notin> B" using mergedD(2) [OF B(2)] k by auto
      then have "buddy g k = f + 2 ^ k" "k < q" using c by (auto simp: carve_def halves_def)
      then have "g = f" using low buddy_buddy by metis
      then show False using 1 no by blast
    next
      case 2
      then have "buddy g k = f" using low buddy_buddy by metis
      then show False using c no by (auto simp: carve_def halves_def)
    qed
  qed
qed

lemma zone_bulk_alloc_inv:
  assumes "pmm_inv T s out B C" "z \<le> 1"
  shows "\<exists>s' ks B'. zone_bulk_alloc z n s = (s', map addr_of ks) \<and> distinct ks \<and> set ks \<subseteq> cover B
    \<and> (\<forall>k\<in>set ks. block_fits (k, 0) \<and> zone_fr k = z)
    \<and> pmm_inv T s' (out \<union> singles (set ks)) B' C \<and> only_free (cover B) s s'
    \<and> (ks = [] \<longrightarrow> n = 0 \<or> s' = s \<and> (\<forall>f q. (f, q) \<in> B \<longrightarrow> zone_fr f \<noteq> z))
    \<and> (merged PMM_MAX_ORDER B \<longrightarrow> merged PMM_MAX_ORDER B')"
  using assms(1)
proof (induction n arbitrary: s out B)
  case 0
  then show ?case by (intro exI [of _ s] exI [of _ "[]"] exI [of _ B]) simp
next
  case (Suc n)
  obtain s1 r where al: "zone_alloc_locked z 0 s = (s1, r)" by fastforce
  from zone_alloc_inv [OF Suc.prems assms(2) _ al]
  consider "r = 0" "s1 = s" "\<forall>f q. (f, q) \<in> B \<longrightarrow> zone_fr f \<noteq> z"
    | f q where "r = addr_of f" "(f, q) \<in> B" "zone_fr f = z" "block_fits (f, 0)" "f \<in> cover B"
      "pmm_inv T s1 (insert (f, 0) out) (carve B f 0 q) C" "only_free (cover B) s s1"
    by fastforce
  then show ?case
  proof cases
    case 1
    then have "zone_bulk_alloc z (Suc n) s = (s, map addr_of [])" using al by simp
    then show ?thesis using 1 Suc.prems by (intro exI [of _ s] exI [of _ "[]"] exI [of _ B]) simp
  next
    case (2 f q)
    have ok: "blocks_ok B" using Suc.prems free_repD(1) by (auto simp: pmm_inv_def buddy_rep_def)
    have cov: "cover (carve B f 0 q) = cover B - {f}" using cover_carve [OF ok 2(2), of 0] by simp
    obtain s2 ks B' where *: "zone_bulk_alloc z n s1 = (s2, map addr_of ks)" "distinct ks"
      "set ks \<subseteq> cover (carve B f 0 q)" "\<forall>k\<in>set ks. block_fits (k, 0) \<and> zone_fr k = z"
      "pmm_inv T s2 (insert (f, 0) out \<union> singles (set ks)) B' C" "only_free (cover (carve B f 0 q)) s1 s2"
      "merged PMM_MAX_ORDER (carve B f 0 q) \<longrightarrow> merged PMM_MAX_ORDER B'"
      using Suc.IH [OF 2(6)] by blast
    have "addr_of f \<noteq> 0" using 2(4) block_fits_in_mem [OF 2(4), of f] by (simp add: addr_of_0_iff)
    then have "zone_bulk_alloc z (Suc n) s = (s2, map addr_of (f # ks))" using al *(1) 2(1) by simp
    moreover have "only_free (cover B) s s2"
      using 2(7) only_free_mono [OF *(6)] by (rule only_free_trans) (auto simp: cov)
    moreover have "insert (f, 0) out \<union> singles (set ks) = out \<union> singles (set (f # ks))" by auto
    ultimately show ?thesis
      using * 2 merged_carve [OF ok _ 2(2)] by (intro exI [of _ s2] exI [of _ "f # ks"] exI [of _ B']) (auto simp: cov)
  qed
qed

section \<open>The caches\<close>

definition set_cache :: "(nat \<Rightarrow> nat \<Rightarrow> nat list) \<Rightarrow> nat \<Rightarrow> nat \<Rightarrow> nat list \<Rightarrow> nat \<Rightarrow> nat \<Rightarrow> nat list" where
  "set_cache C c z ks = C(c := (C c)(z := ks))"

lemma caches_set:
  assumes C: "caches_rep s C" and ks: "distinct ks" "\<And>k. k \<in> set ks \<Longrightarrow> block_fits (k, 0) \<and> zone_fr k = z"
    and new: "set ks \<inter> (cached C - set (C c z)) = {}" and c: "c < 64" "g_pmm_percpu_ready s"
  shows "caches_rep (set_pcp c z (map addr_of ks) s) (set_cache C c z ks)"
    and "cached (set_cache C c z ks) = (cached C - set (C c z)) \<union> set ks"
proof -
  have other: "k \<notin> set ks" if "k \<in> set (C c' z')" "\<not> (c' = c \<and> z' = z)" for k c' z'
    using that new caches_repD(5) [OF C, of k c' z' c z] by (auto simp: cached_def)
  have mem: "set (set_cache C c z ks c' z') = (if c' = c \<and> z' = z then set ks else set (C c' z'))" for c' z'
    by (simp add: set_cache_def)
  show "caches_rep (set_pcp c z (map addr_of ks) s) (set_cache C c z ks)"
    unfolding caches_rep_def
  proof (intro conjI allI impI)
    fix c' z' show "g_pcp (set_pcp c z (map addr_of ks) s) c' z' = map addr_of (set_cache C c z ks c' z')"
      using caches_repD(1) [OF C] by (simp add: set_cache_def)
    show "distinct (set_cache C c z ks c' z')" using caches_repD(2) [OF C] ks(1) by (simp add: set_cache_def)
    show "c' < 64" "g_pmm_percpu_ready (set_pcp c z (map addr_of ks) s)"
      if "set_cache C c z ks c' z' \<noteq> []"
      using that c C by (auto simp: set_cache_def caches_rep_def split: if_splits)
    fix k assume k: "k \<in> set (set_cache C c z ks c' z')"
    show "block_fits (k, 0)" "zone_fr k = z'"
      using k ks(2) caches_repD(3,4) [OF C] by (auto simp: mem split: if_splits)
    fix c'' z'' assume k': "k \<in> set (set_cache C c z ks c'' z'')"
    have "c' = c'' \<and> z' = z''"
    proof (cases "(c' = c \<and> z' = z) \<or> (c'' = c \<and> z'' = z)")
      case True
      then show ?thesis using k k' other by (auto simp: mem split: if_splits)
    next
      case False
      then have "k \<in> set (C c' z')" "k \<in> set (C c'' z'')" using k k' by (auto simp: mem)
      then show ?thesis by (rule caches_repD(5) [OF C])
    qed
    then show "c' = c''" "z' = z''" by blast+
  qed
  show "cached (set_cache C c z ks) = (cached C - set (C c z)) \<union> set ks"
  proof (rule set_eqI, rule iffI)
    fix k
    show "k \<in> (cached C - set (C c z)) \<union> set ks" if h: "k \<in> cached (set_cache C c z ks)"
    proof -
      obtain c' z' where k: "k \<in> set (set_cache C c z ks c' z')" using h by (auto simp: cached_def)
      show ?thesis
      proof (cases "c' = c \<and> z' = z")
        case True
        then show ?thesis using k by (simp add: mem)
      next
        case False
        then have "k \<in> set (C c' z')" using k by (auto simp: mem)
        moreover from this have "k \<notin> set (C c z)" using caches_repD(5) [OF C] False by blast
        ultimately show ?thesis by (auto simp: cached_def)
      qed
    qed
    show "k \<in> cached (set_cache C c z ks)" if h: "k \<in> (cached C - set (C c z)) \<union> set ks"
    proof -
      consider "k \<in> set ks" | c' z' where "k \<in> set (C c' z')" "k \<notin> set (C c z)" using h by (auto simp: cached_def)
      then show ?thesis
      proof cases
        case 1
        then have "k \<in> set (set_cache C c z ks c z)" by (simp add: mem)
        then show ?thesis by (auto simp: cached_def)
      next
        case 2
        then have "k \<in> set (set_cache C c z ks c' z')" by (auto simp: mem)
        then show ?thesis by (auto simp: cached_def)
      qed
    qed
  qed
qed

text \<open>What an operation writes: headers only in the pages of \<open>F\<close>.\<close>

definition writes_in :: "nat set \<Rightarrow> pmm \<Rightarrow> pmm \<Rightarrow> bool" where
  "writes_in F s s' \<longleftrightarrow> (\<forall>a. a \<notin> addr_of ` F \<longrightarrow> page_hdr s' a = page_hdr s a)
     \<and> (\<forall>z. total_frames (g_zone s' z) = total_frames (g_zone s z))
     \<and> g_pmm_percpu_ready s' = g_pmm_percpu_ready s"

lemma only_free_writes: "only_free F s s' \<Longrightarrow> writes_in F s s'"
  by (simp add: only_free_def writes_in_def)

lemma writes_in_refl [simp]: "writes_in F s s"
  by (simp add: writes_in_def)

lemma writes_in_trans: "writes_in F s s' \<Longrightarrow> writes_in F s' s'' \<Longrightarrow> writes_in F s s''"
  by (simp add: writes_in_def)

lemma writes_in_mono: "writes_in F s s' \<Longrightarrow> F \<subseteq> G \<Longrightarrow> writes_in G s s'"
  unfolding writes_in_def by blast

lemma writes_in_pcp [simp]: "writes_in F (s\<lparr>g_pcp := x\<rparr>) s' = writes_in F s s'" "writes_in F s (s'\<lparr>g_pcp := x\<rparr>) = writes_in F s s'"
  by (simp_all add: writes_in_def)

text \<open>Moving frames between a cache and the blocks that are out.\<close>

lemma cache_move:
  assumes inv: "pmm_inv T s out B C" and ks: "distinct ks" "\<And>k. k \<in> set ks \<Longrightarrow> block_fits (k, 0) \<and> zone_fr k = z"
    and c: "c < 64" "g_pmm_percpu_ready s"
    and gone: "singles (set ks - set (C c z)) \<subseteq> out"
  shows "pmm_inv T (set_pcp c z (map addr_of ks) s)
    ((out - singles (set ks - set (C c z))) \<union> singles (set (C c z) - set ks)) B (set_cache C c z ks)"
proof -
  note I = pmm_invD [OF inv]
  let ?in = "set ks - set (C c z)" and ?gone = "set (C c z) - set ks"
  have cin: "?in \<subseteq> cover out" using gone by (auto simp: cover_def singles_def)
  have cz: "set (C c z) \<subseteq> cached C" by (auto simp: cached_def)
  have new: "set ks \<inter> (cached C - set (C c z)) = {}" using cin I(7) by blast
  note cs = caches_set [OF I(2) ks new c]
  have covo: "cover (out - singles ?in) = cover out - ?in"
    using cover_minus [OF I(3) gone] by simp
  let ?out = "(out - singles ?in) \<union> singles ?gone"
  have cov: "cover ?out = (cover out - ?in) \<union> ?gone" using covo by simp
  have ok: "blocks_ok ?out"
  proof (rule blocks_ok_union)
    show "blocks_ok (out - singles ?in)" using I(3) by (rule blocks_ok_subset) auto
    show "cover (out - singles ?in) \<inter> cover (singles ?gone) = {}" using I(7) cz by (auto simp: covo)
  qed simp
  have fits: "\<forall>b\<in>?out. block_fits b"
    using I(4) caches_repD(3) [OF I(2)] by (auto simp: singles_def)
  have sets: "fr \<inter> ((ca - cz) \<union> kk) = {} \<and> fr \<inter> ((ou - (kk - cz)) \<union> (cz - kk)) = {} \<and>
      ((ca - cz) \<union> kk) \<inter> ((ou - (kk - cz)) \<union> (cz - kk)) = {} \<and>
      fr \<union> ((ca - cz) \<union> kk) \<union> ((ou - (kk - cz)) \<union> (cz - kk)) = T"
    if "fr \<inter> ca = {}" "fr \<inter> ou = {}" "ca \<inter> ou = {}" "fr \<union> ca \<union> ou = T" "kk - cz \<subseteq> ou" "cz \<subseteq> ca"
    for fr ca ou kk cz :: "nat set"
    using that by (intro conjI; (blast | auto))
  have "cover B \<inter> cached (set_cache C c z ks) = {} \<and> cover B \<inter> cover ?out = {} \<and>
      cached (set_cache C c z ks) \<inter> cover ?out = {} \<and> cover B \<union> cached (set_cache C c z ks) \<union> cover ?out = T"
    using sets [OF I(5,6,7,8) cin cz] by (simp only: cov cs)
  then show ?thesis unfolding pmm_inv_def using I(1) cs(1) ok fits by simp
qed

text \<open>Freeing under the lock does not look at the caches.\<close>

lemma blk_insert_pcp: "blk_insert z p a (s\<lparr>g_pcp := x\<rparr>) = (blk_insert z p a s)\<lparr>g_pcp := x\<rparr>"
  by (simp add: blk_insert_def Let_def split: option.split)

lemma blk_unlink_pcp: "blk_unlink z p a (s\<lparr>g_pcp := x\<rparr>) = (blk_unlink z p a s)\<lparr>g_pcp := x\<rparr>"
  by (simp add: blk_unlink_def Let_def split: option.split)

lemma merge_loop_pcp:
  "merge_loop z a p (s\<lparr>g_pcp := x\<rparr>) = (case merge_loop z a p s of (s', r) \<Rightarrow> (s'\<lparr>g_pcp := x\<rparr>, r))"
proof (induction z a p s rule: merge_loop.induct)
  case (1 z a p s)
  show ?case
    by (subst (1 2) merge_loop.simps)
       (use 1 in \<open>auto simp: Let_def blk_remove_def blk_unlink_pcp split: if_splits\<close>)
qed

lemma zone_free_locked_pcp:
  "zone_free_locked a p (s\<lparr>g_pcp := x\<rparr>) = (case zone_free_locked a p s of (s', ok) \<Rightarrow> (s'\<lparr>g_pcp := x\<rparr>, ok))"
proof -
  have sw: "s\<lparr>g_pcp := x, g_bitmap := y\<rparr> = s\<lparr>g_bitmap := y, g_pcp := x\<rparr>" for y by simp
  show ?thesis
    by (simp add: zone_free_locked_def case_prod_unfold Let_def sw blk_insert_pcp merge_loop_pcp)
qed

lemma zone_bulk_free_pcp: "zone_bulk_free ps (s\<lparr>g_pcp := x\<rparr>) = (zone_bulk_free ps s)\<lparr>g_pcp := x\<rparr>"
  by (induction ps arbitrary: s) (simp_all add: zone_free_locked_pcp case_prod_unfold)

section \<open>Each section of the code keeps the frames accounted for\<close>

lemma singles_diff: "singles (A - B) = singles A - singles B"
  by (auto simp: singles_def)

lemma insert_fits: "block_fits (f, 0) \<Longrightarrow> in_mem f \<and> addr_of f \<noteq> 0 \<and> phys_to_frame (addr_of f) = f"
  using block_fits_in_mem [of f 0 f] by (simp add: addr_of_0_iff)

lemma pcp_alloc_inv:
  assumes inv: "pmm_inv T s out B C" and z: "z \<le> 1" and c: "c < 64" "g_pmm_percpu_ready s"
    and res: "pcp_alloc c z s = (s', r)"
  shows "(r = 0 \<and> s' = s \<and> C c z = [] \<and> (\<forall>f q. (f, q) \<in> B \<longrightarrow> zone_fr f \<noteq> z)) \<or>
    (\<exists>f B' C'. r = addr_of f \<and> zone_fr f = z \<and> block_fits (f, 0) \<and> f \<notin> cover out
      \<and> pmm_inv T s' (insert (f, 0) out) B' C' \<and> writes_in (cover B) s s'
      \<and> (merged PMM_MAX_ORDER B \<longrightarrow> merged PMM_MAX_ORDER B'))"
proof (cases "C c z = []")
  case False
  note I = pmm_invD [OF inv]
  obtain ks f where ks: "C c z = ks @ [f]" using False by (metis rev_exhaust)
  have p: "g_pcp s c z = map addr_of ks @ [addr_of f]" using caches_repD(1) [OF I(2), of c z] ks by simp
  have d: "distinct ks" "f \<notin> set ks" using caches_repD(2) [OF I(2), of c z] ks by auto
  have fk: "block_fits (k, 0) \<and> zone_fr k = z" if "k \<in> set (ks @ [f])" for k
    using that caches_repD(3,4) [OF I(2), of k c z] ks by simp
  have sets: "set (C c z) - set ks = {f}" "set ks - set (C c z) = {}" using ks d by auto
  have "pmm_inv T (set_pcp c z (map addr_of ks) s)
      ((out - singles (set ks - set (C c z))) \<union> singles (set (C c z) - set ks)) B (set_cache C c z ks)"
    by (rule cache_move [OF inv d(1) _ c]) (use fk in simp, simp only: sets singles_simps empty_subsetI)
  then have "pmm_inv T (set_pcp c z (map addr_of ks) s) (insert (f, 0) out) B (set_cache C c z ks)"
    by (simp add: sets)
  moreover have "s' = set_pcp c z (map addr_of ks) s" "r = addr_of f"
    using res p by (auto simp: pcp_alloc_def)
  moreover have "f \<in> cached C" by (rule in_cachedI [of _ _ c z]) (simp add: ks)
  then have "f \<notin> cover out" using I(7) by blast
  ultimately show ?thesis using fk [of f] by (intro disjI2 exI conjI) auto
next
  case True
  note I = pmm_invD [OF inv]
  have p: "g_pcp s c z = []" using caches_repD(1) [OF I(2), of c z] True by simp
  show ?thesis
  proof (cases "orders_mask (g_zone s z) = 0")
    case m: True
    obtain L where L: "blks L = B" "\<forall>z\<le>1. zone_ok (page_hdr s) (g_zone s z) (L z)"
      using I(1) by (auto simp: buddy_rep_def free_rep_def lists_rep_def)
    have "L z q = []" for q using L(2) z zone_okD(4) [of _ "g_zone s z" "L z" q] m by auto
    then have "\<forall>f q. (f, q) \<in> B \<longrightarrow> zone_fr f \<noteq> z" by (auto simp: L(1) [symmetric] blks_def)
    then show ?thesis using res p m True by (auto simp: pcp_alloc_def)
  next
    case m: False
    obtain s1 ks B' where *: "zone_bulk_alloc z PCP_BATCH s = (s1, map addr_of ks)" "distinct ks" "set ks \<subseteq> cover B"
      "\<forall>k\<in>set ks. block_fits (k, 0) \<and> zone_fr k = z" "pmm_inv T s1 (out \<union> singles (set ks)) B' C"
      "only_free (cover B) s s1" "ks = [] \<longrightarrow> PCP_BATCH = 0 \<or> s1 = s \<and> (\<forall>f q. (f, q) \<in> B \<longrightarrow> zone_fr f \<noteq> z)"
      "merged PMM_MAX_ORDER B \<longrightarrow> merged PMM_MAX_ORDER B'"
      using zone_bulk_alloc_inv [OF inv z] by blast
    show ?thesis
    proof (cases "ks = []")
      case True
      then show ?thesis using res p m * \<open>C c z = []\<close> by (auto simp: pcp_alloc_def PCP_BATCH_def)
    next
      case False
      then obtain js f where ks: "ks = js @ [f]" by (metis rev_exhaust)
      have d: "distinct js" "f \<notin> set js" using *(2) ks by auto
      have c1: "g_pmm_percpu_ready s1" using c *(6) by (simp add: only_free_def)
      have out: "out \<union> singles (set ks) - singles (set js) = insert (f, 0) out"
      proof -
        have "out \<inter> singles (set ks) = {}"
          using *(3) I(6) by (auto simp: singles_def) (metis disjoint_iff in_cover_base subsetD)
        then show ?thesis using d by (auto simp: ks singles_def)
      qed
      have sets: "set js - set (C c z) = set js" "set (C c z) - set js = {}" using \<open>C c z = []\<close> by auto
      have "pmm_inv T (set_pcp c z (map addr_of js) s1)
          ((out \<union> singles (set ks)) - singles (set js - set (C c z)) \<union> singles (set (C c z) - set js)) B' (set_cache C c z js)"
        by (rule cache_move [OF *(5) d(1) _ c(1) c1]) (use *(4) ks sets in \<open>auto simp: singles_def\<close>)
      then have "pmm_inv T (set_pcp c z (map addr_of js) s1) (insert (f, 0) out) B' (set_cache C c z js)"
        by (simp only: sets out singles_simps Un_empty_right)
      moreover have "s' = set_pcp c z (map addr_of js) s1" "r = addr_of f"
        using res p m *(1) by (auto simp: pcp_alloc_def ks)
      moreover have "f \<notin> cover out" using *(3) I(6) ks by auto
      moreover have "writes_in (cover B) s (set_pcp c z (map addr_of js) s1)"
        using only_free_writes [OF *(6)] by simp
      ultimately show ?thesis using *(4,8) ks by (intro disjI2 exI conjI) auto
    qed
  qed
qed

text \<open>The frame goes on top of the cache, after the colder half went back if the cache is full.\<close>

lemma pcp_spill_inv:
  assumes inv: "pmm_inv T s out B C" and c: "c < 64" "g_pmm_percpu_ready s"
  shows "\<exists>B'. pmm_inv T (set_pcp c z (map addr_of (drop n (C c z))) (zone_bulk_free (map addr_of (take n (C c z))) s))
      out B' (set_cache C c z (drop n (C c z)))
    \<and> cover B' = cover B \<union> set (take n (C c z)) \<and> (merged PMM_MAX_ORDER B \<longrightarrow> merged PMM_MAX_ORDER B')
    \<and> writes_in (cover B \<union> set (take n (C c z))) s (zone_bulk_free (map addr_of (take n (C c z))) s)"
proof -
  note I = pmm_invD [OF inv]
  let ?t = "take n (C c z)" and ?d = "drop n (C c z)"
  have dist: "distinct (?t @ ?d)" using caches_repD(2) [OF I(2), of c z] by simp
  then have d: "distinct ?t" "distinct ?d" "set ?t \<inter> set ?d = {}" by (simp_all only: distinct_append)
  have "set (C c z) = set ?t \<union> set ?d" by (metis append_take_drop_id set_append)
  then have sets: "set (C c z) - set ?d = set ?t" "set ?d - set (C c z) = {}" using d(3) by auto
  have "block_fits (k, 0) \<and> zone_fr k = z" if "k \<in> set ?d" for k
    using caches_repD(3,4) [OF I(2) in_set_dropD [OF that]] by blast
  from cache_move [OF inv d(2) this c]
  have mv: "pmm_inv T (set_pcp c z (map addr_of ?d) s) (out \<union> singles (set ?t)) B (set_cache C c z ?d)"
    unfolding sets by simp
  have gone: "out \<union> singles (set ?t) - singles (set ?t) = out"
  proof -
    have "set ?t \<inter> cover out = {}" using I(7) set_take_subset [of n "C c z"] by (auto simp: cached_def)
    then show ?thesis using in_cover_base by (auto simp: singles_def)
  qed
  obtain B' where *: "pmm_inv T (zone_bulk_free (map addr_of ?t) (set_pcp c z (map addr_of ?d) s)) out B' (set_cache C c z ?d)"
    "cover B' = cover B \<union> set ?t" "merged PMM_MAX_ORDER B \<longrightarrow> merged PMM_MAX_ORDER B'"
    "only_free (cover B \<union> set ?t) (set_pcp c z (map addr_of ?d) s) (zone_bulk_free (map addr_of ?t) (set_pcp c z (map addr_of ?d) s))"
    using zone_bulk_free_inv [OF mv d(1)] unfolding gone by auto
  have g: "g_pcp (zone_bulk_free (map addr_of ?t) s) = g_pcp s"
    using arg_cong [OF zone_bulk_free_pcp [of "map addr_of ?t" "g_pcp s" s], of g_pcp] by simp
  have "writes_in (cover B \<union> set ?t) s (zone_bulk_free (map addr_of ?t) s)"
    using only_free_writes [OF *(4)] by (simp add: zone_bulk_free_pcp)
  then show ?thesis using * by (auto simp: zone_bulk_free_pcp g)
qed

lemma pcp_push_inv:
  assumes inv: "pmm_inv T s out B C" and c: "c < 64" "g_pmm_percpu_ready s" and b: "(f, 0) \<in> out" "zone_fr f = z"
  shows "pmm_inv T (set_pcp c z (g_pcp s c z @ [addr_of f]) s) (out - {(f, 0)}) B (set_cache C c z (C c z @ [f]))"
proof -
  note I = pmm_invD [OF inv]
  have "f \<in> cover out" by (rule in_cover_base [OF b(1)])
  then have nf: "f \<notin> set (C c z)" using I(7) in_cachedI by blast
  have sets: "set (C c z @ [f]) - set (C c z) = {f}" "set (C c z) - set (C c z @ [f]) = {}" using nf by auto
  have "pmm_inv T (set_pcp c z (map addr_of (C c z @ [f])) s)
      (out - singles (set (C c z @ [f]) - set (C c z)) \<union> singles (set (C c z) - set (C c z @ [f]))) B
      (set_cache C c z (C c z @ [f]))"
  proof (rule cache_move [OF inv _ _ c])
    show "distinct (C c z @ [f])" using caches_repD(2) [OF I(2)] nf by simp
    show "block_fits (k, 0) \<and> zone_fr k = z" if "k \<in> set (C c z @ [f])" for k
      using that caches_repD(3,4) [OF I(2), of k c z] I(4) [OF b(1)] b(2) by auto
    show "singles (set (C c z @ [f]) - set (C c z)) \<subseteq> out" unfolding sets using b(1) by simp
  qed
  then show ?thesis unfolding sets using caches_repD(1) [OF I(2), of c z] by simp
qed

lemma pcp_free_inv:
  assumes inv: "pmm_inv T s out B C" and c: "c < 64" "g_pmm_percpu_ready s" and b: "(f, 0) \<in> out"
  shows "\<exists>B' C'. pmm_inv T (pcp_free c (addr_of f) s) (out - {(f, 0)}) B' C'
    \<and> writes_in (cover B \<union> cached C) s (pcp_free c (addr_of f) s)
    \<and> (merged PMM_MAX_ORDER B \<longrightarrow> merged PMM_MAX_ORDER B')"
proof -
  note I = pmm_invD [OF inv]
  let ?z = "zone_fr f"
  have z: "zone_of (addr_of f) = ?z"
    using insert_fits [OF I(4) [OF b]] by (simp add: zone_of_addr_of)
  note gp = caches_repD(1) [OF I(2), of c ?z]
  show ?thesis
  proof (cases "length (g_pcp s c ?z) = PCP_CAP")
    case False
    then have "pcp_free c (addr_of f) s = set_pcp c ?z (g_pcp s c ?z @ [addr_of f]) s"
      by (simp add: pcp_free_def Let_def z)
    then show ?thesis using pcp_push_inv [OF inv c b refl] by (intro exI conjI) auto
  next
    case True
    let ?n = "PCP_BATCH"
    let ?s1 = "set_pcp c ?z (map addr_of (drop ?n (C c ?z))) (zone_bulk_free (map addr_of (take ?n (C c ?z))) s)"
    obtain B' where *: "pmm_inv T ?s1 out B' (set_cache C c ?z (drop ?n (C c ?z)))"
      "merged PMM_MAX_ORDER B \<longrightarrow> merged PMM_MAX_ORDER B'"
      "writes_in (cover B \<union> set (take ?n (C c ?z))) s (zone_bulk_free (map addr_of (take ?n (C c ?z))) s)"
      using pcp_spill_inv [OF inv c, of ?n ?z] by blast
    have "pcp_free c (addr_of f) s = set_pcp c ?z (g_pcp ?s1 c ?z @ [addr_of f]) ?s1"
      using True by (simp add: pcp_free_def Let_def z gp take_map drop_map)
    moreover have "g_pmm_percpu_ready ?s1" using *(3) c by (simp add: writes_in_def)
    moreover have "writes_in (cover B \<union> cached C) s (zone_bulk_free (map addr_of (take ?n (C c ?z))) s)"
      using *(3) by (rule writes_in_mono) (use in_cachedI set_take_subset in fastforce)
    ultimately show ?thesis using pcp_push_inv [OF *(1) c(1) _ b refl] *(2) by (intro exI conjI) auto
  qed
qed

text \<open>Draining a cache: the pages leave the cache, and then go back under the lock.\<close>

lemma drain_take_inv:
  assumes inv: "pmm_inv T s out B C" and c: "c < 64" "g_pmm_percpu_ready s"
  shows "pmm_inv T (set_pcp c z [] s) (out \<union> singles (set (C c z))) B (set_cache C c z [])"
  using cache_move [OF inv _ _ c, of "[]" z] by simp

lemma singles_apart: "K \<inter> cover out = {} \<Longrightarrow> out \<union> singles K - singles K = out"
  using in_cover_base by (fastforce simp: singles_def)

lemma drain_zone_inv:
  assumes inv: "pmm_inv T s out B C" and c: "c < 64" "g_pmm_percpu_ready s"
  shows "\<exists>B'. pmm_inv T (drain_zone c z s) out B' (set_cache C c z []) \<and> cover B' = cover B \<union> set (C c z)
    \<and> writes_in (cover B \<union> set (C c z)) s (drain_zone c z s) \<and> (merged PMM_MAX_ORDER B \<longrightarrow> merged PMM_MAX_ORDER B')"
proof -
  note I = pmm_invD [OF inv]
  have "set (C c z) \<inter> cover out = {}" using I(7) in_cachedI by blast
  then have "out \<union> singles (set (C c z)) - singles (set (C c z)) = out" by (rule singles_apart)
  then obtain B' where "pmm_inv T (drain_zone c z s) out B' (set_cache C c z [])" "cover B' = cover B \<union> set (C c z)"
    "merged PMM_MAX_ORDER B \<longrightarrow> merged PMM_MAX_ORDER B'"
    "only_free (cover B \<union> set (C c z)) (set_pcp c z [] s) (drain_zone c z s)"
    using zone_bulk_free_inv [OF drain_take_inv [OF inv c, of z] caches_repD(2) [OF I(2), of c z]]
    by (auto simp: drain_zone_def Let_def caches_repD(1) [OF I(2)])
  then show ?thesis using only_free_writes by fastforce
qed

lemma pmm_drain_local_inv:
  assumes inv: "pmm_inv T s out B C" and c: "c < 64" "g_pmm_percpu_ready s"
  shows "\<exists>B' C'. pmm_inv T (pmm_drain_local c s) out B' C' \<and> C' c 0 = [] \<and> C' c 1 = []
    \<and> writes_in (cover B \<union> cached C) s (pmm_drain_local c s) \<and> (merged PMM_MAX_ORDER B \<longrightarrow> merged PMM_MAX_ORDER B')"
proof -
  let ?s1 = "drain_zone c 0 s" and ?C1 = "set_cache C c 0 []"
  obtain B1 where 1: "pmm_inv T ?s1 out B1 ?C1" "cover B1 = cover B \<union> set (C c 0)"
    "writes_in (cover B \<union> set (C c 0)) s ?s1" "merged PMM_MAX_ORDER B \<longrightarrow> merged PMM_MAX_ORDER B1"
    using drain_zone_inv [OF inv c] by blast
  have r: "g_pmm_percpu_ready ?s1" using 1(3) c(2) by (simp add: writes_in_def)
  obtain B2 where 2: "pmm_inv T (drain_zone c 1 ?s1) out B2 (set_cache ?C1 c 1 [])"
    "writes_in (cover B1 \<union> set (?C1 c 1)) ?s1 (drain_zone c 1 ?s1)" "merged PMM_MAX_ORDER B1 \<longrightarrow> merged PMM_MAX_ORDER B2"
    using drain_zone_inv [OF 1(1) c(1) r] by blast
  have "writes_in (cover B \<union> cached C) s ?s1"
    by (rule writes_in_mono [OF 1(3)]) (use in_cachedI in fastforce)
  moreover have "writes_in (cover B \<union> cached C) ?s1 (drain_zone c 1 ?s1)"
    by (rule writes_in_mono [OF 2(2)]) (use in_cachedI in \<open>fastforce simp: 1(2) set_cache_def\<close>)
  ultimately have "writes_in (cover B \<union> cached C) s (drain_zone c 1 ?s1)" by (rule writes_in_trans)
  moreover have "pmm_drain_local c s = drain_zone c 1 ?s1" using c(2) by (simp add: pmm_drain_local_def)
  moreover have "set_cache ?C1 c 1 [] c 0 = []" "set_cache ?C1 c 1 [] c 1 = []" by (simp_all add: set_cache_def)
  ultimately show ?thesis using 1(4) 2(1,3) by (metis (no_types, lifting))
qed

text \<open>The reclaim callback never meets a page that the allocator refuses.\<close>

lemma reclaim_zone_inv:
  assumes "pmm_inv T s out B C" "c < 64" "g_pmm_percpu_ready s"
  shows "\<exists>s' m' B' C'. reclaim_zone c z n m s = Some (s', m') \<and> pmm_inv T s' out B' C' \<and> m' \<le> m + n \<and> m \<le> m'
    \<and> cover B' \<union> cached C' = cover B \<union> cached C
    \<and> writes_in (cover B \<union> cached C) s s' \<and> (merged PMM_MAX_ORDER B \<longrightarrow> merged PMM_MAX_ORDER B')"
  using assms
proof (induction n arbitrary: s m B C)
  case 0
  then show ?case by (intro exI [of _ s] exI [of _ m] exI [of _ B] exI [of _ C]) simp
next
  case (Suc n)
  note inv = Suc.prems(1) and I = pmm_invD [OF Suc.prems(1)] and c = Suc.prems(2,3)
  note gp = caches_repD(1) [OF I(2), of c z]
  show ?case
  proof (cases "C c z = []")
    case True
    then show ?thesis using gp Suc.prems by (intro exI [of _ s] exI [of _ m] exI [of _ B] exI [of _ C]) simp
  next
    case False
    then obtain ks f where ks: "C c z = ks @ [f]" by (metis rev_exhaust)
    have d: "distinct ks" "f \<notin> set ks" using caches_repD(2) [OF I(2), of c z] ks by auto
    have sets: "set (C c z) - set ks = {f}" "set ks - set (C c z) = {}" using ks d by auto
    let ?s1 = "set_pcp c z (map addr_of ks) s" and ?C1 = "set_cache C c z ks"
    have fk: "block_fits (k, 0) \<and> zone_fr k = z" if "k \<in> set ks" for k
      using that caches_repD(3,4) [OF I(2), of k c z] ks by simp
    have "pmm_inv T ?s1 (out - singles (set ks - set (C c z)) \<union> singles (set (C c z) - set ks)) B ?C1"
      by (rule cache_move [OF inv d(1) _ c]) (use fk in simp, simp only: sets singles_simps empty_subsetI)
    then have mv: "pmm_inv T ?s1 (insert (f, 0) out) B ?C1" by (simp add: sets)
    have fc: "f \<in> cached C" by (rule in_cachedI [of _ _ c z]) (simp add: ks)
    then have "f \<notin> cover out" using I(7) by blast
    then have out: "insert (f, 0) out - {(f, 0)} = out" using in_cover_base by blast
    obtain s2 B2 where 2: "zone_free_locked (addr_of f) 0 ?s1 = (s2, True)" "pmm_inv T s2 out B2 ?C1"
      "cover B2 = cover B \<union> {f}" "merged PMM_MAX_ORDER B \<longrightarrow> merged PMM_MAX_ORDER B2"
      "only_free (cover B \<union> {f}) ?s1 s2"
      using zone_free_inv [OF mv, of f 0] out by auto
    have C1: "cached ?C1 = cached C - {f}"
      using I(8) pmm_invD(8) [OF 2(2)] pmm_invD(5,6,7) [OF 2(2)] I(5,6,7) fc 2(3) by blast
    have r2: "g_pmm_percpu_ready s2" using 2(5) c(2) by (simp add: only_free_def)
    obtain s' m' B' C' where 3: "reclaim_zone c z n (Suc m) s2 = Some (s', m')" "pmm_inv T s' out B' C'"
      "m' \<le> Suc m + n" "Suc m \<le> m'" "cover B' \<union> cached C' = cover B2 \<union> cached ?C1"
      "writes_in (cover B2 \<union> cached ?C1) s2 s'" "merged PMM_MAX_ORDER B2 \<longrightarrow> merged PMM_MAX_ORDER B'"
      using Suc.IH [OF 2(2) c(1) r2] by blast
    have all: "cover B2 \<union> cached ?C1 = cover B \<union> cached C" using fc by (auto simp: 2(3) C1)
    have run: "reclaim_zone c z (Suc n) m s = Some (s', m')"
      using gp ks 2(1) 3(1) by (simp add: butlast_append)
    have "writes_in (cover B \<union> {f}) s s2" using only_free_writes [OF 2(5)] by simp
    then have "writes_in (cover B \<union> cached C) s s2" by (rule writes_in_mono) (use fc in blast)
    moreover have "writes_in (cover B \<union> cached C) s2 s'" using 3(6) by (simp only: all)
    ultimately have "writes_in (cover B \<union> cached C) s s'" by (rule writes_in_trans)
    then show ?thesis using run 3 2(4) all by auto
  qed
qed

end
