(* ===== verification/Pmm_Init.thy ===== *)
theory Pmm_Init
  imports Pmm_Sys
begin

text \<open>
  Initialisation: the usable regions of the memory map are cut into the largest aligned
  blocks, all frames outside them stay marked as allocated, and neighbouring blocks of one
  region are never buddies of the same order.
\<close>

section \<open>Cutting a region into blocks\<close>

lemma init_order:
  assumes "g < e"
  shows "init_order (4096 * g) (4096 * e) n \<le> n"
    "2 ^ init_order (4096 * g) (4096 * e) n dvd g \<and> g + 2 ^ init_order (4096 * g) (4096 * e) n \<le> e"
    "q \<le> n \<Longrightarrow> 2 ^ q dvd g \<Longrightarrow> g + 2 ^ q \<le> e \<Longrightarrow> q \<le> init_order (4096 * g) (4096 * e) n"
proof -
  have cond: "4096 * g mod (4096 * 2 ^ k) = 0 \<and> 4096 * g + 4096 * 2 ^ k \<le> 4096 * e \<longleftrightarrow> 2 ^ k dvd g \<and> g + 2 ^ k \<le> e" for k
  proof -
    have "4096 * g mod (4096 * 2 ^ k) = 0 \<longleftrightarrow> 4096 * 2 ^ k dvd 4096 * g" by (rule mod_eq_0_iff_dvd)
    moreover have "\<dots> \<longleftrightarrow> 2 ^ k dvd g" by (simp only: nat_mult_dvd_cancel1 zero_less_numeral)
    moreover have "4096 * g + 4096 * 2 ^ k \<le> 4096 * e \<longleftrightarrow> g + 2 ^ k \<le> e" by linarith
    ultimately show ?thesis by blast
  qed
  have "init_order (4096 * g) (4096 * e) n \<le> n \<and>
      2 ^ init_order (4096 * g) (4096 * e) n dvd g \<and> g + 2 ^ init_order (4096 * g) (4096 * e) n \<le> e \<and>
      (\<forall>q\<le>n. 2 ^ q dvd g \<longrightarrow> g + 2 ^ q \<le> e \<longrightarrow> q \<le> init_order (4096 * g) (4096 * e) n)"
    using assms
  proof (induction n)
    case (Suc n)
    show ?case
    proof (cases "2 ^ Suc n dvd g \<and> g + 2 ^ Suc n \<le> e")
      case True
      then show ?thesis using cond [of "Suc n"] by simp
    next
      case False
      have "\<not> (4096 * g mod (4096 * 2 ^ Suc n) = 0 \<and> 4096 * g + 4096 * 2 ^ Suc n \<le> 4096 * e)"
        unfolding cond by (rule False)
      then have "init_order (4096 * g) (4096 * e) (Suc n) = init_order (4096 * g) (4096 * e) n"
        by (simp only: init_order.simps if_False)
      then show ?thesis using Suc.IH [OF Suc.prems] False by (auto simp: le_Suc_eq)
    qed
  qed simp
  then show "init_order (4096 * g) (4096 * e) n \<le> n"
    "2 ^ init_order (4096 * g) (4096 * e) n dvd g \<and> g + 2 ^ init_order (4096 * g) (4096 * e) n \<le> e"
    "q \<le> n \<Longrightarrow> 2 ^ q dvd g \<Longrightarrow> g + 2 ^ q \<le> e \<Longrightarrow> q \<le> init_order (4096 * g) (4096 * e) n" by blast+
qed

text \<open>The blocks into which the frames from \<open>g\<close> to \<open>e\<close> are cut.\<close>

function cuts :: "nat \<Rightarrow> nat \<Rightarrow> block set" where
  "cuts g e = (if g < e
     then let p = init_order (4096 * g) (4096 * e) PMM_MAX_ORDER in insert (g, p) (cuts (g + 2 ^ p) e) else {})"
  by pat_completeness auto
termination by (relation "measure (\<lambda>(g, e). e - g)") (auto intro!: diff_less_mono2)

declare cuts.simps [simp del]

lemma cuts:
  "g \<le> e \<Longrightarrow> blocks_ok (cuts g e) \<and> cover (cuts g e) = {g..<e} \<and> merged PMM_MAX_ORDER (cuts g e)
    \<and> (1 \<le> g \<longrightarrow> e \<le> PMM_MAX_FRAMES \<longrightarrow> (\<forall>b\<in>cuts g e. block_fits b))"
proof (induction g e rule: cuts.induct)
  case (1 g e)
  show ?case
  proof (cases "g < e")
    case False
    then have "cuts g e = {}" by (subst cuts.simps) simp
    then show ?thesis using 1(2) False by (simp add: merged_def)
  next
    case True
    define p where "p = init_order (4096 * g) (4096 * e) PMM_MAX_ORDER"
    note o = init_order [where n = PMM_MAX_ORDER, OF True, folded p_def]
    have eq: "cuts g e = insert (g, p) (cuts (g + 2 ^ p) e)" using True by (simp add: cuts.simps [of g e] p_def Let_def)
    have ih: "blocks_ok (cuts (g + 2 ^ p) e)" "cover (cuts (g + 2 ^ p) e) = {g + 2 ^ p..<e}"
      "merged PMM_MAX_ORDER (cuts (g + 2 ^ p) e)"
      "1 \<le> g \<longrightarrow> e \<le> PMM_MAX_FRAMES \<longrightarrow> (\<forall>b\<in>cuts (g + 2 ^ p) e. block_fits b)"
      using 1(1) [OF True p_def] o(2) by simp_all
    have al: "aligned (g, p)" using o(2) by (simp add: aligned_def)
    have cov: "cover (cuts g e) = {g..<e}" using o(2) by (auto simp: eq ih(2) frames_iff)
    have ok: "blocks_ok (cuts g e)" unfolding eq
      by (rule blocks_ok_insert [OF ih(1) al]) (auto simp: ih(2) frames_iff)
    have no: "(buddy g p, p) \<notin> cuts (g + 2 ^ p) e" if "p < PMM_MAX_ORDER"
    proof
      assume in': "(buddy g p, p) \<in> cuts (g + 2 ^ p) e"
      then have sub: "frames (buddy g p, p) \<subseteq> {g + 2 ^ p..<e}" using cover_mono ih(2) by metis
      then have ge: "buddy g p \<ge> g" by (auto simp: frames_def)
      have "\<not> bit g p"
      proof
        assume "bit g p"
        then have "buddy g p = g - 2 ^ p" "2 ^ p \<le> g" using bit_ge by (simp_all add: buddy_if)
        moreover have "(0::nat) < 2 ^ p" by simp
        ultimately show False using ge by linarith
      qed
      then have b: "buddy g p = g + 2 ^ p" "min g (buddy g p) = g" by (simp_all add: buddy_if)
      have "aligned (g, Suc p)" using merge_aligned [OF al] b(2) by simp
      moreover have "g + 2 ^ Suc p \<le> e" 
      proof -
        have "buddy g p + 2 ^ p \<le> e" by (rule frames_bound) (use sub in auto)
        then show ?thesis using b by simp
      qed
      ultimately show False using o(3) [of "Suc p"] that by (simp add: aligned_def)
    qed
    have "merged PMM_MAX_ORDER (cuts g e)"
      unfolding merged_def
    proof (clarify, intro conjI impI)
      fix f q assume fq: "(f, q) \<in> cuts g e"
      show "q \<le> PMM_MAX_ORDER" using fq o(1) mergedD(1) [OF ih(3)] by (auto simp: eq)
      assume q: "q < PMM_MAX_ORDER"
      show "(buddy f q, q) \<notin> cuts g e"
        using fq no q mergedD(2) [OF ih(3) _ q] buddy_buddy by (auto simp: eq)
    qed
    moreover have "block_fits (g, p)" if "1 \<le> g" "e \<le> PMM_MAX_FRAMES"
      using that o al by (simp add: block_fits_def)
    ultimately show ?thesis using ok cov ih(4) by (auto simp: eq)
  qed
qed

text \<open>Blocks on two sides of a gap are not buddies.\<close>

lemma merged_gap:
  assumes B: "blocks_ok B" "merged m B" and G: "blocks_ok G" "merged m G" "cover G = {g..<e}"
    and gap: "cover B \<inter> {g - 1..e} = {}"
  shows "merged m (B \<union> G)"
proof -
  have no: False if "(f, p) \<in> B" "(buddy f p, p) \<in> G" for f p
  proof -
    have fB: "frames (f, p) \<subseteq> cover B" and fG: "frames (buddy f p, p) \<subseteq> {g..<e}"
      using that cover_mono G(3) by metis+
    have "(1::nat) \<le> 2 ^ p" by simp
    then have "f \<in> frames (f, p)" "f + 2 ^ p - 1 \<in> frames (f, p)" unfolding frames_iff by linarith+
    then have "f \<in> cover B" "f + 2 ^ p - 1 \<in> cover B" using fB by blast+
    then have "f \<notin> {g - 1..e}" "f + 2 ^ p - 1 \<notin> {g - 1..e}" using gap by blast+
    then have out: "f < g - 1 \<or> e < f" "f + 2 ^ p - 1 < g - 1 \<or> e < f + 2 ^ p - 1" by auto
    have gb: "g \<le> buddy f p" "buddy f p + 2 ^ p \<le> e"
    proof -
      show "g \<le> buddy f p" using fG frames_base [of "buddy f p" p] by auto
      show "buddy f p + 2 ^ p \<le> e" by (rule frames_bound) (use fG in auto)
    qed
    show False
    proof (cases "bit f p")
      case True
      have "buddy f p = f - 2 ^ p" using True by (simp add: buddy_if)
      moreover have "2 ^ p \<le> f" using True by (rule bit_ge)
      ultimately show False using gb out \<open>1 \<le> 2 ^ p\<close> by linarith
    next
      case False
      then have "buddy f p = f + 2 ^ p" by (simp add: buddy_if)
      then show False using gb out \<open>1 \<le> 2 ^ p\<close> by linarith
    qed
  qed
  show ?thesis
    unfolding merged_def
  proof (clarify, intro conjI impI)
    fix f p assume fp: "(f, p) \<in> B \<union> G"
    show "p \<le> m" using fp mergedD(1) B(2) G(2) by blast
    assume p: "p < m"
    show "(buddy f p, p) \<notin> B \<union> G"
      using fp p mergedD(2) [OF B(2)] mergedD(2) [OF G(2)] no [of f p] no [of "buddy f p" p] by auto
  qed
qed

lemma free_rep_total [simp]:
  "free_rep (s\<lparr>g_zone := (g_zone s)(z0 := (g_zone s z0)\<lparr>total_frames := x\<rparr>)\<rparr>) B = free_rep s B"
proof -
  have "zone_ok h (((g_zone s)(z0 := (g_zone s z0)\<lparr>total_frames := x\<rparr>)) z) L = zone_ok h (g_zone s z) L" for h z L
    by (cases "z = z0") (simp_all add: zone_ok_def)
  moreover have "page_hdr (s\<lparr>g_zone := y\<rparr>) = page_hdr s" "g_zone (s\<lparr>g_zone := y\<rparr>) = y" for y by simp_all
  ultimately show ?thesis by (simp only: free_rep_def lists_rep_def)
qed

lemma init_blocks:
  assumes "free_rep s B" "g \<le> e" "1 \<le> g" "e \<le> PMM_MAX_FRAMES" "cover B \<inter> {g..<e} = {}"
  shows "free_rep (init_blocks (4096 * g) (4096 * e) s) (B \<union> cuts g e)
    \<and> g_bitmap (init_blocks (4096 * g) (4096 * e) s) = g_bitmap s
    \<and> g_pcp (init_blocks (4096 * g) (4096 * e) s) = g_pcp s
    \<and> g_pmm_percpu_ready (init_blocks (4096 * g) (4096 * e) s) = g_pmm_percpu_ready s
    \<and> pmm_get_total_pages (init_blocks (4096 * g) (4096 * e) s) = pmm_get_total_pages s + of_nat (e - g)"
  using assms
proof (induction g e arbitrary: s B rule: cuts.induct)
  case (1 g e)
  show ?case
  proof (cases "g < e")
    case False
    then have "cuts g e = {}" by (subst cuts.simps) simp
    moreover have "init_blocks (4096 * g) (4096 * e) s = s" using False by (subst init_blocks.simps) simp
    ultimately show ?thesis using 1(2,3) False by simp
  next
    case True
    define p where "p = init_order (4096 * g) (4096 * e) PMM_MAX_ORDER"
    note o = init_order [where n = PMM_MAX_ORDER, OF True, folded p_def]
    have eq: "cuts g e = insert (g, p) (cuts (g + 2 ^ p) e)" using True by (simp add: cuts.simps [of g e] p_def Let_def)
    have fits: "block_fits (g, p)" using o 1(4,5) by (simp add: block_fits_def aligned_def)
    have sub: "frames (g, p) \<subseteq> {g..<e}" using o(2) by (auto simp: frames_iff)
    define s1 where "s1 = blk_insert (zone_fr g) p (addr_of g) s"
    define s2 where "s2 = s1\<lparr>g_zone := (g_zone s1)(zone_fr g := (g_zone s1 (zone_fr g))
        \<lparr>total_frames := total_frames (g_zone s1 (zone_fr g)) + push_bit p 1\<rparr>)\<rparr>"
    have in': "in_mem g" using True 1(5) by simp
    have step: "init_blocks (4096 * g) (4096 * e) s = init_blocks (4096 * (g + 2 ^ p)) (4096 * e) s2"
    proof -
      have a: "(of_nat (4096 * g) :: u64) = addr_of g" by (simp add: addr_of_def)
      have "4096 * g < 4096 * e" using True by simp
      then show ?thesis
        by (subst init_blocks.simps) (simp only: Let_def if_True p_def [symmetric] a zone_of_addr_of [OF in']
          s1_def [symmetric] s2_def [symmetric] add_mult_distrib2)
    qed
    have "free_rep s1 (insert (g, p) B)"
      unfolding s1_def by (rule free_rep_insert(1) [OF 1(2) fits]) (use sub 1(6) in blast)
    then have r2: "free_rep s2 (insert (g, p) B)"
      by (simp only: s2_def free_rep_total)
    have "cover (insert (g, p) B) \<inter> {g + 2 ^ p..<e} = {}" using 1(6) by (auto simp: frames_iff)
    note ih = 1(1) [OF True p_def r2 _ _ 1(5) this]
    have tot: "pmm_get_total_pages s2 = pmm_get_total_pages s + of_nat (2 ^ p)"
      by (auto simp: pmm_get_total_pages_def s2_def s1_def zone_insert_def push_bit_eq_mult zone_fr_def)
    have "of_nat (2 ^ p) + of_nat (e - (g + 2 ^ p)) = (of_nat (e - g) :: u64)"
      using o(2) by (simp only: of_nat_add [symmetric]) (rule arg_cong [of _ _ of_nat], simp)
    then show ?thesis using ih o(2) 1(4) unfolding step eq tot
      by (simp add: s2_def s1_def add.assoc)
  qed
qed

section \<open>The whole memory map\<close>

definition regions :: "memmap_entry list \<Rightarrow> (nat \<times> nat) list" where
  "regions es = List.map_filter region_of es"

text \<open>The usable regions do not overlap, and keep \<open>gap\<close> bytes apart.\<close>

definition regions_apart :: "nat \<Rightarrow> memmap_entry list \<Rightarrow> bool" where
  "regions_apart gap es \<longleftrightarrow>
     sorted_wrt (\<lambda>r r'. snd r + gap \<le> fst r' \<or> snd r' + gap \<le> fst r) (regions es)"

definition region_frames :: "nat \<times> nat \<Rightarrow> nat set" where
  "region_frames r = {fst r div 4096 ..< snd r div 4096}"

definition managed :: "memmap_entry list \<Rightarrow> nat set" where
  "managed es = (\<Union>r\<in>set (regions es). region_frames r)"

lemma page_mask: "PAGE_SIZE - 1 = (mask 12 :: u64)"
  by (simp add: mask_eq_exp_minus_1)

lemma page_aligned: "unat (a AND NOT (PAGE_SIZE - 1)) mod 4096 = 0" for a :: u64
proof -
  have "take_bit 12 (a AND NOT (mask 12)) = 0"
    by (rule bit_eqI) (simp add: bit_simps)
  then have "unat (take_bit 12 (a AND NOT (mask 12))) = 0" by simp
  then show ?thesis unfolding page_mask by (simp add: take_bit_eq_mod unat_mod)
qed

lemma region_of:
  assumes "region_of e = Some (b, en)"
  obtains g h where "b = 4096 * g" "en = 4096 * h" "1 \<le> g" "g < h" "h \<le> PMM_MAX_FRAMES"
proof -
  define b0 where "b0 = PAGE_ALIGN_UP (mm_base e)"
  define e0 where "e0 = unat (PAGE_ALIGN_DOWN (mm_base e + mm_length e))"
  define b1 where "b1 = unat (if b0 < PAGE_SIZE then PAGE_SIZE else b0)"
  have b: "b = b1" and en: "en = (if e0 > PMM_MAX_ADDR then PMM_MAX_ADDR else e0)" and lt: "b1 < e0" "b1 < PMM_MAX_ADDR"
    using assms by (auto simp: region_of_def Let_def b0_def e0_def b1_def split: if_splits)
  have "unat b0 mod 4096 = 0" unfolding b0_def PAGE_ALIGN_UP_def by (rule page_aligned)
  then have "b1 mod 4096 = 0" by (simp add: b1_def)
  then obtain g where g: "b1 = 4096 * g" by (auto simp: mod_eq_0_iff_dvd)
  have "e0 mod 4096 = 0" unfolding e0_def PAGE_ALIGN_DOWN_def by (rule page_aligned)
  then obtain h where h: "e0 = 4096 * h" by (auto simp: mod_eq_0_iff_dvd)
  have ge: "4096 \<le> b1" by (auto simp: b1_def word_less_nat_alt)
  define h' where "h' = (if h > PMM_MAX_FRAMES then PMM_MAX_FRAMES else h)"
  show ?thesis
    by (rule that [of g h']) (use b en lt g h ge in \<open>auto simp: h'_def PMM_MAX_ADDR_def\<close>)
qed

text \<open>Blocks can be inserted while the bitmap already shows the region as free.\<close>

lemma init_region:
  assumes rep: "buddy_rep s B" and r: "region_of e = Some (4096 * g, 4096 * h)" "1 \<le> g" "g < h" "h \<le> PMM_MAX_FRAMES"
    and new: "cover B \<inter> {g..<h} = {}"
  shows "buddy_rep (init_region e s) (B \<union> cuts g h) \<and> g_pcp (init_region e s) = g_pcp s
    \<and> g_pmm_percpu_ready (init_region e s) = g_pmm_percpu_ready s
    \<and> pmm_get_total_pages (init_region e s) = pmm_get_total_pages s + of_nat (h - g)"
proof -
  define s1 where "s1 = s\<lparr>g_bitmap := fst (bitmap_range_clear (g_bitmap s) g (h - g))\<rparr>"
  have "(4096 * h - 4096 * g) div 4096 = h - g" by (simp flip: diff_mult_distrib2)
  then have run: "init_region e s = init_blocks (4096 * g) (4096 * h) s1"
    by (simp add: init_region_def r(1) s1_def)
  have "free_rep s1 B" using rep by (simp add: s1_def buddy_rep_def free_rep_def lists_rep_def)
  note ib = init_blocks [OF this _ r(2,4) new]
  have rng: "g + (h - g) \<le> PMM_MAX_FRAMES" "0 < h - g" using r(3,4) by auto
  have "bm_rep s1 (cover B \<union> {g..<h})"
    using rep by (auto simp: buddy_rep_def bm_rep_def s1_def bitmap_range_clear [OF rng])
  then have "bm_rep (init_region e s) (cover (B \<union> cuts g h))"
    using ib r(3) cuts [of g h] by (simp add: run bm_rep_def)
  then show ?thesis using ib r(3) by (simp add: run buddy_rep_def s1_def pmm_get_total_pages_def)
qed

definition pmm_reset :: "pmm \<Rightarrow> pmm" where
  "pmm_reset s = s\<lparr>g_bitmap := (\<lambda>w. -1), g_pcp := (\<lambda>c zone. []),
     g_zone := (\<lambda>zi. \<lparr>free_list = (\<lambda>order. None), zblocks = (\<lambda>order. 0), orders_mask = 0,
                      free_frames = 0, total_frames = 0\<rparr>)\<rparr>"

lemma pmm_reset: "buddy_rep (pmm_reset s) {}" "pmm_get_total_pages (pmm_reset s) = 0"
proof -
  have "free_rep (pmm_reset s) {}"
    unfolding free_rep_def lists_rep_def
    by (rule exI [of _ "\<lambda>z p. []"])
       (simp add: lists_ok_def blks_def zone_ok_def pmm_reset_def dlist_def)
  moreover have "bm_rep (pmm_reset s) {}"
    by (simp add: bm_rep_def bitmap_test_def pmm_reset_def bit_simps)
  ultimately show "buddy_rep (pmm_reset s) {}" by (simp add: buddy_rep_def)
qed (simp add: pmm_get_total_pages_def pmm_reset_def)

lemma regions_simps [simp]:
  "regions [] = []"
  "regions (e # es) = (case region_of e of None \<Rightarrow> regions es | Some r \<Rightarrow> r # regions es)"
  by (simp_all add: regions_def List.map_filter_simps split: option.split)

text \<open>After a part of the map the lists cover its regions; the rest stays apart from them.\<close>

lemma init_fold:
  assumes "buddy_rep s B" "regions_apart 0 es"
    and "\<And>r. r \<in> set (regions es) \<Longrightarrow> region_frames r \<inter> cover B = {}"
  shows "\<exists>B'. buddy_rep (fold init_region es s) B' \<and> cover B' = cover B \<union> managed es
    \<and> g_pcp (fold init_region es s) = g_pcp s \<and> g_pmm_percpu_ready (fold init_region es s) = g_pmm_percpu_ready s
    \<and> pmm_get_total_pages (fold init_region es s) = pmm_get_total_pages s + of_nat (card (managed es))
    \<and> (merged PMM_MAX_ORDER B \<longrightarrow> regions_apart 4096 es \<longrightarrow>
        (\<forall>r\<in>set (regions es). cover B \<inter> {fst r div 4096 - 1..snd r div 4096} = {}) \<longrightarrow> merged PMM_MAX_ORDER B')"
  using assms
proof (induction es arbitrary: s B)
  case Nil
  then show ?case by (auto simp: managed_def)
next
  case (Cons e es)
  show ?case
  proof (cases "region_of e")
    case None
    then show ?thesis using Cons.IH [OF Cons.prems(1)] Cons.prems(2,3)
      by (simp add: managed_def regions_apart_def init_region_def)
  next
    case (Some r)
    obtain b en where r: "r = (b, en)" by (cases r)
    then obtain g h where gh: "b = 4096 * g" "en = 4096 * h" "1 \<le> g" "g < h" "h \<le> PMM_MAX_FRAMES"
      using region_of Some by metis
    have rf: "region_frames r = {g..<h}" by (simp add: region_frames_def r gh)
    have new: "cover B \<inter> {g..<h} = {}" using Cons.prems(3) [of r] Some rf by auto
    let ?s1 = "init_region e s" and ?B1 = "B \<union> cuts g h"
    have 1: "buddy_rep ?s1 ?B1" "g_pcp ?s1 = g_pcp s" "g_pmm_percpu_ready ?s1 = g_pmm_percpu_ready s"
      "pmm_get_total_pages ?s1 = pmm_get_total_pages s + of_nat (h - g)"
      using init_region [OF Cons.prems(1) _ gh(3,4,5) new, of e] Some r gh by auto
    have ct: "cover (cuts g h) = {g..<h}" "blocks_ok (cuts g h)" "merged PMM_MAX_ORDER (cuts g h)"
      using cuts [of g h] gh(4) by auto
    have ap: "regions_apart gap es \<and> (\<forall>r'\<in>set (regions es). en + gap \<le> fst r' \<or> snd r' + gap \<le> b)"
      if "regions_apart gap (e # es)" for gap
      using that Some r by (simp add: regions_apart_def)
    have dis: "region_frames r' \<inter> {g..<h} = {}" if "r' \<in> set (regions es)" for r'
    proof -
      have "en \<le> fst r' \<or> snd r' \<le> b" using ap [OF Cons.prems(2)] that by simp
      then have "h \<le> fst r' div 4096 \<or> snd r' div 4096 \<le> g" unfolding gh by linarith
      then show ?thesis by (auto simp: region_frames_def)
    qed
    have "region_frames r' \<inter> cover ?B1 = {}" if "r' \<in> set (regions es)" for r'
      using Cons.prems(3) [of r'] dis [OF that] that Some by (auto simp: ct)
    from Cons.IH [OF 1(1) _ this] ap [OF Cons.prems(2)]
    obtain B' where 2: "buddy_rep (fold init_region es ?s1) B'" "cover B' = cover ?B1 \<union> managed es"
      "g_pcp (fold init_region es ?s1) = g_pcp ?s1"
      "g_pmm_percpu_ready (fold init_region es ?s1) = g_pmm_percpu_ready ?s1"
      "pmm_get_total_pages (fold init_region es ?s1) = pmm_get_total_pages ?s1 + of_nat (card (managed es))"
      "merged PMM_MAX_ORDER ?B1 \<longrightarrow> regions_apart 4096 es \<longrightarrow>
        (\<forall>r\<in>set (regions es). cover ?B1 \<inter> {fst r div 4096 - 1..snd r div 4096} = {}) \<longrightarrow> merged PMM_MAX_ORDER B'"
      by blast
    have man: "managed (e # es) = {g..<h} \<union> managed es" using Some rf by (simp add: managed_def)
    have fin: "finite (managed es)" by (simp add: managed_def region_frames_def)
    have "managed es \<inter> {g..<h} = {}" using dis by (auto simp: managed_def)
    then have "card (managed (e # es)) = (h - g) + card (managed es)"
      unfolding man by (subst card_Un_disjoint) (use fin in auto)
    then have tot: "pmm_get_total_pages (fold init_region es ?s1) = pmm_get_total_pages s + of_nat (card (managed (e # es)))"
      by (simp only: 2(5) 1(4) of_nat_add add.assoc)
    have mer: "merged PMM_MAX_ORDER B'"
      if m: "merged PMM_MAX_ORDER B" and a: "regions_apart 4096 (e # es)"
        and c: "\<forall>r\<in>set (regions (e # es)). cover B \<inter> {fst r div 4096 - 1..snd r div 4096} = {}"
    proof -
      have "cover B \<inter> {g - 1..h} = {}" using c Some r gh by auto
      then have m1: "merged PMM_MAX_ORDER ?B1"
        using Cons.prems(1) free_repD(1) m by (intro merged_gap [OF _ m ct(2,3,1)]) (auto simp: buddy_rep_def)
      moreover have "cover ?B1 \<inter> {fst r' div 4096 - 1..snd r' div 4096} = {}" if r': "r' \<in> set (regions es)" for r'
      proof -
        have "en + 4096 \<le> fst r' \<or> snd r' + 4096 \<le> b" using ap [OF a] r' by blast
        then have "h \<le> fst r' div 4096 - 1 \<or> snd r' div 4096 < g" unfolding gh by linarith
        moreover have "cover B \<inter> {fst r' div 4096 - 1..snd r' div 4096} = {}" using c r' Some by auto
        ultimately show ?thesis by (auto simp: ct)
      qed
      ultimately show ?thesis using 2(6) ap [OF a] by blast
    qed
    have "cover B' = cover B \<union> managed (e # es)" using 2(2) by (simp add: man ct Un_assoc)
    then show ?thesis using 2(1,3,4) 1(2,3) tot mer by (intro exI [of _ B']) auto
  qed
qed

lemma pmm_init_inv:
  assumes "regions_apart 0 es"
  shows "\<exists>B. pmm_inv (managed es) (pmm_init es s) {} B (\<lambda>c z. []) \<and> cover B = managed es
    \<and> pmm_get_total_pages (pmm_init es s) = of_nat (card (managed es))
    \<and> (regions_apart 4096 es \<longrightarrow> merged PMM_MAX_ORDER B)"
proof -
  have init: "pmm_init es s = fold init_region es (pmm_reset s)" by (simp add: pmm_init_def pmm_reset_def)
  obtain B where B: "buddy_rep (pmm_init es s) B" "cover B = managed es" "g_pcp (pmm_init es s) = (\<lambda>c z. [])"
    "pmm_get_total_pages (pmm_init es s) = of_nat (card (managed es))"
    "regions_apart 4096 es \<longrightarrow> merged PMM_MAX_ORDER B"
  proof -
    have "merged PMM_MAX_ORDER {}" by (simp add: merged_def)
    moreover have "g_pcp (pmm_reset s) = (\<lambda>c z. [])" by (simp add: pmm_reset_def)
    ultimately show ?thesis
      using init_fold [OF pmm_reset(1) [of s] assms] that unfolding init pmm_reset(2) by simp metis
  qed
  then show ?thesis by (intro exI [of _ B]) (simp add: pmm_inv_def caches_rep_def cached_def)
qed

end
