(* ===== verification/Pmm_Correct.thy ===== *)
theory Pmm_Correct
  imports Pmm_Init
begin

text \<open>
  The page allocator under any interleaving of its critical sections, on any of 64 CPUs, with
  the owners of blocks writing into them as they like: every section keeps the frames
  accounted for, and the counters are exact.
\<close>

section \<open>Counting\<close>

lemma card_cover:
  assumes "blocks_ok B" "finite B"
  shows "card (cover B) = (\<Sum>b\<in>B. 2 ^ snd b)"
proof -
  have "card (cover B) = (\<Sum>b\<in>B. card (frames b))"
    unfolding cover_def using assms by (intro card_UN_disjoint) (auto simp: blocks_ok_def)
  then show ?thesis by simp
qed

definition zone_blks :: "(nat \<Rightarrow> nat list) \<Rightarrow> block set" where
  "zone_blks L = (\<Union>p\<le>PMM_MAX_ORDER. (\<lambda>f. (f, p)) ` set (L p))"

lemma sum_zone_blks:
  assumes "\<And>p. distinct (L p)"
  shows "(\<Sum>b\<in>zone_blks L. 2 ^ snd b) = (\<Sum>p\<le>PMM_MAX_ORDER. length (L p) * 2 ^ p)"
proof -
  have "(\<Sum>b\<in>zone_blks L. 2 ^ snd b) = (\<Sum>p\<le>PMM_MAX_ORDER. \<Sum>b\<in>(\<lambda>f. (f, p)) ` set (L p). 2 ^ snd b)"
    unfolding zone_blks_def by (rule sum.UNION_disjoint) auto
  also have "\<dots> = (\<Sum>p\<le>PMM_MAX_ORDER. length (L p) * 2 ^ p)"
  proof (rule sum.cong)
    fix p
    have "(\<Sum>b\<in>(\<lambda>f. (f, p)) ` set (L p). 2 ^ snd b) = (\<Sum>f\<in>set (L p). (2::nat) ^ p)"
      by (subst sum.reindex) (auto simp: inj_on_def)
    then show "(\<Sum>b\<in>(\<lambda>f. (f, p)) ` set (L p). 2 ^ snd b) = length (L p) * 2 ^ p"
      using distinct_card [OF assms, of p] by simp
  qed simp
  finally show ?thesis .
qed

lemma in_zone_blks: "lists_ok L \<Longrightarrow> (f, p) \<in> zone_blks (L z) \<longleftrightarrow> f \<in> set (L z p)"
  using lists_okD(4) [of L f z p] by (auto simp: zone_blks_def)

lemma blks_zones:
  assumes "lists_ok L"
  shows "blks L = zone_blks (L 0) \<union> zone_blks (L 1)" "zone_blks (L 0) \<inter> zone_blks (L 1) = {}"
proof -
  have "(f, p) \<in> blks L \<longleftrightarrow> (f, p) \<in> zone_blks (L 0) \<union> zone_blks (L 1)" for f p
  proof -
    have "zone_fr f = 0 \<or> zone_fr f = 1" using zone_fr_less [of f] by linarith
    then show ?thesis
      using lists_okD(1) [OF assms, of f 0 p] lists_okD(1) [OF assms, of f 1 p]
      by (auto simp: blks_def in_zone_blks [OF assms])
  qed
  then show "blks L = zone_blks (L 0) \<union> zone_blks (L 1)" by auto
  have "\<not> ((f, p) \<in> zone_blks (L 0) \<and> (f, p) \<in> zone_blks (L 1))" for f p
    using lists_okD(1) [OF assms, of f 0 p] lists_okD(1) [OF assms, of f 1 p]
    by (auto simp: in_zone_blks [OF assms])
  then show "zone_blks (L 0) \<inter> zone_blks (L 1) = {}" by auto
qed

text \<open>The counters are exact.\<close>

lemma free_frames_card:
  assumes "free_rep s B"
  shows "free_frames (g_zone s 0) + free_frames (g_zone s 1) = of_nat (card (cover B))"
proof -
  obtain L where L: "lists_ok L" "blks L = B" "\<forall>z\<le>1. zone_ok (page_hdr s) (g_zone s z) (L z)"
    using assms by (auto simp: free_rep_def lists_rep_def)
  have fin: "finite (zone_blks M)" for M by (simp add: zone_blks_def)
  have d: "distinct (L z p)" for z p using L(1) by (simp add: lists_ok_def)
  have "card (cover B) = (\<Sum>b\<in>B. 2 ^ snd b)"
    using free_repD(1) [OF assms] fin by (intro card_cover) (simp_all add: L(2) [symmetric] blks_zones [OF L(1)])
  also have "\<dots> = (\<Sum>b\<in>zone_blks (L 0). 2 ^ snd b) + (\<Sum>b\<in>zone_blks (L 1). 2 ^ snd b)"
    unfolding L(2) [symmetric] blks_zones(1) [OF L(1)] using fin blks_zones(2) [OF L(1)] by (intro sum.union_disjoint)
  finally show ?thesis
    using L(3) by (simp add: sum_zone_blks [OF d] zone_ok_def)
qed

lemma zblocks_card:
  assumes "free_rep s B" "z \<le> 1" "p \<le> PMM_MAX_ORDER"
  shows "zblocks (g_zone s z) p = of_nat (card {f. (f, p) \<in> B \<and> zone_fr f = z})"
proof -
  obtain L where L: "lists_ok L" "blks L = B" "zone_ok (page_hdr s) (g_zone s z) (L z)"
    using assms by (auto simp: free_rep_def lists_rep_def)
  have "set (L z p) = {f. (f, p) \<in> B \<and> zone_fr f = z}"
    using lists_okD(1) [OF L(1)] by (auto simp: L(2) [symmetric] blks_def)
  moreover have "distinct (L z p)" using L(1) by (simp add: lists_ok_def)
  ultimately have "length (L z p) = card {f. (f, p) \<in> B \<and> zone_fr f = z}" using distinct_card by metis
  moreover have "zblocks (g_zone s z) p = of_nat (length (L z p))" using L(3) assms(3) by (auto simp: zone_ok_def)
  ultimately show ?thesis by (simp only:)
qed

lemma cached_card:
  assumes "caches_rep s C"
  shows "pcp_cached 64 0 s + pcp_cached 64 1 s = of_nat (card (cached C))"
proof -
  have D: "cached C = (\<Union>c<64. set (C c 0)) \<union> (\<Union>c<64. set (C c 1))"
  proof (rule set_eqI, rule iffI)
    fix k assume "k \<in> cached C"
    then obtain c z where k: "k \<in> set (C c z)" by (auto simp: cached_def)
    have "c < 64" using caches_repD(6) [OF assms k] by simp
    moreover have "z = 0 \<or> z = 1" using caches_repD(4) [OF assms k] zone_fr_less [of k] by linarith
    ultimately show "k \<in> (\<Union>c<64. set (C c 0)) \<union> (\<Union>c<64. set (C c 1))" using k by blast
  qed (auto simp: cached_def)
  have U: "card (\<Union>c<64. set (C c z)) = (\<Sum>c<64. length (C c z))" for z
  proof -
    have "card (\<Union>c<64. set (C c z)) = (\<Sum>c<64. card (set (C c z)))"
      using caches_repD(5) [OF assms] by (intro card_UN_disjoint) blast+
    then show ?thesis using distinct_card [OF caches_repD(2) [OF assms]] by simp
  qed
  have "(\<Union>c<64. set (C c 0)) \<inter> (\<Union>c<64. set (C c 1)) = {}"
    using caches_repD(4) [OF assms, of _ _ 0] caches_repD(4) [OF assms, of _ _ 1] by fastforce
  then have "card (cached C) = (\<Sum>c<64. length (C c 0)) + (\<Sum>c<64. length (C c 1))"
    unfolding D U [symmetric] by (intro card_Un_disjoint) auto
  moreover have "pcp_cached 64 z s = of_nat (\<Sum>c<64. length (C c z))" for z
  proof (cases "g_pmm_percpu_ready s")
    case True
    then show ?thesis
      using caches_repD(1) [OF assms]
      by (simp add: pcp_cached_def sum_list_distinct_conv_sum_set atLeast0LessThan)
  next
    case False
    then have "C c z = []" for c using caches_repD(6) [OF assms, of _ c z] by (metis list.set_intros(1) neq_Nil_conv)
    then show ?thesis using False by (simp add: pcp_cached_def)
  qed
  ultimately show ?thesis by simp
qed

text \<open>Free pages, including the cached ones, and the pages that are out add up to all pages.\<close>

lemma pages_add_up:
  assumes inv: "pmm_inv T s out B C" and fin: "finite T"
  shows "pmm_get_free_pages 64 s + of_nat (card (cover out)) = of_nat (card T)"
proof -
  note I = pmm_invD [OF inv]
  have f: "finite (cover B)" "finite (cached C)" "finite (cover out)"
    using fin I(8) by (metis finite_Un)+
  have "card T = card (cover B) + card (cached C) + card (cover out)"
    unfolding I(8) [symmetric] using f I(5,6,7) by (simp add: card_Un_disjoint Int_Un_distrib2)
  moreover have "pmm_get_free_pages 64 s = of_nat (card (cover B)) + of_nat (card (cached C))"
    using free_frames_card [of s B] cached_card [OF I(2)] I(1)
    by (simp add: pmm_get_free_pages_def buddy_rep_def algebra_simps)
  ultimately show ?thesis by simp
qed

section \<open>Any order of critical sections\<close>

text \<open>One critical section of the allocator on some CPU. \<open>out\<close> are the blocks in the hands of
  callers, including the pages a drain has taken off a cache and not yet given back.\<close>

inductive pmm_section :: "pmm \<times> block set \<Rightarrow> pmm \<times> block set \<Rightarrow> bool" where
  cache_alloc: "c < 64 \<Longrightarrow> g_pmm_percpu_ready s \<Longrightarrow> z \<le> 1 \<Longrightarrow> pcp_alloc c z s = (s', r) \<Longrightarrow>
    pmm_section (s, out) (s', if r = 0 then out else insert (phys_to_frame r, 0) out)"
| zone_alloc: "z \<le> 1 \<Longrightarrow> p \<le> PMM_MAX_ORDER \<Longrightarrow> zone_alloc_locked z p s = (s', r) \<Longrightarrow>
    pmm_section (s, out) (s', if r = 0 then out else insert (phys_to_frame r, p) out)"
| cache_free: "c < 64 \<Longrightarrow> g_pmm_percpu_ready s \<Longrightarrow> (f, 0) \<in> out \<Longrightarrow>
    pmm_section (s, out) (pcp_free c (addr_of f) s, out - {(f, 0)})"
| zone_free: "(f, p) \<in> out \<Longrightarrow>
    pmm_section (s, out) (fst (zone_free_locked (addr_of f) p s), out - {(f, p)})"
| drain_take: "c < 64 \<Longrightarrow> g_pmm_percpu_ready s \<Longrightarrow>
    pmm_section (s, out) (set_pcp c z [] s, out \<union> singles (phys_to_frame ` set (g_pcp s c z)))"
| drain_give: "distinct ks \<Longrightarrow> singles (set ks) \<subseteq> out \<Longrightarrow>
    pmm_section (s, out) (zone_bulk_free (map addr_of ks) s, out - singles (set ks))"
| reclaim: "c < 64 \<Longrightarrow> pmm_reclaim_callback c busy zones budget s = Some (s', m, b) \<Longrightarrow>
    pmm_section (s, out) (s', out)"
| enable: "pmm_section (s, out) (pmm_enable_percpu s, out)"
| pressure: "pmm_section (s, out) (s\<lparr>g_pmm_pressure := x\<rparr>, out)"

text \<open>The holders of blocks write what they like into their pages.\<close>

inductive pmm_reachable :: "memmap_entry list \<Rightarrow> pmm \<Rightarrow> block set \<Rightarrow> bool" for es where
  init: "pmm_reachable es (pmm_init es s) {}"
| step: "pmm_reachable es s out \<Longrightarrow> pmm_section (s, out) (s', out') \<Longrightarrow> pmm_reachable es s' out'"
| owner: "pmm_reachable es s out \<Longrightarrow> k \<in> cover out \<Longrightarrow>
    pmm_reachable es (s\<lparr>page_hdr := (page_hdr s)(addr_of k := b)\<rparr>) out"

text \<open>Each keeps the frames accounted for, the canonical form of the lists, and the memory of
  the blocks that are out before and after.\<close>

definition section_ok :: "nat set \<Rightarrow> pmm \<Rightarrow> block set \<Rightarrow> block set \<Rightarrow> pmm \<Rightarrow> block set \<Rightarrow> bool" where
  "section_ok T s out B s' out' \<longleftrightarrow> (\<exists>B' C'. pmm_inv T s' out' B' C' \<and> (merged PMM_MAX_ORDER B \<longrightarrow> merged PMM_MAX_ORDER B'))
     \<and> (\<forall>k. k \<in> cover out \<longrightarrow> k \<in> cover out' \<longrightarrow> page_hdr s' (addr_of k) = page_hdr s (addr_of k))
     \<and> (\<forall>z. total_frames (g_zone s' z) = total_frames (g_zone s z))"

lemma out_in_mem:
  assumes "pmm_inv T s out B C" "k \<in> cover out"
  shows "in_mem k" "1 \<le> k"
proof -
  obtain b where b: "b \<in> out" "k \<in> frames b" using assms(2) by (auto simp: cover_def)
  have "block_fits (fst b, snd b)" using pmm_invD(4) [OF assms(1) b(1)] by simp
  then show "in_mem k" "1 \<le> k" using block_fits_in_mem b(2) by fastforce+
qed

lemma inv_in_mem:
  assumes "pmm_inv T s out B C" "k \<in> T"
  shows "in_mem k"
proof -
  note I = pmm_invD [OF assms(1)]
  have "free_rep s B" using I(1) by (simp add: buddy_rep_def)
  moreover have "in_mem k" if "k \<in> cached C"
    using that caches_repD(3) [OF I(2)] insert_fits by (fastforce simp: cached_def)
  ultimately show ?thesis using assms(2) out_in_mem(1) [OF assms(1)] free_repD(3) unfolding I(8) [symmetric] by blast
qed

lemma section_okI:
  assumes inv: "pmm_inv T s out B C" and inv': "pmm_inv T s' out' B' C'" "merged PMM_MAX_ORDER B \<longrightarrow> merged PMM_MAX_ORDER B'"
    and w: "writes_in (cover B \<union> cached C \<union> F) s s'" and F: "F \<subseteq> T" "F \<inter> cover out' = {}"
  shows "section_ok T s out B s' out'"
proof -
  note I = pmm_invD [OF inv]
  have "page_hdr s' (addr_of k) = page_hdr s (addr_of k)" if k: "k \<in> cover out" "k \<in> cover out'" for k
  proof -
    have kn: "k \<notin> cover B \<union> cached C \<union> F" using k I(6,7) F(2) by blast
    have im: "in_mem j" if "j \<in> cover B \<union> cached C \<union> F" for j using that I(8) F(1) inv_in_mem [OF inv] by blast
    have "addr_of k \<notin> addr_of ` (cover B \<union> cached C \<union> F)"
      using kn im out_in_mem(1) [OF inv k(1)] addr_of_inj by (metis (no_types, lifting) image_iff)
    then show ?thesis using w by (simp add: writes_in_def)
  qed
  moreover have "total_frames (g_zone s' z) = total_frames (g_zone s z)" for z using w by (simp add: writes_in_def)
  ultimately show ?thesis unfolding section_ok_def using inv' by blast
qed

lemma reclaim_callback_inv:
  assumes inv: "pmm_inv T s out B C" and c: "c < 64"
  shows "\<exists>s' m b B' C'. pmm_reclaim_callback c busy zones budget s = Some (s', m, b) \<and> pmm_inv T s' out B' C'
    \<and> m \<le> 32 \<and> m \<le> budget \<and> writes_in (cover B \<union> cached C) s s' \<and> (merged PMM_MAX_ORDER B \<longrightarrow> merged PMM_MAX_ORDER B')"
proof -
  let ?b = "if budget > 32 then 32 else budget" and ?z = "zones AND 3"
  have same: ?thesis if "pmm_reclaim_callback c busy zones budget s = Some (s, 0, b)" for b
    using that inv by (intro exI [of _ s] exI [of _ 0] exI [of _ b] exI [of _ B] exI [of _ C]) simp
  show ?thesis
  proof (cases "g_pmm_percpu_ready s \<and> ?b \<noteq> 0 \<and> ?z \<noteq> 0 \<and> \<not> busy")
    case False
    have "\<exists>b. pmm_reclaim_callback c busy zones budget s = Some (s, 0, b)"
    proof (cases "g_pmm_percpu_ready s \<and> c < 64 \<and> ?b \<noteq> 0 \<and> ?z \<noteq> 0")
      case True
      then have busy using False by blast
      then show ?thesis using True by (intro exI [of _ True]) (simp add: pmm_reclaim_callback_def Let_def split del: if_split)
    next
      case no: False
      show ?thesis unfolding pmm_reclaim_callback_def Let_def if_not_P [OF no] by blast
    qed
    then show ?thesis using same by blast
  next
    case True
    define q where "q = ?b div (of_bool (bit ?z 0) + of_bool (bit ?z 1))"
    obtain s1 m1 B1 C1 where 1: "(if bit ?z 0 then reclaim_zone c 0 q 0 s else Some (s, 0)) = Some (s1, m1)"
      "pmm_inv T s1 out B1 C1" "m1 \<le> of_bool (bit ?z 0) * q" "writes_in (cover B \<union> cached C) s s1"
      "cover B1 \<union> cached C1 = cover B \<union> cached C" "merged PMM_MAX_ORDER B \<longrightarrow> merged PMM_MAX_ORDER B1"
    proof (cases "bit ?z 0")
      case True
      then show ?thesis using reclaim_zone_inv [OF inv c, of 0 q 0] \<open>g_pmm_percpu_ready s \<and> _\<close> that by fastforce
    next
      case False
      then show ?thesis using that [of s 0 B C] inv by simp
    qed
    have r1: "g_pmm_percpu_ready s1" using 1(4) True by (simp add: writes_in_def)
    obtain s2 m2 B2 C2 where 2: "(if m1 < ?b \<and> bit ?z 1 then reclaim_zone c 1 q m1 s1 else Some (s1, m1)) = Some (s2, m2)"
      "pmm_inv T s2 out B2 C2" "m2 \<le> m1 + of_bool (bit ?z 1) * q" "writes_in (cover B \<union> cached C) s1 s2"
      "merged PMM_MAX_ORDER B1 \<longrightarrow> merged PMM_MAX_ORDER B2"
    proof (cases "m1 < ?b \<and> bit ?z 1")
      case True
      then show ?thesis using reclaim_zone_inv [OF 1(2) c r1, of 1 q m1] that unfolding 1(5) by fastforce
    next
      case False
      then show ?thesis using that [of s1 m1 B1 C1] 1(2) by auto
    qed
    have "pmm_reclaim_callback c busy zones budget s = Some (s2, m2, False)"
    proof -
      have cond: "g_pmm_percpu_ready s \<and> c < 64 \<and> ?b \<noteq> 0 \<and> ?z \<noteq> 0" "\<not> busy" using True c by blast+
      show ?thesis
        unfolding pmm_reclaim_callback_def Let_def if_P [OF cond(1)] if_P [OF cond(2)] q_def [symmetric]
          1(1) option.case prod.case 2(1) by (rule refl)
    qed
    moreover have "m2 \<le> ?b"
    proof -
      have "m2 \<le> (of_bool (bit ?z 0) + of_bool (bit ?z 1)) * q" using 1(3) 2(3) by (simp add: algebra_simps)
      also have "\<dots> \<le> ?b" unfolding q_def by (rule times_div_less_eq_dividend)
      finally show ?thesis .
    qed
    moreover have "?b \<le> 32 \<and> ?b \<le> budget" by simp
    ultimately show ?thesis using 2(2,5) 1(6) writes_in_trans [OF 1(4) 2(4)]
      by (intro exI [of _ s2] exI [of _ m2] exI [of _ False] exI [of _ B2] exI [of _ C2]) (auto simp del: split_paired_Ex split: if_splits)
  qed
qed

lemma section_keeps:
  assumes "pmm_section (s, out) (s', out')" and inv: "pmm_inv T s out B C"
  shows "section_ok T s out B s' out'"
proof -
  note I = pmm_invD [OF inv]
  have sub: "cover B \<subseteq> T" "cached C \<subseteq> T" "cover out \<subseteq> T" using I(8) by blast+
  have rule: "section_ok T s out B s1 out1"
    if "pmm_inv T s1 out1 B1 C1" "merged PMM_MAX_ORDER B \<longrightarrow> merged PMM_MAX_ORDER B1" "writes_in (cover B \<union> cached C) s s1"
    for s1 out1 B1 C1
    by (rule section_okI [OF inv that(1,2), of "{}"]) (use that(3) in simp_all)
  from assms(1) show ?thesis
  proof cases
    case (cache_alloc c z r)
    from pcp_alloc_inv [OF inv cache_alloc(4,2,3,5)] show ?thesis
    proof (elim disjE exE conjE)
      fix f B' C'
      assume *: "r = addr_of f" "block_fits (f, 0)" "pmm_inv T s' (insert (f, 0) out) B' C'"
        "writes_in (cover B) s s'" "merged PMM_MAX_ORDER B \<longrightarrow> merged PMM_MAX_ORDER B'"
      have "out' = insert (f, 0) out" using cache_alloc(1) *(1) insert_fits [OF *(2)] by simp
      then show ?thesis using rule [OF *(3,5) writes_in_mono [OF *(4)]] by simp
    qed (use cache_alloc(1) inv rule in fastforce)
  next
    case (zone_alloc z p r)
    from zone_alloc_inv [OF inv zone_alloc(2-4)] show ?thesis
    proof (elim disjE exE conjE)
      fix f q
      assume *: "r = addr_of f" "(f, q) \<in> B" "p \<le> q" "block_fits (f, p)"
        "pmm_inv T s' (insert (f, p) out) (carve B f p q) C" "only_free (cover B) s s'"
      have ok: "blocks_ok B" using I(1) free_repD(1) by (auto simp: buddy_rep_def)
      have "r \<noteq> 0 \<and> phys_to_frame r = f"
        using *(1) block_fits_in_mem [OF *(4) frames_base] by (simp add: addr_of_0_iff)
      then have "out' = insert (f, p) out" using zone_alloc(1) by simp
      then show ?thesis
        using rule [OF *(5) _ writes_in_mono [OF only_free_writes [OF *(6)]]] merged_carve [OF ok _ *(2,3)] by simp
    qed (use zone_alloc(1) inv rule in fastforce)
  next
    case (cache_free c f)
    then show ?thesis using pcp_free_inv [OF inv, of c f] rule by blast
  next
    case (zone_free f p)
    obtain s1 B' where *: "zone_free_locked (addr_of f) p s = (s1, True)" "pmm_inv T s1 (out - {(f, p)}) B' C"
      "merged PMM_MAX_ORDER B \<longrightarrow> merged PMM_MAX_ORDER B'" "only_free (cover B \<union> frames (f, p)) s s1"
      using zone_free_inv [OF inv zone_free(3)] by blast
    have "frames (f, p) \<inter> cover out' = {}" by (auto simp: zone_free(2) cover_remove [OF I(3) zone_free(3)])
    moreover have "frames (f, p) \<subseteq> T" using cover_mono [OF zone_free(3)] sub(3) by blast
    moreover have "writes_in (cover B \<union> cached C \<union> frames (f, p)) s s1"
      by (rule writes_in_mono [OF only_free_writes [OF *(4)]]) blast
    ultimately show ?thesis using section_okI [OF inv *(2,3)] zone_free(1,2) *(1) by simp
  next
    case (drain_take c z)
    have "phys_to_frame (addr_of k) = k" if "k \<in> set (C c z)" for k
      using insert_fits [OF caches_repD(3) [OF I(2) that]] by simp
    then have "phys_to_frame ` set (g_pcp s c z) = set (C c z)"
      by (simp add: caches_repD(1) [OF I(2)] image_image cong: image_cong)
    then show ?thesis using rule [OF drain_take_inv [OF inv drain_take(3,4), of z]] drain_take(1,2) by simp
  next
    case (drain_give ks)
    obtain B' where *: "pmm_inv T s' out' B' C" "merged PMM_MAX_ORDER B \<longrightarrow> merged PMM_MAX_ORDER B'"
      "only_free (cover B \<union> set ks) s s'"
      using zone_bulk_free_inv [OF inv drain_give(3,4)] drain_give(1,2) by blast
    have "set ks \<inter> cover out' = {}" using cover_minus [OF I(3) drain_give(4)] drain_give(2) by auto
    moreover have "set ks \<subseteq> T" using sub(3) drain_give(4) by (auto simp: singles_def dest: in_cover_base)
    moreover have "writes_in (cover B \<union> cached C \<union> set ks) s s'"
      by (rule writes_in_mono [OF only_free_writes [OF *(3)]]) blast
    ultimately show ?thesis using section_okI [OF inv *(1,2)] by blast
  next
    case (reclaim c busy zones budget m b)
    then show ?thesis using reclaim_callback_inv [OF inv reclaim(2), of busy zones budget] rule by auto
  next
    case enable
    have "pmm_inv T s' out B C" using inv enable(1)
      by (simp add: pmm_inv_def caches_rep_def pmm_enable_percpu_def)
    then show ?thesis unfolding section_ok_def using enable by (auto simp: pmm_enable_percpu_def)
  next
    case (pressure x)
    have "pmm_inv T s' out B C" using inv pressure(1) by (simp add: pmm_inv_def caches_rep_def)
    then show ?thesis unfolding section_ok_def using pressure by auto
  qed
qed

text \<open>What an owner writes into its pages the allocator does not see.\<close>

lemma owner_keeps:
  assumes inv: "pmm_inv T s out B C" and k: "k \<in> cover out"
  shows "pmm_inv T (s\<lparr>page_hdr := (page_hdr s)(addr_of k := b)\<rparr>) out B C"
proof -
  note I = pmm_invD [OF inv]
  let ?s = "s\<lparr>page_hdr := (page_hdr s)(addr_of k := b)\<rparr>"
  obtain L where L: "lists_ok L" "blks L = B" "\<forall>z\<le>1. zone_ok (page_hdr s) (g_zone s z) (L z)"
    using I(1) by (auto simp: buddy_rep_def free_rep_def lists_rep_def)
  have "addr_of f \<noteq> addr_of k" if "f \<in> set (L z p)" for f z p
  proof -
    have "f \<in> cover B" using in_cover_base [OF lists_okD(7) [OF L(1) that]] L(2) by simp
    then have "f \<noteq> k" using k I(6) by blast
    then show ?thesis using addr_of_inj [OF lists_okD(5) [OF L(1) that] out_in_mem(1) [OF inv k]] by simp
  qed
  then have "zone_ok (page_hdr ?s) (g_zone ?s z) (L z) = zone_ok (page_hdr s) (g_zone s z) (L z)" for z
    by (simp, intro zone_ok_cong) auto
  then have "free_rep ?s B" using L by (auto simp: free_rep_def lists_rep_def)
  then show ?thesis using inv by (simp add: pmm_inv_def buddy_rep_def caches_rep_def bm_rep_def)
qed

lemma reachable_inv:
  assumes "pmm_reachable es s out" and ap: "regions_apart 0 es"
  shows "\<exists>B C. pmm_inv (managed es) s out B C \<and> pmm_get_total_pages s = of_nat (card (managed es))
    \<and> (regions_apart 4096 es \<longrightarrow> merged PMM_MAX_ORDER B)"
  using assms(1)
proof (induction rule: pmm_reachable.induct)
  case (init s)
  then show ?case using pmm_init_inv [OF ap] by blast
next
  case (step s out s' out')
  then obtain B C where "pmm_inv (managed es) s out B C" "pmm_get_total_pages s = of_nat (card (managed es))"
    "regions_apart 4096 es \<longrightarrow> merged PMM_MAX_ORDER B" by blast
  then show ?case using section_keeps [OF step(2), of "managed es" B C]
    unfolding section_ok_def pmm_get_total_pages_def by metis
next
  case (owner s out k b)
  then show ?case using owner_keeps by (fastforce simp: pmm_get_total_pages_def)
qed

end
