(* ===== verification/Pmm_Props.thy ===== *)
theory Pmm_Props
  imports Pmm_Correct
begin

text \<open>
  The properties of the page allocator: no frame is given out twice or lost in any
  interleaving of its critical sections, allocation fails only when there is nothing to give,
  freed blocks coalesce completely, and a double free is refused.
\<close>

section \<open>Allocation\<close>

text \<open>The block handed out: new, managed, and from the zone asked for.\<close>

definition gives :: "memmap_entry list \<Rightarrow> block set \<Rightarrow> nat \<Rightarrow> nat set \<Rightarrow> pmm \<Rightarrow> u64 \<Rightarrow> bool" where
  "gives es out p zs s' r \<longleftrightarrow> (\<exists>f. r = addr_of f \<and> block_fits (f, p) \<and> zone_fr f \<in> zs
     \<and> frames (f, p) \<subseteq> managed es - cover out \<and> pmm_reachable es s' (insert (f, p) out))"

definition no_block :: "pmm \<Rightarrow> nat set \<Rightarrow> nat \<Rightarrow> bool" where
  "no_block s zs p \<longleftrightarrow> (\<forall>z\<in>zs. \<forall>q. p \<le> q \<longrightarrow> q \<le> PMM_MAX_ORDER \<longrightarrow> zblocks (g_zone s z) q = 0)"

lemma addr_of_fits:
  assumes "block_fits (f, p)"
  shows "addr_of f \<noteq> 0 \<and> phys_to_frame (addr_of f) = f"
  using block_fits_in_mem [OF assms frames_base] by (simp add: addr_of_0_iff)

lemma gives_not_0: "gives es out p zs s' r \<Longrightarrow> r \<noteq> 0"
  using addr_of_fits by (auto simp: gives_def)

lemma gives_mono: "gives es out p zs s' r \<Longrightarrow> zs \<subseteq> zs' \<Longrightarrow> gives es out p zs' s' r"
  unfolding gives_def by blast

lemma zone_alloc_step:
  assumes R: "pmm_reachable es s out" and ap: "regions_apart 0 es" and z: "z \<le> 1" "p \<le> PMM_MAX_ORDER"
    and res: "zone_alloc_locked z p s = (s', r)"
  shows "r = 0 \<and> s' = s \<and> no_block s {z} p \<or> gives es out p {z} s' r"
proof -
  obtain B C where inv: "pmm_inv (managed es) s out B C" using reachable_inv [OF R ap] by blast
  note I = pmm_invD [OF inv]
  from zone_alloc_inv [OF inv z res] show ?thesis
  proof (elim disjE exE conjE)
    assume "r = 0" "s' = s" and n: "\<forall>f q. (f, q) \<in> B \<longrightarrow> zone_fr f = z \<longrightarrow> q < p"
    moreover have "zblocks (g_zone s z) q = 0" if "p \<le> q" "q \<le> PMM_MAX_ORDER" for q
    proof -
      have e: "{f. (f, q) \<in> B \<and> zone_fr f = z} = {}" using n that(1) by fastforce
      have "free_rep s B" using I(1) by (simp add: buddy_rep_def)
      from zblocks_card [OF this z(1) that(2)] show ?thesis unfolding e by simp
    qed
    ultimately show ?thesis by (simp add: no_block_def)
  next
    fix f q
    assume *: "r = addr_of f" "zone_fr f = z" "block_fits (f, p)" "frames (f, p) \<subseteq> cover B"
    have "pmm_section (s, out) (s', if r = 0 then out else insert (phys_to_frame r, p) out)"
      by (rule zone_alloc [OF z res])
    then have "pmm_reachable es s' (insert (f, p) out)"
      using pmm_reachable.step [OF R] addr_of_fits [OF *(3)] *(1) by simp
    moreover have "frames (f, p) \<subseteq> managed es - cover out" using *(4) I(6,8) by blast
    ultimately show ?thesis using * by (auto simp: gives_def)
  qed
qed

lemma zone_alloc_any_step:
  assumes R: "pmm_reachable es s out" and ap: "regions_apart 0 es" and p: "p \<le> PMM_MAX_ORDER"
    and res: "zone_alloc_any_locked p s = (s', r)"
  shows "r = 0 \<and> s' = s \<and> no_block s {0, 1} p \<or> gives es out p {0, 1} s' r"
proof -
  obtain s1 r1 where 1: "zone_alloc_locked 1 p s = (s1, r1)" by fastforce
  from zone_alloc_step [OF R ap _ p 1] have "r1 = 0 \<and> s1 = s \<and> no_block s {1} p \<or> gives es out p {1} s1 r1" by simp
  then show ?thesis
  proof
    assume a: "gives es out p {1} s1 r1"
    then show ?thesis using res 1 gives_not_0 [OF a] gives_mono [OF a, of "{0, 1}"] by (simp add: zone_alloc_any_locked_def)
  next
    assume a: "r1 = 0 \<and> s1 = s \<and> no_block s {1} p"
    then have "zone_alloc_locked 0 p s = (s', r)" using res 1 by (simp add: zone_alloc_any_locked_def)
    from zone_alloc_step [OF R ap _ p this] show ?thesis
      using a gives_mono [of es out p "{0}" s' r "{0, 1}"] by (auto simp: no_block_def)
  qed
qed

lemma pcp_alloc_step:
  assumes R: "pmm_reachable es s out" and ap: "regions_apart 0 es" and z: "z \<le> 1" and c: "c < 64" "g_pmm_percpu_ready s"
    and res: "pcp_alloc c z s = (s', r)"
  shows "r = 0 \<and> s' = s \<or> gives es out 0 {z} s' r"
proof -
  obtain B C where inv: "pmm_inv (managed es) s out B C" using reachable_inv [OF R ap] by blast
  from pcp_alloc_inv [OF inv z c res] show ?thesis
  proof (elim disjE exE conjE)
    fix f B' C'
    assume *: "r = addr_of f" "zone_fr f = z" "block_fits (f, 0)" "f \<notin> cover out" "pmm_inv (managed es) s' (insert (f, 0) out) B' C'"
    have "pmm_section (s, out) (s', if r = 0 then out else insert (phys_to_frame r, 0) out)"
      by (rule cache_alloc [OF c z res])
    then have "pmm_reachable es s' (insert (f, 0) out)"
      using pmm_reachable.step [OF R] addr_of_fits [OF *(3)] *(1) by simp
    moreover have "f \<in> managed es" using pmm_invD(8) [OF *(5)] by auto
    ultimately show ?thesis using * by (auto simp: gives_def)
  qed simp
qed

text \<open>Draining the caches of one CPU, as the steps in which the pages leave the cache and go
  back under the lock.\<close>

lemma drain_zone_step:
  assumes R: "pmm_reachable es s out" and ap: "regions_apart 0 es" and c: "c < 64" "g_pmm_percpu_ready s"
  shows "pmm_reachable es (drain_zone c z s) out"
proof -
  obtain B C where inv: "pmm_inv (managed es) s out B C" using reachable_inv [OF R ap] by blast
  note I = pmm_invD [OF inv]
  have "phys_to_frame (addr_of k) = k" if "k \<in> set (C c z)" for k
    using insert_fits [OF caches_repD(3) [OF I(2) that]] by simp
  then have im: "phys_to_frame ` set (g_pcp s c z) = set (C c z)"
    by (simp add: caches_repD(1) [OF I(2)] image_image cong: image_cong)
  have "pmm_section (s, out) (set_pcp c z [] s, out \<union> singles (set (C c z)))"
    using drain_take [OF c, of out z] unfolding im .
  then have "pmm_reachable es (set_pcp c z [] s) (out \<union> singles (set (C c z)))" by (rule pmm_reachable.step [OF R])
  from pmm_reachable.step [OF this drain_give [OF caches_repD(2) [OF I(2), of c z]]]
  have "pmm_reachable es (drain_zone c z s) (out \<union> singles (set (C c z)) - singles (set (C c z)))"
    by (simp add: drain_zone_def Let_def caches_repD(1) [OF I(2)])
  moreover have "set (C c z) \<inter> cover out = {}" using I(7) in_cachedI by blast
  ultimately show ?thesis using singles_apart by simp
qed

lemma drain_local_step:
  assumes R: "pmm_reachable es s out" and ap: "regions_apart 0 es" and c: "c < 64" "g_pmm_percpu_ready s"
  shows "pmm_reachable es (pmm_drain_local c s) out" "g_pcp (pmm_drain_local c s) c 0 = []"
    "g_pcp (pmm_drain_local c s) c 1 = []"
proof -
  obtain B C where inv: "pmm_inv (managed es) s out B C" using reachable_inv [OF R ap] by blast
  have "g_pmm_percpu_ready (drain_zone c 0 s)" using drain_zone_inv [OF inv c, of 0] c(2) by (auto simp: writes_in_def)
  from drain_zone_step [OF drain_zone_step [OF R ap c] ap c(1) this]
  show "pmm_reachable es (pmm_drain_local c s) out" using c(2) by (simp add: pmm_drain_local_def)
  show "g_pcp (pmm_drain_local c s) c 0 = []" "g_pcp (pmm_drain_local c s) c 1 = []"
    using pmm_drain_local_inv [OF inv c] caches_repD(1) by (fastforce dest: pmm_invD(2))+
qed

lemma not_ready_empty:
  assumes "pmm_reachable es s out" "regions_apart 0 es" "\<not> g_pmm_percpu_ready s"
  shows "g_pcp s c z = []"
proof -
  obtain B C where "pmm_inv (managed es) s out B C" using reachable_inv [OF assms(1,2)] by blast
  note cr = pmm_invD(2) [OF this]
  have "C c z = []" using caches_repD(6) [OF cr, of _ c z] assms(3) by (cases "C c z") auto
  then show ?thesis using caches_repD(1) [OF cr] by simp
qed

text \<open>A concrete memory map for the witnesses: one usable megabyte at 1 MB.\<close>

definition small_map :: "memmap_entry list" where
  "small_map = [\<lparr>mm_base = 0x100000, mm_length = 0x100000, mm_type = 0\<rparr>]"

lemma small_map: "regions small_map = [(0x100000, 0x200000)]"
proof -
  have "region_of \<lparr>mm_base = 0x100000, mm_length = 0x100000, mm_type = 0\<rparr> = Some (0x100000, 0x200000)"
    by (simp add: region_of_def PAGE_ALIGN_UP_def PAGE_ALIGN_DOWN_def PMM_MAX_ADDR_def PMM_MAX_FRAMES_def)
  then show ?thesis by (simp add: small_map_def regions_def List.map_filter_def)
qed

lemma small_map_apart: "regions_apart gap small_map" "managed small_map = {256..<512}"
  by (simp_all add: regions_apart_def managed_def small_map region_frames_def)

definition small_boot :: pmm where
  "small_boot = pmm_init small_map \<lparr>g_bitmap = (\<lambda>w. 0), page_hdr = (\<lambda>a. \<lparr>fb_next = None, fb_prev = None, fb_order = 0, fb_magic = 0\<rparr>),
     g_zone = (\<lambda>z. \<lparr>free_list = (\<lambda>order. None), zblocks = (\<lambda>order. 0), orders_mask = 0, free_frames = 0, total_frames = 0\<rparr>),
     g_pcp = (\<lambda>c z. []), g_pmm_percpu_ready = False, g_pmm_pressure = 0\<rparr>"

lemma small_boot: "pmm_reachable small_map small_boot {}"
  unfolding small_boot_def by (rule pmm_reachable.init)

lemma small_boot_ready: "\<not> g_pmm_percpu_ready small_boot"
proof -
  let ?e = "\<lparr>g_bitmap = (\<lambda>w. 0), page_hdr = (\<lambda>a. \<lparr>fb_next = None, fb_prev = None, fb_order = 0, fb_magic = 0\<rparr>),
     g_zone = (\<lambda>z. \<lparr>free_list = (\<lambda>order. None), zblocks = (\<lambda>order. 0), orders_mask = 0, free_frames = 0, total_frames = 0\<rparr>),
     g_pcp = (\<lambda>c z. []), g_pmm_percpu_ready = False, g_pmm_pressure = 0\<rparr>"
  have "pmm_init small_map ?e = fold init_region small_map (pmm_reset ?e)"
    by (simp add: pmm_init_def pmm_reset_def)
  moreover have "g_pmm_percpu_ready (fold init_region small_map (pmm_reset ?e)) = g_pmm_percpu_ready (pmm_reset ?e)"
    using init_fold [OF pmm_reset(1) [of ?e] small_map_apart(1)] by force
  ultimately show ?thesis by (simp add: small_boot_def pmm_reset_def)
qed

lemma small_zone: "\<exists>z\<le>1. snd (zone_alloc_locked z 0 small_boot) \<noteq> 0"
proof -
  obtain B where B: "pmm_inv (managed small_map) small_boot {} B (\<lambda>c z. [])" "cover B = managed small_map"
    using pmm_init_inv [OF small_map_apart(1)] unfolding small_boot_def by blast
  have "256 \<in> cover B" by (simp add: B(2) small_map_apart(2))
  then obtain g q where g: "(g, q) \<in> B" by (auto simp: cover_def)
  obtain s1 r where al: "zone_alloc_locked (zone_fr g) 0 small_boot = (s1, r)" by fastforce
  have "r \<noteq> 0" using zone_alloc_inv [OF B(1) zone_fr_less _ al] g addr_of_fits by fastforce
  then show ?thesis using al zone_fr_less [of g] by (metis snd_conv)
qed

lemma small_alloc:
  "\<exists>s f. pmm_reachable small_map s {(f, 0)} \<and> block_fits (f, 0) \<and> \<not> g_pmm_percpu_ready s"
proof -
  obtain z where z: "z \<le> 1" "snd (zone_alloc_locked z 0 small_boot) \<noteq> 0" using small_zone by blast
  obtain s1 r where al: "zone_alloc_locked z 0 small_boot = (s1, r)" by fastforce
  then have "gives small_map {} 0 {z} s1 r"
    using zone_alloc_step [OF small_boot small_map_apart(1) z(1) _ al] z(2) by simp
  moreover obtain B C where inv: "pmm_inv (managed small_map) small_boot {} B C"
    using reachable_inv [OF small_boot small_map_apart(1)] by blast
  have "\<not> g_pmm_percpu_ready s1"
    using zone_alloc_inv [OF inv z(1) _ al] small_boot_ready by (auto simp: only_free_def)
  ultimately show ?thesis by (auto simp: gives_def)
qed

section \<open>The properties\<close>

text \<open>C1: in every state that any interleaving of the allocator's critical sections can reach
  from boot, with the owners writing into their pages as they like, the blocks that are out
  are aligned, lie in usable memory, do not overlap each other and are marked allocated; and
  the free page count and the pages that are out add up to the total, so no page is lost.\<close>

theorem pmm_sections_safe:
  assumes "regions_apart 0 es" "pmm_reachable es s out"
  shows "blocks_ok out \<and> (\<forall>b\<in>out. block_fits b) \<and> cover out \<subseteq> managed es
    \<and> (\<forall>k\<in>cover out. bitmap_test (g_bitmap s) k)
    \<and> pmm_get_free_pages 64 s + of_nat (card (cover out)) = pmm_get_total_pages s"
proof -
  obtain B C where inv: "pmm_inv (managed es) s out B C" "pmm_get_total_pages s = of_nat (card (managed es))"
    using reachable_inv [OF assms(2,1)] by blast
  note I = pmm_invD [OF inv(1)]
  have "finite (managed es)" by (simp add: managed_def region_frames_def)
  then have "pmm_get_free_pages 64 s + of_nat (card (cover out)) = pmm_get_total_pages s"
    using pages_add_up [OF inv(1)] inv(2) by simp
  moreover have "bitmap_test (g_bitmap s) k" if "k \<in> cover out" for k
    using that I(1,6) by (auto simp: buddy_rep_def bm_rep_def)
  ultimately show ?thesis using I(3,4,8) by blast
qed

theorem pmm_sections_safe_witness:
  "\<exists>s f. pmm_get_free_pages 64 s + of_nat (card (cover {(f, 0)})) = pmm_get_total_pages s
     \<and> bitmap_test (g_bitmap s) f"
proof -
  obtain s f where R: "pmm_reachable small_map s {(f, 0)}" using small_alloc by blast
  show ?thesis using pmm_sections_safe [OF small_map_apart(1) R] by (intro exI [of _ s] exI [of _ f]) auto
qed

text \<open>C17: a critical section of the allocator never writes into a page that belongs to a block
  which is out both before and after it.\<close>

theorem pmm_section_keeps_pages:
  assumes "regions_apart 0 es" "pmm_reachable es s out" "pmm_section (s, out) (s', out')"
    and "k \<in> cover out \<inter> cover out'"
  shows "page_hdr s' (addr_of k) = page_hdr s (addr_of k)"
proof -
  obtain B C where inv: "pmm_inv (managed es) s out B C" using reachable_inv [OF assms(2,1)] by blast
  show ?thesis using section_keeps [OF assms(3) inv] assms(4) by (simp add: section_ok_def)
qed

theorem pmm_section_keeps_pages_witness:
  "\<exists>s s' f. pmm_section (s, {(f, 0)}) (s', {(f, 0)}) \<and> page_hdr s' (addr_of f) = page_hdr s (addr_of f)"
proof -
  obtain s f where R: "pmm_reachable small_map s {(f, 0)}" using small_alloc by blast
  have "pmm_section (s, {(f, 0)}) (pmm_enable_percpu s, {(f, 0)})" by (rule enable)
  from pmm_section_keeps_pages [OF small_map_apart(1) R this, of f] this show ?thesis by auto
qed

text \<open>The three attempts of an allocation: the caches, the zones, the zones after a drain.\<close>

lemma alloc_from_caches:
  assumes R: "pmm_reachable es s out" and ap: "regions_apart 0 es" and c: "cpu < 64"
    and 1: "(if order = 0 \<and> g_pmm_percpu_ready s
      then case pcp_alloc cpu PMM_ZONE_NORMAL s of
           (sa, ra) \<Rightarrow> if ra = 0 then pcp_alloc cpu PMM_ZONE_DMA32 sa else (sa, ra)
      else (s, 0)) = (s1, r1)"
  shows "r1 = 0 \<and> s1 = s \<or> gives es out order {0, 1} s1 r1"
proof (cases "order = 0 \<and> g_pmm_percpu_ready s")
  case True
  obtain sa ra where a: "pcp_alloc cpu 1 s = (sa, ra)" by fastforce
  have g: "gives es out 0 {z} s0 r0 \<Longrightarrow> z \<in> {0, 1} \<Longrightarrow> gives es out order {0, 1} s0 r0" for z s0 r0
    using gives_mono [of es out 0 "{z}" s0 r0 "{0, 1}"] True by auto
  from pcp_alloc_step [OF R ap _ c _ a] True have "ra = 0 \<and> sa = s \<or> gives es out 0 {1} sa ra" by simp
  then show ?thesis
  proof
    assume "ra = 0 \<and> sa = s"
    then have "pcp_alloc cpu 0 s = (s1, r1)" using 1 a True by simp
    from pcp_alloc_step [OF R ap _ c _ this] True g [of 0 s1 r1] show ?thesis by auto
  next
    assume h: "gives es out 0 {1} sa ra"
    then have "s1 = sa \<and> r1 = ra" using 1 a True gives_not_0 [OF h] by simp
    then show ?thesis using g [OF h] by simp
  qed
next
  case False
  then show ?thesis using 1 by auto
qed

lemma alloc_after_drain:
  assumes R: "pmm_reachable es s out" and ap: "regions_apart 0 es" and c: "cpu < 64" and o: "order \<le> PMM_MAX_ORDER"
    and B: "r2 = 0 \<and> s2 = s \<and> no_block s {0, 1} order \<or> gives es out order {0, 1} s2 r2"
    and 3: "(if r2 = 0 \<and> g_pmm_percpu_ready s2
      then zone_alloc_any_locked order (pmm_drain_local cpu s2) else (s2, r2)) = (s3, r3)"
  shows "r3 = 0 \<and> no_block s3 {0, 1} order \<and> g_pcp s3 cpu 0 = [] \<and> g_pcp s3 cpu 1 = [] \<and> pmm_reachable es s3 out
      \<or> gives es out order {0, 1} s3 r3"
  using B
proof
  assume h: "r2 = 0 \<and> s2 = s \<and> no_block s {0, 1} order"
  show ?thesis
  proof (cases "g_pmm_percpu_ready s")
    case True
    note d = drain_local_step [OF R ap c True]
    have "zone_alloc_any_locked order (pmm_drain_local cpu s) = (s3, r3)" using 3 h True by simp
    from zone_alloc_any_step [OF d(1) ap o this] d show ?thesis by auto
  next
    case False
    then show ?thesis using 3 h R not_ready_empty [OF R ap False] by simp
  qed
next
  assume h: "gives es out order {0, 1} s2 r2"
  then show ?thesis using 3 gives_not_0 [OF h] by simp
qed

text \<open>C7: an allocation either hands out a fresh block of the order asked for, naturally
  aligned, in usable memory and apart from everything that is out; or it fails, and then the
  order is above the limit, or there is no free block that large in either zone and nothing
  in this CPU's caches, and the memory pressure of both zones is published.\<close>

theorem pmm_alloc_correct:
  assumes ap: "regions_apart 0 es" and R: "pmm_reachable es s out" and c: "cpu < 64"
    and res: "pmm_alloc cpu order s = (s', r)"
  shows "if r \<noteq> 0 then gives es out order {0, 1} s' r
    else order > PMM_MAX_ORDER \<and> s' = s \<or>
      no_block s' {0, 1} order \<and> g_pcp s' cpu 0 = [] \<and> g_pcp s' cpu 1 = [] \<and> g_pmm_pressure s' AND 3 = 3
        \<and> pmm_reachable es s' out"
proof (cases "order > PMM_MAX_ORDER")
  case True
  then show ?thesis using res by (simp add: pmm_alloc_def)
next
  case False
  then have o: "order \<le> PMM_MAX_ORDER" by simp
  obtain s1 r1 where 1: "(if order = 0 \<and> g_pmm_percpu_ready s
      then case pcp_alloc cpu PMM_ZONE_NORMAL s of
           (sa, ra) \<Rightarrow> if ra = 0 then pcp_alloc cpu PMM_ZONE_DMA32 sa else (sa, ra)
      else (s, 0)) = (s1, r1)" by fastforce
  have A: "r1 = 0 \<and> s1 = s \<or> gives es out order {0, 1} s1 r1"
    by (rule alloc_from_caches [OF R ap c 1])
  obtain s2 r2 where 2: "(if r1 = 0 then zone_alloc_any_locked order s1 else (s1, r1)) = (s2, r2)" by fastforce
  have B: "r2 = 0 \<and> s2 = s \<and> no_block s {0, 1} order \<or> gives es out order {0, 1} s2 r2"
    using A
  proof
    assume h: "r1 = 0 \<and> s1 = s"
    then have "zone_alloc_any_locked order s = (s2, r2)" using 2 by simp
    from zone_alloc_any_step [OF R ap o this] show ?thesis .
  next
    assume h: "gives es out order {0, 1} s1 r1"
    then show ?thesis using 2 gives_not_0 [OF h] by simp
  qed
  obtain s3 r3 where 3: "(if r2 = 0 \<and> g_pmm_percpu_ready s2
      then zone_alloc_any_locked order (pmm_drain_local cpu s2) else (s2, r2)) = (s3, r3)" by fastforce
  have C: "r3 = 0 \<and> no_block s3 {0, 1} order \<and> g_pcp s3 cpu 0 = [] \<and> g_pcp s3 cpu 1 = [] \<and> pmm_reachable es s3 out
      \<or> gives es out order {0, 1} s3 r3"
    by (rule alloc_after_drain [OF R ap c o B 3])
  have "pmm_alloc cpu order s = (if r3 = 0 then s3\<lparr>g_pmm_pressure := g_pmm_pressure s3 OR 3\<rparr> else s3, r3)"
    unfolding pmm_alloc_def if_not_P [OF False] Let_def 1 prod.case 2 3 by simp
  then have res': "s' = (if r3 = 0 then s3\<lparr>g_pmm_pressure := g_pmm_pressure s3 OR 3\<rparr> else s3)" "r = r3"
    using res by simp_all
  have pr: "(x OR 3) AND 3 = (3 :: u32)" for x by (rule bit_eqI) (auto simp: bit_simps)
  from C show ?thesis
  proof
    assume h: "r3 = 0 \<and> no_block s3 {0, 1} order \<and> g_pcp s3 cpu 0 = [] \<and> g_pcp s3 cpu 1 = [] \<and> pmm_reachable es s3 out"
    then have "pmm_reachable es s' out" using pmm_reachable.step [OF _ pressure] res'(1) by simp
    then show ?thesis using h res' pr by (simp add: no_block_def)
  next
    assume h: "gives es out order {0, 1} s3 r3"
    then show ?thesis using gives_not_0 [OF h] res' by simp
  qed
qed

theorem pmm_alloc_correct_witness:
  "\<exists>s' r. pmm_alloc 0 0 small_boot = (s', r) \<and> r \<noteq> 0 \<and> gives small_map {} 0 {0, 1} s' r"
proof -
  obtain s' r where res: "pmm_alloc 0 0 small_boot = (s', r)" by fastforce
  have nr: "\<not> g_pmm_percpu_ready small_boot"
    by (rule small_boot_ready)
  obtain s1 r1 where any: "zone_alloc_any_locked 0 small_boot = (s1, r1)" by fastforce
  have "r = r1" using res any nr zone_alloc_any_step [OF small_boot small_map_apart(1) _ any]
    by (auto simp: pmm_alloc_def dest: gives_not_0 split: if_splits)
  moreover have "r1 \<noteq> 0"
  proof
    assume "r1 = 0"
    obtain sa ra where a: "zone_alloc_locked 1 0 small_boot = (sa, ra)" by fastforce
    have "ra = 0" using any a \<open>r1 = 0\<close> by (auto simp: zone_alloc_any_locked_def split: if_splits)
    moreover from this have "sa = small_boot"
      using zone_alloc_step [OF small_boot small_map_apart(1) _ _ a] by (auto dest: gives_not_0)
    ultimately have "snd (zone_alloc_locked 0 0 small_boot) = 0" "snd (zone_alloc_locked 1 0 small_boot) = 0"
      using any a \<open>r1 = 0\<close> by (simp_all add: zone_alloc_any_locked_def)
    then show False using small_zone by (auto simp: le_Suc_eq)
  qed
  ultimately show ?thesis using pmm_alloc_correct [OF small_map_apart(1) small_boot _ res] res by simp
qed

text \<open>C11: freed blocks coalesce completely. If the usable regions of the memory map are a page
  apart, then in any two states reached from boot, by whatever histories, in which the same
  frames are out and the caches are empty, every free list has the same number of blocks; in
  particular the lists are as after boot once everything has been freed and drained.\<close>

theorem pmm_buddies_restored:
  assumes "regions_apart 4096 es" "pmm_reachable es s out" "pmm_reachable es s' out'"
    and "cover out = cover out'" "\<And>c z. g_pcp s c z = []" "\<And>c z. g_pcp s' c z = []"
    and z: "z \<le> 1" "p \<le> PMM_MAX_ORDER"
  shows "zblocks (g_zone s z) p = zblocks (g_zone s' z) p"
proof -
  have ap: "regions_apart 0 es" using assms(1) unfolding regions_apart_def by (rule sorted_wrt_mono_rel [rotated]) auto
  obtain B C where 1: "pmm_inv (managed es) s out B C" "merged PMM_MAX_ORDER B"
    using reachable_inv [OF assms(2) ap] assms(1) by blast
  obtain B' C' where 2: "pmm_inv (managed es) s' out' B' C'" "merged PMM_MAX_ORDER B'"
    using reachable_inv [OF assms(3) ap] assms(1) by blast
  note I = pmm_invD [OF 1(1)] and I' = pmm_invD [OF 2(1)]
  have "cached C = {}" "cached C' = {}"
    using caches_repD(1) [OF I(2)] caches_repD(1) [OF I'(2)] assms(5,6) by (simp_all add: cached_def)
  then have "cover B = cover B'" using I(6,8) I'(6,8) assms(4) by blast
  moreover have fr: "free_rep s B" "free_rep s' B'" using I(1) I'(1) by (simp_all add: buddy_rep_def)
  ultimately have "B = B'" using merged_unique [OF _ 1(2) _ 2(2)] free_repD(1) by blast
  then show ?thesis using zblocks_card [OF fr(1) z] zblocks_card [OF fr(2) z] by simp
qed

text \<open>C39: a block of frames that the allocator manages, that are with no owner and in no cache of
  a CPU, cannot be freed, whatever has happened since they were given back: the free is
  refused and changes nothing. So a block that was freed is not freed again before it is
  handed out. (A single page freed twice may wait in a cache first.)\<close>

theorem pmm_double_free_refused:
  assumes "regions_apart 0 es" "pmm_reachable es s out" "block_fits (g, q)"
    and "frames (g, q) \<subseteq> managed es - cover out" "\<forall>c z. \<forall>k \<in> frames (g, q). addr_of k \<notin> set (g_pcp s c z)"
  shows "zone_free_locked (addr_of g) q s = (s, False)"
proof -
  obtain B C where inv: "pmm_inv (managed es) s out B C" using reachable_inv [OF assms(2,1)] by blast
  have "frames (g, q) \<inter> cached C = {}"
    using assms(5) caches_repD(1) [OF pmm_invD(2) [OF inv]] by (auto simp: cached_def)
  then have "frames (g, q) \<subseteq> cover B" using assms(4) pmm_invD(8) [OF inv] by blast
  then show ?thesis by (rule zone_free_refused [OF pmm_invD(1) [OF inv] assms(3)])
qed

text \<open>A page that is freed twice into the cache of a CPU is handed out twice.\<close>

lemma pcp_double_free:
  assumes "length (g_pcp s c (zone_of a)) + 1 < PCP_CAP"
  shows "\<exists>s1 s2. pcp_alloc c (zone_of a) (pcp_free c a (pcp_free c a s)) = (s1, a) \<and> pcp_alloc c (zone_of a) s1 = (s2, a)"
  using assms by (simp add: pcp_free_def pcp_alloc_def Let_def butlast_append)

text \<open>C40: the reclaim callback never meets a page that the allocator refuses, so it does not
  panic; it gives back at most the budget it is asked for and never more than 32 pages, and
  leaves every block with its owner.\<close>

theorem pmm_reclaim_bounded:
  assumes "regions_apart 0 es" "pmm_reachable es s out" "c < 64"
  shows "\<exists>s' m b. pmm_reclaim_callback c busy zones budget s = Some (s', m, b) \<and> m \<le> budget \<and> m \<le> 32
    \<and> pmm_reachable es s' out"
proof -
  obtain B C where inv: "pmm_inv (managed es) s out B C" using reachable_inv [OF assms(2,1)] by blast
  obtain s' m b where 1: "pmm_reclaim_callback c busy zones budget s = Some (s', m, b)" "m \<le> 32" "m \<le> budget"
    using reclaim_callback_inv [OF inv assms(3)] by blast
  have "pmm_reachable es s' out" using assms(2) reclaim [OF assms(3) 1(1)] by (rule pmm_reachable.step)
  then show ?thesis using 1 by blast
qed

theorem pmm_reclaim_bounded_witness:
  "\<exists>s' m b. pmm_reclaim_callback 3 False 3 8 small_boot = Some (s', m, b) \<and> m \<le> 8"
  using pmm_reclaim_bounded [OF small_map_apart(1) small_boot, of 3 False 3 8] by auto


theorem pmm_double_free_refused_witness:
  "\<exists>s f s'. pmm_reachable small_map s {(f, 0)} \<and> zone_free_locked (addr_of f) 0 s = (s', True)
     \<and> zone_free_locked (addr_of f) 0 s' = (s', False)"
proof -
  obtain s f where R: "pmm_reachable small_map s {(f, 0)}" "block_fits (f, 0)" "\<not> g_pmm_percpu_ready s"
    using small_alloc by blast
  note ap = small_map_apart(1)
  obtain B C where inv: "pmm_inv (managed small_map) s {(f, 0)} B C" using reachable_inv [OF R(1) ap] by blast
  obtain s' B1 where fr: "zone_free_locked (addr_of f) 0 s = (s', True)" "pmm_inv (managed small_map) s' ({(f, 0)} - {(f, 0)}) B1 C"
    using zone_free_inv [OF inv, of f 0] by blast
  have "pmm_section (s, {(f, 0)}) (fst (zone_free_locked (addr_of f) 0 s), {(f, 0)} - {(f, 0)})" by (rule zone_free) simp
  then have R': "pmm_reachable small_map s' {}" using pmm_reachable.step [OF R(1)] fr(1) by simp
  have "C c z = []" for c z
    using caches_repD(6) [OF pmm_invD(2) [OF inv], of _ c z] R(3) by (cases "C c z") auto
  then have "g_pcp s' c z = []" for c z using caches_repD(1) [OF pmm_invD(2) [OF fr(2)]] by simp
  moreover have "frames (f, 0) \<subseteq> managed small_map - cover {}" using pmm_invD(8) [OF inv] by auto
  ultimately show ?thesis using pmm_double_free_refused [OF ap R' R(2)] R(1) fr(1) by auto
qed

theorem pmm_buddies_restored_witness:
  "\<exists>s f s'. pmm_reachable small_map s {(f, 0)} \<and> s' = fst (zone_free_locked (addr_of f) 0 s)
     \<and> zblocks (g_zone s' 0) 8 = zblocks (g_zone small_boot 0) 8"
proof -
  obtain z where z: "z \<le> 1" "snd (zone_alloc_locked z 0 small_boot) \<noteq> 0" using small_zone by blast
  obtain s r where al: "zone_alloc_locked z 0 small_boot = (s, r)" by fastforce
  then have "gives small_map {} 0 {z} s r"
    using zone_alloc_step [OF small_boot small_map_apart(1) z(1) _ al] z(2) by simp
  then obtain f where R: "pmm_reachable small_map s {(f, 0)}" by (auto simp: gives_def)
  let ?s' = "fst (zone_free_locked (addr_of f) 0 s)"
  have "pmm_section (s, {(f, 0)}) (?s', {(f, 0)} - {(f, 0)})" by (rule zone_free) simp
  then have R': "pmm_reachable small_map ?s' {}" using pmm_reachable.step [OF R] by simp
  obtain B C where inv: "pmm_inv (managed small_map) small_boot {} B C"
    using reachable_inv [OF small_boot small_map_apart(1)] by blast
  have "\<not> g_pmm_percpu_ready s"
    using zone_alloc_inv [OF inv z(1) _ al] small_boot_ready by (auto simp: only_free_def)
  moreover obtain B1 C1 where inv1: "pmm_inv (managed small_map) s {(f, 0)} B1 C1"
    using reachable_inv [OF R small_map_apart(1)] by blast
  ultimately have "\<not> g_pmm_percpu_ready ?s'"
    using zone_free_inv [OF inv1, of f 0] by (auto simp: only_free_def)
  note e = not_ready_empty [OF R' small_map_apart(1) this] not_ready_empty [OF small_boot small_map_apart(1) small_boot_ready]
  have "zblocks (g_zone ?s' 0) 8 = zblocks (g_zone small_boot 0) 8"
    by (rule pmm_buddies_restored [OF small_map_apart(1) R' small_boot refl e]) (simp_all add: PMM_MAX_ORDER_def)
  then show ?thesis using R by blast
qed

section \<open>Orders for page counts\<close>

text \<open>The order for a page count is the least one that holds it, up to the largest.\<close>

lemma pages_to_order_least:
  "pages_to_order c = (if unat c \<le> 2 ^ PMM_MAX_ORDER then Some (LEAST p. unat c \<le> 2 ^ p) else None)"
proof -
  have lim: "c > push_bit PMM_MAX_ORDER 1 \<longleftrightarrow> \<not> unat c \<le> 2 ^ PMM_MAX_ORDER"
    by (simp add: word_less_nat_alt PMM_MAX_ORDER_def not_le)
  show ?thesis
  proof (cases "c \<le> 1")
    case True
    then have "unat c \<le> 2 ^ 0" by (simp add: word_le_nat_alt)
    then have "(LEAST p. unat c \<le> 2 ^ p) = 0" by (intro Least_equality) simp_all
    moreover have "unat c \<le> 2 ^ PMM_MAX_ORDER" using \<open>unat c \<le> 2 ^ 0\<close> by (simp add: PMM_MAX_ORDER_def)
    ultimately show ?thesis using True lim by (simp add: pages_to_order_def)
  next
    case False
    define m where "m = unat (c - 1)"
    have "c \<noteq> 0" using False by auto
    then have m: "unat c = Suc m" "0 < m"
      using False unat_minus_one [of c] by (auto simp: m_def word_le_nat_alt)
    note b = bsr_bounds [OF m(2)]
    have "m < 2 ^ 64" unfolding m_def using unsigned_less [of "c - 1"] by simp
    then have "(2::nat) ^ bsr m < 2 ^ 64" using b by linarith
    then have "bsr m < 64" by (rule power_less_imp_less_exp [rotated]) simp
    then have ord: "64 - hw_clz64 (c - 1) = Suc (bsr m)"
      using m(2) by (auto simp: hw_clz64_def m_def)
    have least: "(LEAST p. unat c \<le> 2 ^ p) = Suc (bsr m)"
    proof (rule Least_equality)
      show "unat c \<le> 2 ^ Suc (bsr m)" using b m(1) by simp
      fix p assume "unat c \<le> 2 ^ p"
      then have "(2::nat) ^ bsr m < 2 ^ p" using b m(1) by linarith
      then show "Suc (bsr m) \<le> p" by simp
    qed
    have "Suc (bsr m) \<le> PMM_MAX_ORDER" if "unat c \<le> 2 ^ PMM_MAX_ORDER"
    proof -
      have "(2::nat) ^ bsr m < 2 ^ PMM_MAX_ORDER" using b m(1) that by linarith
      then show ?thesis by simp
    qed
    then show ?thesis using False lim ord least by (auto simp: pages_to_order_def Let_def)
  qed
qed

end
