(* ===== verification/Spec2Isabelle.thy ===== *)
theory Spec2Isabelle
  imports Seccomp Acl Pipe Block Completion MQueue Vma_Correct Pmm_Props
begin

text \<open>
  A verification development for AzamiOS, a 64-bit x86 operating system written in C with
  its own kernel, drivers, libc and desktop. The development follows the kernel: the parts
  below are translated from the files named, relative to \<^verbatim>\<open>src/\<close>, one definition per
  function or critical section, with the names of the source.

  \<^bold>\<open>Security.\<close>
  \<^item> \<open>Capabilities\<close>: \<^verbatim>\<open>kernel/security/security.c\<close> and the credential calls of
    \<^verbatim>\<open>kernel/syscall/sys_proc.c\<close>. The state is the record \<open>process\<close>; \<open>cap_step\<close> is
    any call or exec. Shown: the subset relations between the capability sets in every
    reachable state, confinement under no_new_privs, the exact range of user pointers the
    kernel accepts, the round trip of capget and capset, and that giving up root by setuid
    gives up no capability.
  \<^item> \<open>Seccomp\<close>: \<^verbatim>\<open>kernel/security/seccomp.c\<close>, the seccomp call of
    \<^verbatim>\<open>kernel/syscall/sys_misc.c\<close> and the gate of \<^verbatim>\<open>kernel/syscall/syscall.c\<close>. The
    validator is sound for the interpreter, filters are never used after they are freed and
    their counts are exact, a chain returns its most restrictive verdict; and two inputs on
    which validator and gate fail.
  \<^item> \<open>Acl\<close>: \<^verbatim>\<open>kernel/security/acl.c\<close> and the getfacl and setfacl calls. The hash table
    implements the interface \<open>kv_table\<close> of \<open>Kv_Table\<close>; the decision is the POSIX.1e
    algorithm and the mask limits it.

  \<^bold>\<open>Inter-process communication and waiting.\<close>
  \<^item> \<open>Pipe\<close>: \<^verbatim>\<open>fs/pipe.c\<close>. Threads run critical sections in any order (\<open>pipe_step\<close>);
    the ring implements the interface \<open>byte_stream\<close> of \<open>Ring\<close>. Bytes come out in the
    order they went in, writes up to 4096 bytes are not torn, poll tells the truth; a
    wake-up can be lost.
  \<^item> \<open>MQueue\<close>: \<^verbatim>\<open>kernel/ipc/mqueue.c\<close>. Delivery by priority, reference counts and
    content in every interleaving (\<open>mq_step\<close>), poll, and the race of a failing mq_open
    with mq_unlink.
  \<^item> \<open>Completion\<close>: \<^verbatim>\<open>kernel/completion.c\<close> and \<^verbatim>\<open>kernel/wait.c\<close>.

  \<^bold>\<open>Memory.\<close>
  \<^item> \<open>Hwaccel\<close>, \<open>Frame_Bitmap\<close>: the bit-counting helpers of \<^verbatim>\<open>arch/x86_64/cpu/hwaccel.h\<close> and
    the frame bitmap of \<^verbatim>\<open>kernel/mm/pmm.c\<close>, whose word-at-a-time loops equal loops over
    single bits.
  \<^item> \<open>Pmm\<close>: the page allocator of \<^verbatim>\<open>kernel/mm/pmm.c\<close>: two zones of buddy lists linked through
    headers in the free pages, the per-CPU caches, the reclaim callback and boot. \<open>Buddy\<close>
    is its abstract view, aligned blocks of frames; \<open>Pmm_Lists\<close>, \<open>Pmm_Inv\<close> and \<open>Pmm_Core\<close>
    show that lists, headers, masks, counters and bitmap represent a set of free blocks and
    what splitting and coalescing do to it; \<open>Pmm_Sys\<close> adds the caches and the blocks that
    are out; \<open>Pmm_Init\<close> is boot from a memory map; \<open>Pmm_Correct\<close> lets the critical sections
    of 64 CPUs and the writes of the owners interleave (\<open>pmm_reachable\<close>); \<open>Pmm_Props\<close> has
    the results: no overlap, no loss, failure only when nothing is left, complete
    coalescing, double frees refused.
  \<^item> \<open>RBTree\<close>, \<open>RBTree_Repr\<close>, \<open>RBTree_Correct\<close>: \<^verbatim>\<open>kernel/lib/rbtree.c\<close> on a store of
    nodes with pointers. Insertion and deletion return, keep the red-black invariant and the
    order; walks visit the nodes in order.
  \<^item> \<open>Tree_Index\<close>: the interface \<open>ordered_index\<close> that a tree offers to its clients.
  \<^item> \<open>Vma\<close>, \<open>Vma_Inv\<close>, \<open>Vma_Correct\<close>: \<^verbatim>\<open>kernel/mm/vma.c\<close>. The chain and the tree of a
    process's regions refine a partial map from addresses to protection and flags; each
    operation changes exactly its range of that map.

  \<^bold>\<open>Storage.\<close>
  \<^item> \<open>Block\<close>: \<^verbatim>\<open>drivers/block/block.c\<close> and \<^verbatim>\<open>drivers/block/partition.c\<close>. The
    interface \<open>sector_device\<close> is what the block layer expects of a driver; a RAM disk and a
    partition of any device meet it. Device-file reads and writes act exactly on the bytes
    of the partition.

  \<open>Az_Prelude\<close> has the integer types, the error numbers, the object store and the facts on
  words and lists that the components share.

  \<^bold>\<open>Conventions.\<close> Integers have the width of the source where they can wrap; sizes and
  positions that the code keeps within a constant are naturals. A function that returns a
  negative error number has the type \<open>errno + 'a\<close>. A result \<open>None\<close> of the pointer programs
  is an access through a null or freed pointer, or a loop that does not end: those loops are
  partial functions, no fuel is used, and the theorems state that the result is \<open>Some\<close>. A
  stretch of code under one lock is one function; where the code drops the lock, the model
  has a step boundary and any other thread may run. What user memory holds, whether an
  allocation succeeds (\<open>mem\<close> in \<open>Vma\<close>) and what a driver does are arguments.

  \<^bold>\<open>Not modelled.\<close> The scheduler and its run queues (\<^verbatim>\<open>kernel/sched\<close>), paging and the
  processor (\<^verbatim>\<open>arch/x86_64\<close>), the heap (\<^verbatim>\<open>kernel/mm/kmalloc.c\<close>), the thread
  that schedules page reclaim, the file systems and the VFS (\<^verbatim>\<open>fs\<close> apart from pipes), the
  network stack, System V IPC, timers, signals, the remaining system calls, hardware
  drivers, and the whole of \<^verbatim>\<open>userland\<close>. Spinlocks are taken to work; memory ordering
  between processors is not modelled.
\<close>

end
